(* ===== verification/Mcp_Prelude.thy ===== *)
theory Mcp_Prelude
  imports Main "HOL-Library.State_Monad" "HOL-Library.Word"
begin

text \<open>
  What every component of the development shares: the status codes
  (include/mcpkit/core/error.h), the allocator the library is written against,
  and a small weakest-precondition calculus for the state monad in which the
  allocating functions are modelled.

  The allocator is user-supplied code (\<^verbatim>\<open>mcp_allocator_t\<close>), so it is a parameter
  of the model: a heap is the number of live blocks together with a script of the
  outcomes of the allocations still to come. An empty script is an allocator that
  never fails. A pointer that owns a block is not modelled by its address; what is
  counted is how many blocks a value owns, so that leaks and double frees show up
  as a wrong number of live blocks.
\<close>

section \<open>Status codes\<close>

datatype mcp_status =
    MCP_OK
  | MCP_ERR_INVALID_ARGUMENT
  | MCP_ERR_NOMEM
  | MCP_ERR_IO
  | MCP_ERR_PROTOCOL
  | MCP_ERR_TIMEOUT
  | MCP_ERR_CANCELLED
  | MCP_ERR_NOT_FOUND
  | MCP_ERR_ALREADY_EXISTS
  | MCP_ERR_UNSUPPORTED
  | MCP_ERR_PERMISSION

section \<open>The allocator\<close>

record heap =
  live :: int
  script :: "bool list"

abbreviation ret :: "'a \<Rightarrow> ('s, 'a) state" where
  "ret \<equiv> State_Monad.return"

definition next_outcome :: "('z heap_scheme, bool) state" where
  "next_outcome = State (\<lambda>h. case script h of
       [] \<Rightarrow> (True, h)
     | b # bs \<Rightarrow> (b, h\<lparr>script := bs\<rparr>))"

definition add_live :: "int \<Rightarrow> ('z heap_scheme, unit) state" where
  "add_live n = State (\<lambda>h. ((), h\<lparr>live := live h + n\<rparr>))"

definition xmalloc :: "('z heap_scheme, bool) state" where
  "xmalloc = do {
     ok \<leftarrow> next_outcome;
     add_live (if ok then 1 else 0);
     ret ok
   }"

text \<open>The argument of \<open>xrealloc\<close> says whether the old pointer is non-NULL: then the
  old block is consumed by a successful call.\<close>

definition xrealloc :: "bool \<Rightarrow> ('z heap_scheme, bool) state" where
  "xrealloc had = do {
     ok \<leftarrow> next_outcome;
     add_live (if ok \<and> \<not> had then 1 else 0);
     ret ok
   }"

definition xfree :: "bool \<Rightarrow> ('z heap_scheme, unit) state" where
  "xfree nonnull = add_live (if nonnull then -1 else 0)"

section \<open>Lists\<close>

lemma concat_rows_nth:
  assumes "i < m" and "j < n"
  shows "concat (map (\<lambda>s. map (f s) [0..<n]) [0..<m]) ! (i * n + j) = f i j"
  using assms
proof (induction m)
  case (Suc m)
  have len: "length (concat (map (\<lambda>s. map (f s) [0..<n]) [0..<m])) = m * n"
    by (simp add: length_concat sum_list_triv comp_def)
  show ?case
  proof (cases "i < m")
    case True
    then have "i * n + j < m * n"
      using Suc.prems(2) by (metis add.commute add_less_le_mono mult_Suc mult_le_mono1 Suc_leI
          less_le_trans nat_add_left_cancel_less)
    with True Suc.IH Suc.prems len show ?thesis by (simp add: nth_append)
  next
    case False
    with Suc.prems have "i = m" by simp
    with Suc.prems len show ?thesis by (simp add: nth_append)
  qed
qed simp

section \<open>Weakest preconditions\<close>

named_theorems wp_simps \<open>equations that push \<open>wp\<close> through a program\<close>

definition wp :: "('s, 'a) state \<Rightarrow> ('a \<Rightarrow> 's \<Rightarrow> bool) \<Rightarrow> 's \<Rightarrow> bool" where
  "wp m Q s = (case run_state m s of (a, s') \<Rightarrow> Q a s')"

lemma wp_return [wp_simps, simp]: "wp (ret a) Q = Q a"
  by (simp add: wp_def fun_eq_iff)

lemma wp_bind [wp_simps, simp]: "wp (State_Monad.bind m f) Q = wp m (\<lambda>a. wp (f a) Q)"
  by (simp add: wp_def fun_eq_iff split: prod.splits)

lemma wp_if [wp_simps]: "wp (if b then m else n) Q = (if b then wp m Q else wp n Q)"
  by simp

lemma wp_case_option [wp_simps]:
  "wp (case x of None \<Rightarrow> m | Some a \<Rightarrow> f a) Q =
     (case x of None \<Rightarrow> wp m Q | Some a \<Rightarrow> wp (f a) Q)"
  by (cases x) simp_all

lemma wp_next_outcome [wp_simps]:
  "wp next_outcome Q h =
     (case script h of [] \<Rightarrow> Q True h | b # bs \<Rightarrow> Q b (h\<lparr>script := bs\<rparr>))"
  by (simp add: wp_def next_outcome_def split: list.splits)

lemma wp_add_live [wp_simps]: "wp (add_live n) Q h = Q () (h\<lparr>live := live h + n\<rparr>)"
  by (simp add: wp_def add_live_def)

lemma wp_mono: "wp m P s \<Longrightarrow> (\<And>a s'. P a s' \<Longrightarrow> Q a s') \<Longrightarrow> wp m Q s"
  by (auto simp: wp_def split: prod.splits)

lemma wp_run_state: "wp m Q s \<longleftrightarrow> Q (fst (run_state m s)) (snd (run_state m s))"
  by (simp add: wp_def split: prod.splits)

lemma run_state_wpI:
  assumes "\<And>Q. wp m Q s = Q a s'"
  shows "run_state m s = (a, s')"
  using assms [of "\<lambda>r s1. r = a \<and> s1 = s'"] by (simp add: wp_run_state prod_eq_iff)

lemma wp_True [simp]: "wp m (\<lambda>_ _. True) s"
  by (simp add: wp_run_state)

lemma wp_xfree [wp_simps, simp]:
  "wp (xfree b) Q h = Q () (h\<lparr>live := live h + (if b then -1 else 0)\<rparr>)"
  by (simp add: xfree_def wp_add_live)

lemma wp_xmalloc_ok [simp]:
  "script h = [] \<Longrightarrow> wp xmalloc Q h = Q True (h\<lparr>live := live h + 1\<rparr>)"
  by (simp add: xmalloc_def wp_next_outcome wp_add_live)

lemma wp_xrealloc_ok [simp]:
  "script h = [] \<Longrightarrow>
   wp (xrealloc had) Q h = Q True (h\<lparr>live := live h + (if had then 0 else 1)\<rparr>)"
  by (simp add: xrealloc_def wp_next_outcome wp_add_live)

text \<open>\<open>steps n h h'\<close>: the heap went from \<open>h\<close> to \<open>h'\<close> by allocations and frees that
  changed the number of live blocks by \<open>n\<close> and touched nothing else.\<close>

definition steps :: "int \<Rightarrow> 'z heap_scheme \<Rightarrow> 'z heap_scheme \<Rightarrow> bool" where
  "steps n h h' \<longleftrightarrow>
     live h' = live h + n \<and> heap.more h' = heap.more h \<and> (script h = [] \<longrightarrow> script h' = [])"

lemma steps_refl [simp]: "steps 0 h h"
  by (simp add: steps_def)

lemma steps_trans: "steps n h h' \<Longrightarrow> steps m h' h'' \<Longrightarrow> k = n + m \<Longrightarrow> steps k h h''"
  by (simp add: steps_def)

lemma steps_live: "steps n h (h\<lparr>live := live h + m\<rparr>) \<longleftrightarrow> n = m"
  by (auto simp: steps_def)

lemma steps_live_right:
  "steps n h (h'\<lparr>live := live h' + m\<rparr>) \<longleftrightarrow> steps (n - m) h h'"
  by (auto simp: steps_def)

lemma steps_live_left:
  "steps n (h\<lparr>live := live h + m\<rparr>) h' \<longleftrightarrow> steps (n + m) h h'"
  by (auto simp: steps_def)

lemma wp_xmalloc:
  assumes "\<And>ok h'. steps (if ok then 1 else 0) h h' \<Longrightarrow> (script h = [] \<longrightarrow> ok) \<Longrightarrow> Q ok h'"
  shows "wp xmalloc Q h"
  using assms [of True] assms [of False]
  by (auto simp: xmalloc_def wp_next_outcome wp_add_live steps_def split: list.splits)

lemma wp_xrealloc:
  assumes "\<And>ok h'. steps (if ok \<and> \<not> had then 1 else 0) h h' \<Longrightarrow> (script h = [] \<longrightarrow> ok) \<Longrightarrow> Q ok h'"
  shows "wp (xrealloc had) Q h"
  using assms [of True] assms [of False]
  by (auto simp: xrealloc_def wp_next_outcome wp_add_live steps_def split: list.splits)

lemma wp_conj: "wp m P s \<Longrightarrow> wp m Q s \<Longrightarrow> wp m (\<lambda>a s'. P a s' \<and> Q a s') s"
  by (simp add: wp_run_state)

section \<open>Runs in which no allocation fails\<close>

text \<open>\<open>yields m x\<close>: with an allocator that never fails, \<open>m\<close> returns \<open>x\<close>.\<close>

named_theorems yields_rules \<open>what the operations return when no allocation fails\<close>

definition yields :: "('z heap_scheme, 'a) state \<Rightarrow> 'a \<Rightarrow> bool" where
  "yields m x \<longleftrightarrow> (\<forall>h. script h = [] \<longrightarrow> wp m (\<lambda>r h'. r = x \<and> script h' = []) h)"

lemma some_none: "(Some x = None) = False" "(Some x \<noteq> None) = True" "(None \<noteq> None) = False"
  by simp_all

lemma yieldsI: "(\<And>h. script h = [] \<Longrightarrow> wp m (\<lambda>r h'. r = x \<and> script h' = []) h) \<Longrightarrow> yields m x"
  by (simp add: yields_def)

lemma yields_bind: "yields m x \<Longrightarrow> yields (f x) y \<Longrightarrow> yields (State_Monad.bind m f) y"
  by (auto simp: yields_def wp_run_state split: prod.splits)

lemma yields_ret [yields_rules]: "yields (ret x) x"
  by (simp add: yields_def)

lemma yields_xmalloc [yields_rules]: "yields xmalloc True"
  by (simp add: yields_def)

lemma yields_xrealloc [yields_rules]: "yields (xrealloc had) True"
  by (simp add: yields_def)

lemma yields_xfree [yields_rules]: "yields (xfree b) ()"
  by (simp add: yields_def)

lemma yields_unique: "yields m x \<Longrightarrow> script h = [] \<Longrightarrow> fst (run_state m h) = x"
  by (simp add: yields_def wp_run_state)

end
