(* ===== verification/Utf8.thy ===== *)
theory Utf8
  imports Mcp_Prelude
begin

unbundle bit_operations_syntax

text \<open>
  UTF-8 validation and encoding of src/json/builtin.c: the table-driven automaton
  (\<open>k_utf8d\<close>, \<open>utf8_step\<close>, \<open>utf8_valid\<close>) and \<open>utf8_encode\<close>. A C string is a list of
  \<open>char\<close>, read as unsigned bytes through \<open>of_char\<close>. The automaton is shown to accept
  exactly the concatenations of encodings of Unicode scalar values.
\<close>

abbreviation code :: "char \<Rightarrow> nat" where
  "code c \<equiv> of_char c"

section \<open>The automaton\<close>

definition k_utf8d :: "nat list" where
  "k_utf8d = [
     0, 0, 0, 0, 0, 0, 0, 0, 0, 0, 0, 0, 0, 0, 0, 0, 0, 0, 0, 0, 0, 0, 0, 0, 0, 0, 0, 0, 0, 0, 0, 0,
     0, 0, 0, 0, 0, 0, 0, 0, 0, 0, 0, 0, 0, 0, 0, 0, 0, 0, 0, 0, 0, 0, 0, 0, 0, 0, 0, 0, 0, 0, 0, 0,
     0, 0, 0, 0, 0, 0, 0, 0, 0, 0, 0, 0, 0, 0, 0, 0, 0, 0, 0, 0, 0, 0, 0, 0, 0, 0, 0, 0, 0, 0, 0, 0,
     0, 0, 0, 0, 0, 0, 0, 0, 0, 0, 0, 0, 0, 0, 0, 0, 0, 0, 0, 0, 0, 0, 0, 0, 0, 0, 0, 0, 0, 0, 0, 0,
     1, 1, 1, 1, 1, 1, 1, 1, 1, 1, 1, 1, 1, 1, 1, 1, 9, 9, 9, 9, 9, 9, 9, 9, 9, 9, 9, 9, 9, 9, 9, 9,
     7, 7, 7, 7, 7, 7, 7, 7, 7, 7, 7, 7, 7, 7, 7, 7, 7, 7, 7, 7, 7, 7, 7, 7, 7, 7, 7, 7, 7, 7, 7, 7,
     8, 8, 2, 2, 2, 2, 2, 2, 2, 2, 2, 2, 2, 2, 2, 2, 2, 2, 2, 2, 2, 2, 2, 2, 2, 2, 2, 2, 2, 2, 2, 2,
     10, 3, 3, 3, 3, 3, 3, 3, 3, 3, 3, 3, 3, 4, 3, 3, 11, 6, 6, 6, 5, 8, 8, 8, 8, 8, 8, 8, 8, 8, 8, 8,
     0, 1, 2, 3, 5, 8, 7, 1, 1, 1, 4, 6, 1, 1, 1, 1, 1, 1, 1, 1, 1, 1, 1, 1, 1, 1, 1, 1, 1, 1, 1, 1,
     1, 0, 1, 1, 1, 1, 1, 0, 1, 0, 1, 1, 1, 1, 1, 1, 1, 2, 1, 1, 1, 1, 1, 2, 1, 2, 1, 1, 1, 1, 1, 1,
     1, 1, 1, 1, 1, 1, 1, 2, 1, 1, 1, 1, 1, 1, 1, 1, 1, 2, 1, 1, 1, 1, 1, 1, 1, 2, 1, 1, 1, 1, 1, 1,
     1, 1, 1, 1, 1, 1, 1, 3, 1, 3, 1, 1, 1, 1, 1, 1, 1, 3, 1, 1, 1, 1, 1, 3, 1, 3, 1, 1, 1, 1, 1, 1,
     1, 3, 1, 1, 1, 1, 1, 1, 1, 1, 1, 1, 1, 1, 1, 1]"

definition utf8_step :: "nat \<Rightarrow> nat \<Rightarrow> nat" where
  "utf8_step state byte = (let type = k_utf8d ! byte in k_utf8d ! (256 + state * 16 + type))"

fun utf8_loop :: "nat \<Rightarrow> string \<Rightarrow> bool" where
  "utf8_loop state [] = (state = 0)"
| "utf8_loop state (c # cs) =
     (let state' = utf8_step state (code c)
      in if state' = 1 then False else utf8_loop state' cs)"

definition utf8_valid :: "string \<Rightarrow> bool" where
  "utf8_valid s = utf8_loop 0 s"

definition utf8_encode :: "nat \<Rightarrow> string" where
  "utf8_encode cp =
     (if cp < 0x80 then [char_of cp]
      else if cp < 0x800 then
        [char_of (0xC0 OR drop_bit 6 cp), char_of (0x80 OR (cp AND 0x3F))]
      else if cp < 0x10000 then
        [char_of (0xE0 OR drop_bit 12 cp), char_of (0x80 OR (drop_bit 6 cp AND 0x3F)),
         char_of (0x80 OR (cp AND 0x3F))]
      else
        [char_of (0xF0 OR drop_bit 18 cp), char_of (0x80 OR (drop_bit 12 cp AND 0x3F)),
         char_of (0x80 OR (drop_bit 6 cp AND 0x3F)), char_of (0x80 OR (cp AND 0x3F))])"

section \<open>Unicode scalar values\<close>

definition scalar :: "nat \<Rightarrow> bool" where
  "scalar cp \<longleftrightarrow> cp < 0x110000 \<and> \<not> (0xD800 \<le> cp \<and> cp \<le> 0xDFFF)"

section \<open>The table, as byte classes and transitions\<close>

definition utf8_class :: "nat \<Rightarrow> nat" where
  "utf8_class b =
     (if b < 0x80 then 0 else if b < 0x90 then 1 else if b < 0xA0 then 9
      else if b < 0xC0 then 7 else if b < 0xC2 then 8 else if b < 0xE0 then 2
      else if b = 0xE0 then 10 else if b = 0xED then 4 else if b < 0xF0 then 3
      else if b = 0xF0 then 11 else if b < 0xF4 then 6 else if b = 0xF4 then 5 else 8)"

definition utf8_trans :: "nat \<Rightarrow> nat \<Rightarrow> nat" where
  "utf8_trans s t =
     (if s = 0 then
        (if t = 0 then 0 else if t = 2 then 2 else if t = 3 then 3 else if t = 4 then 5
         else if t = 5 then 8 else if t = 6 then 7 else if t = 10 then 4
         else if t = 11 then 6 else 1)
      else if s = 2 then (if t = 1 \<or> t = 7 \<or> t = 9 then 0 else 1)
      else if s = 3 then (if t = 1 \<or> t = 7 \<or> t = 9 then 2 else 1)
      else if s = 4 then (if t = 7 then 2 else 1)
      else if s = 5 then (if t = 1 \<or> t = 9 then 2 else 1)
      else if s = 6 then (if t = 7 \<or> t = 9 then 3 else 1)
      else if s = 7 then (if t = 1 \<or> t = 7 \<or> t = 9 then 3 else 1)
      else if s = 8 then (if t = 1 then 3 else 1)
      else 1)"

lemma k_utf8d_split:
  "k_utf8d = map utf8_class [0..<256] @
     concat (map (\<lambda>s. map (utf8_trans s) [0..<16]) [0..<9])"
  by code_simp

lemma utf8_step_eq:
  assumes "state < 9" and "byte < 256"
  shows "utf8_step state byte = utf8_trans state (utf8_class byte)"
proof -
  have cls: "k_utf8d ! byte = utf8_class byte"
    using assms(2) by (simp add: k_utf8d_split nth_append)
  have "utf8_class byte < 16" by (simp add: utf8_class_def)
  with assms(1) have "k_utf8d ! (256 + state * 16 + utf8_class byte) =
      utf8_trans state (utf8_class byte)"
    unfolding k_utf8d_split by (simp add: nth_append concat_rows_nth add.assoc)
  then show ?thesis by (simp add: utf8_step_def cls)
qed

lemma utf8_trans_bound: "utf8_trans s t < 9"
  by (simp add: utf8_trans_def)

lemma code_less [simp]: "code c < 256"
  by (metis of_char_mod_256 mod_less_divisor zero_less_numeral)

lemma utf8_loop_Cons:
  assumes "state < 9"
  shows "utf8_loop state (c # cs) \<longleftrightarrow>
    utf8_trans state (utf8_class (code c)) \<noteq> 1 \<and>
    utf8_loop (utf8_trans state (utf8_class (code c))) cs"
  using assms by (simp add: utf8_step_eq Let_def)

declare utf8_loop.simps(2) [simp del]

section \<open>Encodings are accepted\<close>

lemma and_3F: "(n::nat) AND 0x3F = n mod 64"
  using take_bit_eq_mask [of 6 n] by (simp add: take_bit_eq_mod mask_eq_exp_minus_1)

lemma or_lead:
  shows or_C0: "n < 32 \<Longrightarrow> (0xC0::nat) OR n = 0xC0 + n"
    and or_E0: "n < 16 \<Longrightarrow> (0xE0::nat) OR n = 0xE0 + n"
    and or_F0: "n < 8 \<Longrightarrow> (0xF0::nat) OR n = 0xF0 + n"
    and or_80: "n < 64 \<Longrightarrow> (0x80::nat) OR n = 0x80 + n"
proof -
  have low: "m OR n = m + n" if "n < 2 ^ k" "m AND mask k = 0" for m n k :: nat
  proof -
    have "n = n AND mask k" using that(1) by (simp add: take_bit_nat_eq_self flip: take_bit_eq_mask)
    then have "m AND n = (m AND mask k) AND n" by (metis and.assoc and.commute)
    with that(2) show ?thesis by (simp add: disjunctive_add_eq_or)
  qed
  show "n < 32 \<Longrightarrow> (0xC0::nat) OR n = 0xC0 + n"
    using low [of n 5 192] by (simp add: mask_eq_exp_minus_1)
  show "n < 16 \<Longrightarrow> (0xE0::nat) OR n = 0xE0 + n"
    using low [of n 4 224] by (simp add: mask_eq_exp_minus_1)
  show "n < 8 \<Longrightarrow> (0xF0::nat) OR n = 0xF0 + n"
    using low [of n 3 240] by (simp add: mask_eq_exp_minus_1)
  show "n < 64 \<Longrightarrow> (0x80::nat) OR n = 0x80 + n"
    using low [of n 6 128] by (simp add: mask_eq_exp_minus_1)
qed

lemma utf8_encode_arith:
  assumes "cp < 0x110000"
  shows "utf8_encode cp =
     (if cp < 0x80 then [char_of cp]
      else if cp < 0x800 then [char_of (0xC0 + cp div 64), char_of (0x80 + cp mod 64)]
      else if cp < 0x10000 then
        [char_of (0xE0 + cp div 4096), char_of (0x80 + cp div 64 mod 64), char_of (0x80 + cp mod 64)]
      else [char_of (0xF0 + cp div 262144), char_of (0x80 + cp div 4096 mod 64),
         char_of (0x80 + cp div 64 mod 64), char_of (0x80 + cp mod 64)])"
proof -
  have "cp < 0x800 \<Longrightarrow> cp div 64 < 32" "cp < 0x10000 \<Longrightarrow> cp div 4096 < 16" "cp div 262144 < 8"
    using assms by linarith+
  then show ?thesis
    by (simp add: utf8_encode_def and_3F drop_bit_eq_div or_C0 or_E0 or_F0 or_80)
qed

lemma utf8_class_cont: "n < 64 \<Longrightarrow> utf8_class (128 + n) = (if n < 16 then 1 else if n < 32 then 9 else 7)"
  by (simp add: utf8_class_def)

lemma utf8_class_lead2: "2 \<le> n \<Longrightarrow> n < 32 \<Longrightarrow> utf8_class (192 + n) = 2"
  by (simp add: utf8_class_def)

lemma utf8_class_lead3:
  "n < 16 \<Longrightarrow> utf8_class (224 + n) = (if n = 0 then 10 else if n = 13 then 4 else 3)"
  by (simp add: utf8_class_def)

lemma utf8_class_lead4:
  "n < 5 \<Longrightarrow> utf8_class (240 + n) = (if n = 0 then 11 else if n = 4 then 5 else 6)"
  by (simp add: utf8_class_def)

lemma utf8_trans_lead3:
  "n < 16 \<Longrightarrow> utf8_trans 0 (utf8_class (224 + n)) = (if n = 0 then 4 else if n = 13 then 5 else 3)"
  by (simp add: utf8_class_lead3 utf8_trans_def)

lemma utf8_trans_lead4:
  "n < 5 \<Longrightarrow> utf8_trans 0 (utf8_class (240 + n)) = (if n = 0 then 6 else if n = 4 then 8 else 7)"
  by (simp add: utf8_class_lead4 utf8_trans_def)

lemma utf8_trans_lead2: "2 \<le> n \<Longrightarrow> n < 32 \<Longrightarrow> utf8_trans 0 (utf8_class (192 + n)) = 2"
  by (simp add: utf8_class_lead2 utf8_trans_def)

lemma utf8_trans_cont:
  assumes "n < 64"
  shows "utf8_trans 2 (utf8_class (128 + n)) = 0"
    and "utf8_trans 3 (utf8_class (128 + n)) = 2"
    and "32 \<le> n \<Longrightarrow> utf8_trans 4 (utf8_class (128 + n)) = 2"
    and "n < 32 \<Longrightarrow> utf8_trans 5 (utf8_class (128 + n)) = 2"
    and "16 \<le> n \<Longrightarrow> utf8_trans 6 (utf8_class (128 + n)) = 3"
    and "utf8_trans 7 (utf8_class (128 + n)) = 3"
    and "n < 16 \<Longrightarrow> utf8_trans 8 (utf8_class (128 + n)) = 3"
  using assms by (simp_all add: utf8_class_cont utf8_trans_def)

lemma utf8_trans_edge:
  "utf8_trans 0 (utf8_class 224) = 4" "utf8_trans 0 (utf8_class 237) = 5"
  "utf8_trans 0 (utf8_class 240) = 6" "utf8_trans 0 (utf8_class 244) = 8"
  by (simp_all add: utf8_class_def utf8_trans_def)

lemmas utf8_run_simps = utf8_loop_Cons utf8_trans_edge utf8_trans_lead2 utf8_trans_lead3 utf8_trans_lead4
  utf8_trans_cont

lemma utf8_loop_encode:
  assumes "scalar cp"
  shows "utf8_loop 0 (utf8_encode cp @ rest) = utf8_loop 0 rest"
proof -
  have lt: "cp < 0x110000" using assms by (simp add: scalar_def)
  consider "cp < 0x80" | "0x80 \<le> cp" "cp < 0x800" | "0x800 \<le> cp" "cp < 0x10000" | "0x10000 \<le> cp"
    by linarith
  then show ?thesis
  proof cases
    case 1
    then show ?thesis
      by (simp add: utf8_encode_arith utf8_loop_Cons utf8_class_def utf8_trans_def)
  next
    case 2
    then have "2 \<le> cp div 64" "cp div 64 < 32" by linarith+
    with 2 show ?thesis by (simp add: utf8_encode_arith utf8_run_simps)
  next
    case 3
    define a b where "a = cp div 4096" and "b = cp div 64 mod 64"
    have "cp div 64 = a * 64 + b"
      unfolding a_def b_def using div_mult2_eq [of cp 64 64] by simp
    moreover have "b < 64" by (simp add: b_def)
    ultimately have ab: "a < 16" "b < 64" "a = 0 \<Longrightarrow> 32 \<le> b" "a = 13 \<Longrightarrow> b < 32"
      using 3 assms unfolding scalar_def by linarith+
    from 3 have "utf8_encode cp = [char_of (224 + a), char_of (128 + b), char_of (128 + cp mod 64)]"
      by (simp add: utf8_encode_arith a_def b_def)
    with ab show ?thesis
      by (cases "a = 0"; cases "a = 13") (simp_all add: utf8_run_simps)
  next
    case 4
    define a b c where "a = cp div 262144" and "b = cp div 4096 mod 64" and "c = cp div 64 mod 64"
    have "cp div 4096 = a * 64 + b"
      unfolding a_def b_def using div_mult2_eq [of cp 4096 64] by simp
    moreover have "b < 64" "c < 64" by (simp_all add: b_def c_def)
    ultimately have ab: "a < 5" "b < 64" "c < 64" "a = 0 \<Longrightarrow> 16 \<le> b" "a = 4 \<Longrightarrow> b < 16"
      using 4 lt by linarith+
    from 4 lt have "utf8_encode cp = [char_of (240 + a), char_of (128 + b), char_of (128 + c),
        char_of (128 + cp mod 64)]"
      by (simp add: utf8_encode_arith a_def b_def c_def)
    with ab show ?thesis
      by (cases "a = 0"; cases "a = 4") (simp_all add: utf8_run_simps)
  qed
qed

lemma utf8_loop_concat:
  "\<forall>cp \<in> set cps. scalar cp \<Longrightarrow> utf8_loop 0 (concat (map utf8_encode cps))"
  by (induction cps) (simp_all add: utf8_loop_encode)

section \<open>Accepted strings are encodings\<close>

lemma utf8_first2:
  fixes a b :: nat
  assumes "2 \<le> a" "a < 32" "b < 64"
  shows "\<exists>cp. scalar cp \<and> utf8_encode cp = [char_of (192 + a), char_of (128 + b)]"
proof (intro exI conjI)
  let ?cp = "a * 64 + b"
  have "0x80 \<le> ?cp" "?cp < 0x800" using assms by linarith+
  then show "scalar ?cp" "utf8_encode ?cp = [char_of (192 + a), char_of (128 + b)]"
    using assms by (simp_all add: scalar_def utf8_encode_arith)
qed

lemma utf8_first3:
  fixes a b c :: nat
  assumes "a < 16" "b < 64" "c < 64" "a = 0 \<Longrightarrow> 32 \<le> b" "a = 13 \<Longrightarrow> b < 32"
  shows "\<exists>cp. scalar cp \<and>
    utf8_encode cp = [char_of (224 + a), char_of (128 + b), char_of (128 + c)]"
proof (intro exI conjI)
  let ?cp = "(a * 64 + b) * 64 + c"
  have "32 \<le> b \<or> 1 \<le> a" using assms(4) by (cases a) auto
  then have r: "0x800 \<le> ?cp" "?cp < 0x10000" using assms(1-3) by auto
  have "?cp div 64 = a * 64 + b" using assms by simp
  moreover have "?cp mod 64 = c" by (simp only: mod_mult_self3 mod_less assms)
  ultimately have d: "?cp div 4096 = a" "?cp div 64 mod 64 = b" "?cp mod 64 = c"
    using assms(2) div_mult2_eq [of ?cp 64 64] by simp_all
  have "a < 13 \<or> a = 13 \<and> b < 32 \<or> 14 \<le> a" using assms(5) by linarith
  with r assms(2,3) show "scalar ?cp" unfolding scalar_def by auto
  show "utf8_encode ?cp = [char_of (224 + a), char_of (128 + b), char_of (128 + c)]"
    using r d by (simp add: utf8_encode_arith)
qed

lemma utf8_first4:
  fixes a b c d :: nat
  assumes "a < 5" "b < 64" "c < 64" "d < 64" "a = 0 \<Longrightarrow> 16 \<le> b" "a = 4 \<Longrightarrow> b < 16"
  shows "\<exists>cp. scalar cp \<and> utf8_encode cp =
    [char_of (240 + a), char_of (128 + b), char_of (128 + c), char_of (128 + d)]"
proof (intro exI conjI)
  let ?cp = "((a * 64 + b) * 64 + c) * 64 + d"
  have "16 \<le> b \<or> 1 \<le> a" "a < 4 \<or> b < 16" using assms(1,5,6) by linarith+
  then have r: "0x10000 \<le> ?cp" "?cp < 0x110000" using assms(1-4) by auto
  have q: "?cp div 64 = (a * 64 + b) * 64 + c" using assms by simp
  have q0: "?cp mod 64 = d" by (simp only: mod_mult_self3 mod_less assms)
  have "?cp div 64 mod 64 = c" by (simp only: q mod_mult_self3 mod_less assms)
  with q have q2: "?cp div 4096 = a * 64 + b" "?cp div 64 mod 64 = c"
    using assms(3) div_mult2_eq [of ?cp 64 64] by simp_all
  have e: "?cp div 262144 = a" "?cp div 4096 mod 64 = b"
    using q2(1) assms(2) div_mult2_eq [of ?cp 4096 64] by simp_all
  show "scalar ?cp" using r unfolding scalar_def by linarith
  show "utf8_encode ?cp =
    [char_of (240 + a), char_of (128 + b), char_of (128 + c), char_of (128 + d)]"
    using r e q0 q2 by (simp add: utf8_encode_arith)
qed

lemma utf8_cont_byte:
  assumes "utf8_class (code c) = 1 \<or> utf8_class (code c) = 9 \<or> utf8_class (code c) = 7"
  obtains b :: nat where "b < 64" "c = char_of (128 + b)"
    "utf8_class (code c) = 1 \<longleftrightarrow> b < 16" "utf8_class (code c) = 7 \<longleftrightarrow> 32 \<le> b"
proof -
  let ?b = "code c - 128"
  have r: "128 \<le> code c" "code c < 192"
    using assms by (auto simp: utf8_class_def split: if_splits)
  then have "?b < 64" "c = char_of (128 + ?b)" by simp_all
  moreover have "utf8_class (code c) = utf8_class (128 + ?b)" using r by simp
  ultimately show thesis using that [of ?b] by (simp add: utf8_class_cont)
qed

lemma utf8_loop_state2:
  assumes "utf8_loop 2 cs"
  obtains b :: nat and rest where "b < 64" "cs = char_of (128 + b) # rest" "utf8_loop 0 rest"
proof (cases cs)
  case Nil
  with assms show thesis by simp
next
  case (Cons c rest)
  with assms have "utf8_class (code c) = 1 \<or> utf8_class (code c) = 9 \<or> utf8_class (code c) = 7"
    and "utf8_loop 0 rest"
    by (auto simp: utf8_loop_Cons utf8_trans_def split: if_splits)
  with Cons that show thesis by (metis utf8_cont_byte)
qed

lemma utf8_loop_state3:
  assumes "utf8_loop s cs" and "s \<in> {3, 4, 5}"
  obtains b c :: nat and rest where "b < 64" "c < 64" "cs = char_of (128 + b) # char_of (128 + c) # rest"
    "s = 4 \<longrightarrow> 32 \<le> b" "s = 5 \<longrightarrow> b < 32" "utf8_loop 0 rest"
proof (cases cs)
  case Nil
  with assms show thesis by auto
next
  case (Cons x rest)
  with assms have x: "utf8_class (code x) = 1 \<or> utf8_class (code x) = 9 \<or> utf8_class (code x) = 7"
    and l2: "utf8_loop 2 rest" and s45: "s = 4 \<Longrightarrow> utf8_class (code x) = 7"
      "s = 5 \<Longrightarrow> utf8_class (code x) \<noteq> 7"
    by (auto simp: utf8_loop_Cons utf8_trans_def split: if_splits)
  from x obtain b :: nat where b: "b < 64" "x = char_of (128 + b)"
    "utf8_class (code x) = 1 \<longleftrightarrow> b < 16" "utf8_class (code x) = 7 \<longleftrightarrow> 32 \<le> b"
    by (rule utf8_cont_byte)
  from l2 obtain c :: nat and rest' where c: "c < 64" "rest = char_of (128 + c) # rest'" "utf8_loop 0 rest'"
    by (rule utf8_loop_state2)
  have "s = 4 \<longrightarrow> 32 \<le> b" "s = 5 \<longrightarrow> b < 32" using s45 b by auto
  with b c Cons that show thesis by blast
qed

lemma utf8_loop_state6:
  assumes "utf8_loop s cs" and "s \<in> {6, 7, 8}"
  obtains b c d :: nat and rest where "b < 64" "c < 64" "d < 64"
    "cs = char_of (128 + b) # char_of (128 + c) # char_of (128 + d) # rest"
    "s = 6 \<longrightarrow> 16 \<le> b" "s = 8 \<longrightarrow> b < 16" "utf8_loop 0 rest"
proof (cases cs)
  case Nil
  with assms show thesis by auto
next
  case (Cons x rest)
  with assms have x: "utf8_class (code x) = 1 \<or> utf8_class (code x) = 9 \<or> utf8_class (code x) = 7"
    and l3: "utf8_loop 3 rest" and s68: "s = 6 \<Longrightarrow> utf8_class (code x) \<noteq> 1"
      "s = 8 \<Longrightarrow> utf8_class (code x) = 1"
    by (auto simp: utf8_loop_Cons utf8_trans_def split: if_splits)
  from x obtain b :: nat where b: "b < 64" "x = char_of (128 + b)"
    "utf8_class (code x) = 1 \<longleftrightarrow> b < 16" "utf8_class (code x) = 7 \<longleftrightarrow> 32 \<le> b"
    by (rule utf8_cont_byte)
  from l3 obtain c d :: nat and rest' where c: "c < 64" "d < 64"
    "rest = char_of (128 + c) # char_of (128 + d) # rest'" "utf8_loop 0 rest'"
    by (rule utf8_loop_state3) auto
  have "s = 6 \<longrightarrow> 16 \<le> b" "s = 8 \<longrightarrow> b < 16" using s68 b by auto
  with b c Cons that show thesis by blast
qed

lemma utf8_lead_byte:
  assumes "utf8_trans 0 (utf8_class (code c)) = s" and "s \<noteq> 1"
  obtains (one) "s = 0" "code c < 128"
    | (two) a :: nat where "s = 2" "2 \<le> a" "a < 32" "c = char_of (192 + a)"
    | (three) a :: nat where "s \<in> {3, 4, 5}" "a < 16" "c = char_of (224 + a)"
        "s = 4 \<longleftrightarrow> a = 0" "s = 5 \<longleftrightarrow> a = 13"
    | (four) a :: nat where "s \<in> {6, 7, 8}" "a < 5" "c = char_of (240 + a)"
        "s = 6 \<longleftrightarrow> a = 0" "s = 8 \<longleftrightarrow> a = 4"
proof -
  let ?n = "code c"
  consider "?n < 128" | "128 \<le> ?n" "?n < 194" | "194 \<le> ?n" "?n < 224" | "224 \<le> ?n" "?n < 240"
    | "240 \<le> ?n" "?n < 245" | "245 \<le> ?n" by linarith
  then show thesis
  proof cases
    case 1
    with assms one show thesis by (simp add: utf8_class_def utf8_trans_def)
  next
    case 2
    with assms show thesis by (auto simp: utf8_class_def utf8_trans_def split: if_splits)
  next
    case 3
    define a where "a = ?n - 192"
    have a: "2 \<le> a" "a < 32" "c = char_of (192 + a)" "utf8_class ?n = 2"
      using 3 by (auto simp: a_def utf8_class_def)
    show thesis by (rule two [OF _ a(1-3)]) (use assms(1) a(4) in \<open>simp add: utf8_trans_def\<close>)
  next
    case 4
    define a where "a = ?n - 224"
    have a: "a < 16" "c = char_of (224 + a)" "?n = 224 + a" using 4 by (auto simp: a_def)
    have s: "s = (if a = 0 then 4 else if a = 13 then 5 else 3)"
      using assms(1) utf8_trans_lead3 [OF a(1)] by (simp only: a(3))
    show thesis by (rule three [OF _ a(1,2)]) (simp_all add: s)
  next
    case 5
    define a where "a = ?n - 240"
    have a: "a < 5" "c = char_of (240 + a)" "?n = 240 + a" using 5 by (auto simp: a_def)
    have s: "s = (if a = 0 then 6 else if a = 4 then 8 else 7)"
      using assms(1) utf8_trans_lead4 [OF a(1)] by (simp only: a(3))
    show thesis by (rule four [OF _ a(1,2)]) (simp_all add: s)
  next
    case 6
    with assms show thesis by (auto simp: utf8_class_def utf8_trans_def split: if_splits)
  qed
qed

lemma utf8_loop_first:
  assumes "utf8_loop 0 (c # cs)"
  obtains cp rest where "scalar cp" "c # cs = utf8_encode cp @ rest" "utf8_loop 0 rest"
proof -
  define s where "s = utf8_trans 0 (utf8_class (code c))"
  have s: "s \<noteq> 1" "utf8_loop s cs" using assms by (simp_all add: utf8_loop_Cons s_def)
  from s_def [symmetric] s(1)
  show thesis
  proof (cases rule: utf8_lead_byte)
    case one
    then have "scalar (code c)" "c # cs = utf8_encode (code c) @ cs"
      by (simp_all add: scalar_def utf8_encode_def)
    with one s that show thesis by blast
  next
    case (two a)
    with s obtain b :: nat and rest where b: "b < 64" "cs = char_of (128 + b) # rest"
      "utf8_loop 0 rest" by (auto elim: utf8_loop_state2)
    from utf8_first2 [OF two(2,3) b(1)] two(4) b(2,3) that show thesis by auto
  next
    case (three a)
    from s(2) three(1) obtain b d :: nat and rest where b: "b < 64" "d < 64"
      "cs = char_of (128 + b) # char_of (128 + d) # rest"
      "s = 4 \<longrightarrow> 32 \<le> b" "s = 5 \<longrightarrow> b < 32" "utf8_loop 0 rest"
      by (rule utf8_loop_state3)
    from three b have ab: "a = 0 \<Longrightarrow> 32 \<le> b" "a = 13 \<Longrightarrow> b < 32" by blast+
    from utf8_first3 [OF three(2) b(1,2) ab] three(3) b(3,6) that show thesis by auto
  next
    case (four a)
    from s(2) four(1) obtain b d e :: nat and rest where b: "b < 64" "d < 64" "e < 64"
      "cs = char_of (128 + b) # char_of (128 + d) # char_of (128 + e) # rest"
      "s = 6 \<longrightarrow> 16 \<le> b" "s = 8 \<longrightarrow> b < 16" "utf8_loop 0 rest"
      by (rule utf8_loop_state6)
    from four b have ab: "a = 0 \<Longrightarrow> 16 \<le> b" "a = 4 \<Longrightarrow> b < 16" by blast+
    from utf8_first4 [OF four(2) b(1-3) ab] four(3) b(4,7) that show thesis by auto
  qed
qed

lemma utf8_encode_nonempty [simp]: "utf8_encode cp \<noteq> []"
  by (simp add: utf8_encode_def)

lemma utf8_loop_decodes:
  "utf8_loop 0 s \<Longrightarrow> \<exists>cps. (\<forall>cp \<in> set cps. scalar cp) \<and> s = concat (map utf8_encode cps)"
proof (induction s rule: length_induct)
  case (1 s)
  show ?case
  proof (cases s)
    case Nil
    then show ?thesis by (intro exI [of _ "[]"]) simp
  next
    case (Cons c cs)
    with 1(2) obtain cp rest where cp: "scalar cp" "s = utf8_encode cp @ rest" "utf8_loop 0 rest"
      by (auto elim: utf8_loop_first)
    then have "length rest < length s" by simp
    with 1(1) cp(3) obtain cps where "\<forall>cp \<in> set cps. scalar cp" "rest = concat (map utf8_encode cps)"
      by blast
    with cp show ?thesis by (intro exI [of _ "cp # cps"]) simp
  qed
qed

section \<open>Concatenation and ASCII\<close>

lemma utf8_valid_append: "utf8_valid xs \<Longrightarrow> utf8_valid (xs @ ys) = utf8_valid ys"
proof -
  assume "utf8_valid xs"
  then obtain cps where "\<forall>cp \<in> set cps. scalar cp" "xs = concat (map utf8_encode cps)"
    using utf8_loop_decodes by (auto simp: utf8_valid_def)
  moreover have "\<forall>cp \<in> set cps. scalar cp \<Longrightarrow> utf8_loop 0 (concat (map utf8_encode cps) @ ys) = utf8_loop 0 ys" for cps
    by (induction cps) (simp_all add: utf8_loop_encode)
  ultimately show ?thesis by (simp add: utf8_valid_def)
qed

lemma utf8_valid_Nil [simp]: "utf8_valid []"
  by (simp add: utf8_valid_def utf8_loop.simps)

lemma utf8_valid_ascii_Cons: "code c < 0x80 \<Longrightarrow> utf8_valid (c # s) = utf8_valid s"
proof -
  assume "code c < 0x80"
  then have "utf8_encode (code c) = [c]" "scalar (code c)" by (simp_all add: utf8_encode_def scalar_def)
  then show ?thesis using utf8_loop_encode [of "code c" s] by (simp add: utf8_valid_def)
qed

lemma utf8_valid_ascii: "list_all (\<lambda>c. code c < 0x80) s \<Longrightarrow> utf8_valid s"
  by (induction s) (simp_all add: utf8_valid_ascii_Cons)

lemma utf8_encode_high: "scalar cp \<Longrightarrow> 0x80 \<le> cp \<Longrightarrow> c \<in> set (utf8_encode cp) \<Longrightarrow> 0x80 \<le> code c"
  by (auto simp: utf8_encode_arith scalar_def split: if_splits)

section \<open>Correctness of the validator\<close>

text \<open>
  C10: the table-driven validator accepts a byte string exactly when it is a concatenation of
  UTF-8 encodings of Unicode scalar values: no overlong form, no surrogate, nothing above
  U+10FFFF, no truncated sequence is let through, and every legal string is.
\<close>

theorem utf8_valid_iff:
  "utf8_valid s \<longleftrightarrow> (\<exists>cps. list_all scalar cps \<and> s = concat (map utf8_encode cps))"
proof
  assume "utf8_valid s"
  then show "\<exists>cps. list_all scalar cps \<and> s = concat (map utf8_encode cps)"
    using utf8_loop_decodes by (simp add: utf8_valid_def list_all_iff)
next
  assume "\<exists>cps. list_all scalar cps \<and> s = concat (map utf8_encode cps)"
  then show "utf8_valid s"
    using utf8_loop_concat by (auto simp: utf8_valid_def list_all_iff)
qed

end
