(* ===== verification/Double.thy ===== *)
theory Double
  imports Complex_Main Mcp_Prelude
begin

text \<open>
  The part of C's \<open>double\<close> that the library uses: IEEE 754 binary64 values, the
  correctly rounded \<open>strtod\<close> on decimal text, \<open>snprintf\<close> with \<open>%.Pg\<close>,
  conversions from and to integers, and comparisons. A finite value is a sign, a
  mantissa and a binary exponent. Everything computes on \<open>nat\<close> and \<open>int\<close>; the
  proofs read a value as a real number.
\<close>

datatype double = Finite bool nat int | Infinite bool | NaN

fun isfinite :: "double \<Rightarrow> bool" where
  "isfinite (Finite s m e) = True"
| "isfinite _ = False"

text \<open>The representable finite values: a normal number has a 53-bit mantissa, a subnormal
  one (and zero) has the least exponent.\<close>

fun canonical :: "double \<Rightarrow> bool" where
  "canonical (Finite s m e) \<longleftrightarrow>
     m < 2 ^ 53 \<and> -1074 \<le> e \<and> e \<le> 971 \<and> (2 ^ 52 \<le> m \<or> e = -1074)"
| "canonical _ = True"

section \<open>Rounding\<close>

definition round_half_even :: "nat \<Rightarrow> nat \<Rightarrow> nat" where
  "round_half_even a b =
     (let q = a div b; r = a mod b
      in if 2 * r < b \<or> (2 * r = b \<and> even q) then q else q + 1)"

text \<open>The fraction \<open>a / b\<close> scaled by \<open>c\<close> to the power \<open>-k\<close>, as a fraction.\<close>

definition scale_down :: "nat \<Rightarrow> int \<Rightarrow> nat \<Rightarrow> nat \<Rightarrow> nat \<times> nat" where
  "scale_down c k a b =
     (if 0 \<le> k then (a, b * c ^ nat k) else (a * c ^ nat (- k), b))"

text \<open>The number of digits of \<open>n\<close> in base \<open>c\<close>.\<close>

function digits_len :: "nat \<Rightarrow> nat \<Rightarrow> nat" where
  "digits_len c n = (if c < 2 \<or> n = 0 then 0 else Suc (digits_len c (n div c)))"
  by pat_completeness auto
termination
  by (relation "measure snd") auto

declare digits_len.simps [simp del]

text \<open>The floor of the logarithm of \<open>a / b\<close> to base \<open>c\<close>.\<close>

definition floor_log :: "nat \<Rightarrow> nat \<Rightarrow> nat \<Rightarrow> int" where
  "floor_log c a b =
     (let k = int (digits_len c a) - int (digits_len c b);
          (x, y) = scale_down c k a b
      in if y \<le> x then k else k - 1)"

definition round_double :: "bool \<Rightarrow> nat \<Rightarrow> nat \<Rightarrow> double" where
  "round_double s a b =
     (if a = 0 then Finite s 0 (-1074)
      else
        let e = max (-1074) (floor_log 2 a b - 52);
            (x, y) = scale_down 2 e a b;
            m = round_half_even x y;
            (m', e') = (if m = 2 ^ 53 then (2 ^ 52, e + 1) else (m, e))
        in if 971 < e' then Infinite s else Finite s m' e')"

definition double_of_int :: "int \<Rightarrow> double" where
  "double_of_int i = round_double (i < 0) (nat \<bar>i\<bar>) 1"

section \<open>Decimal text\<close>

fun digit_chars :: "nat \<Rightarrow> string" where
  "digit_chars n = (if n < 10 then [char_of (48 + n)]
     else digit_chars (n div 10) @ [char_of (48 + n mod 10)])"

declare digit_chars.simps [simp del]

definition is_digit :: "char \<Rightarrow> bool" where
  "is_digit c \<longleftrightarrow> 48 \<le> (of_char c :: nat) \<and> (of_char c :: nat) \<le> 57"

fun digits_val :: "nat \<Rightarrow> string \<Rightarrow> nat" where
  "digits_val acc [] = acc"
| "digits_val acc (c # cs) = digits_val (acc * 10 + (of_char c - 48)) cs"

definition strip_zeros :: "string \<Rightarrow> string" where
  "strip_zeros ds = rev (dropWhile (\<lambda>c. c = CHR ''0'') (rev ds))"

definition with_point :: "string \<Rightarrow> string \<Rightarrow> string" where
  "with_point ip fp = (if fp = [] then ip else ip @ CHR ''.'' # fp)"

text \<open>The \<open>P\<close> significant digits of a positive fraction and its decimal exponent, as
  \<open>%e\<close> produces them.\<close>

definition decimal_digits :: "nat \<Rightarrow> nat \<Rightarrow> nat \<Rightarrow> nat \<times> int" where
  "decimal_digits P a b =
     (let X = floor_log 10 a b;
          (x, y) = scale_down 10 (X - int P + 1) a b;
          N = round_half_even x y
      in if N = 10 ^ P then (10 ^ (P - 1), X + 1) else (N, X))"

definition exponent_chars :: "int \<Rightarrow> string" where
  "exponent_chars X =
     CHR ''e'' # (if X < 0 then CHR ''-'' else CHR ''+'') #
       (if \<bar>X\<bar> < 10 then ''0'' else []) @ digit_chars (nat \<bar>X\<bar>)"

definition fmt_g_digits :: "nat \<Rightarrow> nat \<Rightarrow> int \<Rightarrow> string" where
  "fmt_g_digits P N X =
     (let ds = digit_chars N
      in if -4 \<le> X \<and> X < int P then
           (if 0 \<le> X then with_point (take (nat X + 1) ds) (strip_zeros (drop (nat X + 1) ds))
            else with_point ''0'' (replicate (nat (- X) - 1) (CHR ''0'') @ strip_zeros ds))
         else with_point (take 1 ds) (strip_zeros (drop 1 ds)) @ exponent_chars X)"

text \<open>\<open>snprintf\<close> with the conversion \<open>%.Pg\<close>.\<close>

definition fmt_g :: "nat \<Rightarrow> double \<Rightarrow> string" where
  "fmt_g P d =
     (case d of
        Finite s m e \<Rightarrow>
          (if s then ''-'' else []) @
          (if m = 0 then ''0''
           else let (a, b) = scale_down 2 (- e) m 1;
                    (N, X) = decimal_digits P a b
                in fmt_g_digits P N X)
      | Infinite s \<Rightarrow> (if s then ''-inf'' else ''inf'')
      | NaN \<Rightarrow> ''nan'')"

text \<open>\<open>strtod\<close> on decimal text: an optional sign, digits with an optional point, an
  optional exponent. The second component is the unread rest (\<open>*endptr\<close>). The
  hexadecimal, infinity and NaN forms, and leading white space, are left out: the callers
  pass text that matches the JSON grammar.\<close>

definition take_sign :: "string \<Rightarrow> bool \<times> string" where
  "take_sign s =
     (case s of
        c # cs \<Rightarrow> if c = CHR ''-'' then (True, cs) else (False, s)
      | [] \<Rightarrow> (False, []))"

definition take_frac :: "string \<Rightarrow> string \<times> string" where
  "take_frac s =
     (case s of
        c # cs \<Rightarrow> if c = CHR ''.'' then (takeWhile is_digit cs, dropWhile is_digit cs) else ([], s)
      | [] \<Rightarrow> ([], []))"

definition take_exp :: "string \<Rightarrow> int \<times> string" where
  "take_exp s =
     (case s of
        c # cs \<Rightarrow>
          if c = CHR ''e'' \<or> c = CHR ''E'' then
            (let (xneg, t) = (case cs of
                   d # ds \<Rightarrow> if d = CHR ''-'' then (True, ds)
                            else if d = CHR ''+'' then (False, ds) else (False, cs)
                 | [] \<Rightarrow> (False, []));
                 xs = takeWhile is_digit t
             in if xs = [] then (0, s)
                else (if xneg then - int (digits_val 0 xs) else int (digits_val 0 xs),
                      dropWhile is_digit t))
          else (0, s)
      | [] \<Rightarrow> (0, []))"

definition strtod :: "string \<Rightarrow> double \<times> string" where
  "strtod s0 =
     (let (neg, s1) = take_sign s0;
          ip = takeWhile is_digit s1;
          (fp, s3) = take_frac (dropWhile is_digit s1);
          (x, s4) = take_exp s3
      in if ip = [] \<and> fp = [] then (Finite False 0 (-1074), s0)
         else let (a, b) = scale_down 10 (int (length fp) - x) (digits_val 0 (ip @ fp)) 1
              in (round_double neg a b, s4))"

section \<open>Comparison and conversion to integers\<close>

text \<open>A finite value as a multiple of the least exponent of the two operands.\<close>

definition signed_mant :: "bool \<Rightarrow> nat \<Rightarrow> int" where
  "signed_mant s m = (if s then - int m else int m)"

fun dlt :: "double \<Rightarrow> double \<Rightarrow> bool" where
  "dlt (Finite s m e) (Finite s' m' e') =
     (let k = min e e'
      in signed_mant s m * 2 ^ nat (e - k) < signed_mant s' m' * 2 ^ nat (e' - k))"
| "dlt (Infinite s) (Finite _ _ _) = s"
| "dlt (Finite _ _ _) (Infinite s) = (\<not> s)"
| "dlt (Infinite s) (Infinite s') = (s \<and> \<not> s')"
| "dlt _ _ = False"

fun deq :: "double \<Rightarrow> double \<Rightarrow> bool" where
  "deq (Finite s m e) (Finite s' m' e') =
     (let k = min e e'
      in signed_mant s m * 2 ^ nat (e - k) = signed_mant s' m' * 2 ^ nat (e' - k))"
| "deq (Infinite s) (Infinite s') = (s = s')"
| "deq _ _ = False"

text \<open>The cast to an integer type truncates towards zero; the callers cast finite values
  only.\<close>

fun double_trunc :: "double \<Rightarrow> int" where
  "double_trunc (Finite s m e) =
     (let n = (if 0 \<le> e then m * 2 ^ nat e else m div 2 ^ nat (- e))
      in signed_mant s n)"
| "double_trunc _ = 0"

section \<open>Rounding, read as real numbers\<close>

lemma scale_down_real:
  assumes "scale_down c k a b = (x, y)" and "0 < c" and "0 < b"
  shows "0 < y" and "real x / real y = real a / real b * real c powi (- k)"
proof -
  show "0 < y" using assms by (auto simp: scale_down_def split: if_splits)
  show "real x / real y = real a / real b * real c powi (- k)"
  proof (cases "0 \<le> k")
    case True
    then have "real c powi (- k) = 1 / real c ^ nat k"
      by (simp add: power_int_minus power_int_def field_simps)
    with True assms show ?thesis by (auto simp: scale_down_def)
  next
    case False
    then have "real c powi (- k) = real c ^ nat (- k)" by (simp add: power_int_def)
    with False assms show ?thesis by (auto simp: scale_down_def)
  qed
qed

lemma digits_len_bounds:
  assumes "2 \<le> c" and "0 < n"
  shows "0 < digits_len c n" and "c ^ (digits_len c n - 1) \<le> n" and "n < c ^ digits_len c n"
proof -
  have "0 < n \<Longrightarrow> 0 < digits_len c n \<and> c ^ (digits_len c n - 1) \<le> n \<and> n < c ^ digits_len c n"
    using assms(1)
  proof (induction c n rule: digits_len.induct)
    case (1 c n)
    let ?q = "n div c"
    have len: "digits_len c n = Suc (digits_len c ?q)"
      using 1 by (simp add: digits_len.simps [of c n])
    have n: "?q * c \<le> n" "n < (?q + 1) * c"
      using 1 by (simp_all add: dividend_less_div_times)
    show ?case
    proof (cases "?q = 0")
      case True
      then show ?thesis using 1 n len by (simp add: digits_len.simps [of c 0])
    next
      case False
      with 1 have IH: "0 < digits_len c ?q" "c ^ (digits_len c ?q - 1) \<le> ?q" "?q < c ^ digits_len c ?q"
        by auto
      obtain l where l: "digits_len c ?q = Suc l" using IH(1) gr0_implies_Suc by blast
      have "c ^ l * c \<le> ?q * c" using IH(2) l by (intro mult_right_mono) simp_all
      moreover have "(?q + 1) * c \<le> c ^ Suc l * c" using IH(3) l by (intro mult_right_mono) simp_all
      ultimately have "c ^ Suc l \<le> n" "n < c ^ Suc (Suc l)"
        using n by (simp_all only: power_Suc mult.commute [of c])
      then show ?thesis using len l by simp
    qed
  qed
  with assms(2) show "0 < digits_len c n" and "c ^ (digits_len c n - 1) \<le> n"
    and "n < c ^ digits_len c n" by blast+
qed

lemma floor_log_bounds:
  assumes "2 \<le> c" and "0 < a" and "0 < b"
  shows "real c powi floor_log c a b \<le> real a / real b"
    and "real a / real b < real c powi (floor_log c a b + 1)"
proof -
  define La Lb where "La = digits_len c a" and "Lb = digits_len c b"
  define k where "k = int La - int Lb"
  obtain x y where xy: "scale_down c k a b = (x, y)" by (cases "scale_down c k a b") auto
  have c: "0 < real c" "real c \<noteq> 0" using assms(1) by simp_all
  note La = digits_len_bounds [OF assms(1,2), folded La_def]
  note Lb = digits_len_bounds [OF assms(1,3), folded Lb_def]
  have powLa: "real c ^ (La - 1) \<le> real a" "real a < real c ^ La"
    using La by (metis of_nat_le_iff of_nat_power, metis of_nat_less_iff of_nat_power)
  have powLb: "real c ^ (Lb - 1) \<le> real b" "real b < real c ^ Lb"
    using Lb by (metis of_nat_le_iff of_nat_power, metis of_nat_less_iff of_nat_power)
  have "real c powi (k - 1) = real c ^ (La - 1) / real c ^ Lb"
  proof -
    have "k - 1 = int (La - 1) - int Lb" using La(1) by (simp add: k_def)
    then show ?thesis using c by (simp add: power_int_diff)
  qed
  also have "\<dots> < real a / real b"
  proof -
    have "real c ^ (La - 1) * real b < real a * real c ^ Lb"
      using powLa(1) powLb(2) assms(2) c by (intro mult_le_less_imp_less) simp_all
    then show ?thesis using assms(3) c by (simp add: divide_less_eq less_divide_eq mult.commute)
  qed
  finally have lower: "real c powi (k - 1) < real a / real b" .
  have "real a / real b < real c ^ La / real c ^ (Lb - 1)"
  proof -
    have "real a * real c ^ (Lb - 1) < real c ^ La * real b"
      using powLa(2) powLb(1) assms(3) c by (intro mult_less_le_imp_less) simp_all
    then show ?thesis using assms(3) c by (simp add: divide_less_eq less_divide_eq mult.commute)
  qed
  also have "\<dots> = real c powi (k + 1)"
  proof -
    have "k + 1 = int La - int (Lb - 1)" using Lb(1) by (simp add: k_def)
    then show ?thesis using c by (simp add: power_int_diff)
  qed
  finally have upper: "real a / real b < real c powi (k + 1)" .
  have test: "y \<le> x \<longleftrightarrow> real c powi k \<le> real a / real b"
  proof -
    note sd = scale_down_real [OF xy _ assms(3)]
    have y: "0 < y" and q: "real x / real y = real a / real b * real c powi (- k)"
      using sd assms(1) by simp_all
    have q': "real x / real y = real a / real b / real c powi k"
      unfolding q by (simp add: power_int_minus divide_inverse)
    have "y \<le> x \<longleftrightarrow> 1 \<le> real x / real y" using y by (simp add: le_divide_eq)
    also have "\<dots> \<longleftrightarrow> 1 \<le> real a / real b / real c powi k"
      by (simp only: q')
    also have "\<dots> \<longleftrightarrow> real c powi k \<le> real a / real b" using c assms(3) by (simp add: le_divide_eq mult.commute)
    finally show ?thesis .
  qed
  have fl: "floor_log c a b = (if y \<le> x then k else k - 1)"
    by (simp add: floor_log_def xy La_def Lb_def k_def flip: of_nat_diff)
       (simp add: xy [unfolded k_def La_def Lb_def])
  show "real c powi floor_log c a b \<le> real a / real b"
    using test lower by (simp add: fl)
  show "real a / real b < real c powi (floor_log c a b + 1)"
    using test upper by (simp add: fl)
qed

lemma round_half_even_near:
  assumes "0 < b"
  shows "\<bar>real (round_half_even a b) - real a / real b\<bar> \<le> 1 / 2"
proof -
  define q r where "q = a div b" and "r = a mod b"
  have a: "real a = real q * real b + real r" and r: "r < b"
    using assms by (simp_all add: q_def r_def flip: of_nat_mult of_nat_add)
  have "real a / real b = real q + real r / real b" using assms by (simp add: a add_divide_distrib)
  moreover have "2 * r < b \<Longrightarrow> real r / real b \<le> 1 / 2" "\<not> 2 * r < b \<Longrightarrow> 1 / 2 \<le> real r / real b"
     "2 * r = b \<Longrightarrow> real r / real b = 1 / 2"
    using assms by (simp_all add: field_simps)
  moreover have "0 \<le> real r / real b" "real r / real b < 1" using r assms by simp_all
  ultimately show ?thesis
    by (auto simp: round_half_even_def Let_def simp flip: q_def r_def)
qed

lemma round_half_even_unique:
  assumes "0 < b" and "\<bar>real a / real b - real m\<bar> < 1 / 2"
  shows "round_half_even a b = m"
proof -
  have "\<bar>real (round_half_even a b) - real m\<bar> < 1"
    using round_half_even_near [OF assms(1), of a] assms(2) by linarith
  then show ?thesis by linarith
qed

lemma powi_less_cancel:
  "1 < (x::real) \<Longrightarrow> x powi i < x powi j \<Longrightarrow> i < j"
  by (meson linorder_not_less order_less_imp_le power_int_increasing)

lemma round_double_nearest:
  assumes can: "canonical (Finite s m e)" and m: "0 < m" and ab: "0 < a" "0 < b"
    and near: "\<bar>real a / real b - real m * 2 powi e\<bar> < 2 powi e / 2"
    and below: "m = 2 ^ 52 \<Longrightarrow> real m * 2 powi e - 2 powi e / 4 < real a / real b"
  shows "round_double s a b = Finite s m e"
proof -
  define v t where "v = real a / real b" and "t = (2::real) powi e"
  have t: "0 < t" by (simp add: t_def)
  define fl where "fl = floor_log 2 a b"
  have fl: "2 powi fl \<le> v" "v < 2 powi (fl + 1)"
    using floor_log_bounds [of 2 a b] ab by (simp_all add: fl_def v_def)
  have mm: "real m \<le> 2 ^ 53 - 1"
  proof -
    have "m + 1 \<le> 2 ^ 53" using can by simp
    then have "real (m + 1) \<le> real (2 ^ 53)" by (simp only: of_nat_le_iff)
    then show ?thesis by simp
  qed
  have up: "v < 2 powi (e + 53)"
  proof -
    have "v < real m * t + t / 2" using near unfolding v_def t_def by linarith
    also have "\<dots> \<le> (2 ^ 53 - 1) * t + t / 2" using mm t by simp
    also have "\<dots> \<le> 2 ^ 53 * t" using t by (simp add: field_simps)
    also have "\<dots> = 2 powi (e + 53)" by (simp add: t_def power_int_add)
    finally show ?thesis .
  qed
  have "2 powi fl < (2::real) powi (e + 53)" using fl(1) up by linarith
  then have fl_up: "fl - 52 \<le> e" using powi_less_cancel [of 2 fl "e + 53"] by simp
  show ?thesis
  proof (cases "e = -1074 \<or> 2 ^ 52 * t \<le> v")
    case True
    have "max (-1074) (fl - 52) = e"
    proof (cases "e = -1074")
      case False
      with True have "2 powi (e + 52) \<le> v" by (simp add: t_def power_int_add mult.commute)
      then have "(2::real) powi (e + 52) < 2 powi (fl + 1)" using fl(2) by linarith
      then have "e + 52 < fl + 1" by (rule powi_less_cancel [rotated]) simp
      with fl_up can show ?thesis by simp
    qed (use fl_up in simp)
    note ex = this [unfolded fl_def]
    obtain x y where xy: "scale_down 2 e a b = (x, y)" by (cases "scale_down 2 e a b") auto
    have y: "0 < y" and q: "real x / real y = v * 2 powi (- e)"
      using scale_down_real [OF xy _ ab(2)] by (simp_all add: v_def)
    have "real x / real y - real m = (v - real m * t) / t"
      using t by (simp add: q t_def power_int_minus field_simps)
    moreover have "\<bar>v - real m * t\<bar> / t < 1 / 2"
      using near t by (simp add: v_def t_def divide_less_eq)
    ultimately have "\<bar>real x / real y - real m\<bar> < 1 / 2" using t by (simp add: abs_divide)
    with y have "round_half_even x y = m" by (rule round_half_even_unique)
    with ab can show ?thesis by (simp add: round_double_def ex xy)
  next
    case False
    with can have e: "-1074 < e" and vlt: "v < 2 ^ 52 * t" and m52: "2 ^ 52 \<le> m" by auto
    have "real m * t - t / 2 < 2 ^ 52 * t" using near vlt unfolding v_def t_def by linarith
    then have "(real m - 1 / 2) * t < 2 ^ 52 * t" by (simp add: left_diff_distrib)
    then have "real m - 1 / 2 < 2 ^ 52" using t by (simp only: mult_less_cancel_right_pos)
    moreover have "real (2 ^ 52) \<le> real m" using m52 by (simp only: of_nat_le_iff)
    ultimately have meq: "m = 2 ^ 52" by simp
    have vgt: "2 ^ 52 * t - t / 4 < v" using below [OF meq] by (simp add: meq v_def t_def)
    have "2 powi (e + 51) < v"
    proof -
      have "2 powi (e + 51) = 2 ^ 51 * t" by (simp add: t_def power_int_add)
      also have "\<dots> < 2 ^ 52 * t - t / 4" using t by simp
      finally show ?thesis using vgt by linarith
    qed
    then have "(2::real) powi (e + 51) < 2 powi (fl + 1)" using fl(2) by linarith
    then have "e + 51 < fl + 1" by (rule powi_less_cancel [rotated]) simp
    moreover have "(2::real) powi fl < 2 powi (e + 52)"
      using fl(1) vlt by (simp add: t_def power_int_add mult.commute)
    then have "fl < e + 52" by (rule powi_less_cancel [rotated]) simp
    ultimately have ex: "max (-1074) (floor_log 2 a b - 52) = e - 1" using e by (simp add: fl_def)
    obtain x y where xy: "scale_down 2 (e - 1) a b = (x, y)"
      by (cases "scale_down 2 (e - 1) a b") auto
    have y: "0 < y" and q: "real x / real y = v * 2 powi (- (e - 1))"
      using scale_down_real [OF xy _ ab(2)] by (simp_all add: v_def)
    have "real x / real y = 2 * (v / t)"
      unfolding q by (simp add: t_def power_int_minus power_int_diff field_simps)
    moreover have "v / t < 2 ^ 52" "2 ^ 52 - 1 / 4 < v / t"
      using vlt vgt t by (simp_all add: divide_less_eq less_divide_eq left_diff_distrib)
    moreover have "(2::real) ^ 53 = 2 * 2 ^ 52" by simp
    ultimately have "real x / real y < 2 ^ 53" "2 ^ 53 - 1 / 2 < real x / real y" by linarith+
    then have "\<bar>real x / real y - 2 ^ 53\<bar> < 1 / 2" by linarith
    then have "\<bar>real x / real y - real (2 ^ 53)\<bar> < 1 / 2" by simp
    with y have "round_half_even x y = 2 ^ 53" by (rule round_half_even_unique)
    with ab can e meq show ?thesis by (simp add: round_double_def ex xy)
  qed
qed

section \<open>Decimal digits\<close>

lemma decimal_digits_spec:
  assumes "0 < P" and "0 < a" and "0 < b" and "decimal_digits P a b = (N, X)"
  shows "10 ^ (P - 1) \<le> N" and "N < 10 ^ P"
    and "\<bar>real N * 10 powi (X - int P + 1) - real a / real b\<bar> \<le>
           10 powi (floor_log 10 a b - int P + 1) / 2"
proof -
  define F v where "F = floor_log 10 a b" and "v = real a / real b"
  define k where "k = F - int P + 1"
  define t where "t = (10::real) powi k"
  have t: "0 < t" by (simp add: t_def)
  obtain x y where xy: "scale_down 10 k a b = (x, y)" by (cases "scale_down 10 k a b") auto
  define M where "M = round_half_even x y"
  have y: "0 < y" and q: "real x / real y = v / t"
    using scale_down_real [OF xy _ assms(3)] by (simp_all add: v_def t_def power_int_minus divide_inverse)
  have near: "\<bar>real M - v / t\<bar> \<le> 1 / 2"
    using round_half_even_near [OF y, of x] by (simp add: M_def q)
  have F: "10 powi F \<le> v" "v < 10 powi (F + 1)"
    using floor_log_bounds [of 10 a b] assms(2,3) by (simp_all add: F_def v_def)
  have F1: "F = k + int (P - 1)" and F2: "F + 1 = k + int P"
    using assms(1) by (simp_all add: k_def)
  have "10 powi F = t * 10 ^ (P - 1)"
    unfolding F1 t_def by (simp add: power_int_add)
  moreover have "10 powi (F + 1) = t * 10 ^ P"
    unfolding F2 t_def by (simp add: power_int_add)
  ultimately have r: "10 ^ (P - 1) \<le> v / t" "v / t < 10 ^ P"
    using F t by (simp_all add: le_divide_eq divide_less_eq mult.commute)
  have M1: "10 ^ (P - 1) \<le> M"
  proof -
    have "(10::real) ^ (P - 1) - 1 / 2 \<le> real M" using near r by linarith
    then have "real (10 ^ (P - 1)) - 1 / 2 \<le> real M" by simp
    then show ?thesis by linarith
  qed
  have M2: "M \<le> 10 ^ P"
  proof -
    have "real M < (10::real) ^ P + 1" using near r by linarith
    then have "real M < real (10 ^ P) + 1" by simp
    then show ?thesis by linarith
  qed
  have err: "\<bar>real M * t - v\<bar> \<le> t / 2"
  proof -
    have "real M * t - v = (real M - v / t) * t" using t by (simp add: left_diff_distrib)
    then have "\<bar>real M * t - v\<bar> = \<bar>real M - v / t\<bar> * t" using t by (simp add: abs_mult)
    then show ?thesis using near t by (simp add: mult_right_mono)
  qed
  have NX: "(N, X) = (if M = 10 ^ P then (10 ^ (P - 1), F + 1) else (M, F))"
    using assms(4) xy by (simp add: decimal_digits_def F_def k_def M_def Let_def split: if_splits)
  have val: "real N * 10 powi (X - int P + 1) = real M * t"
  proof (cases "M = 10 ^ P")
    case True
    then have "X - int P + 1 = k + 1" "N = 10 ^ (P - 1)" using NX by (simp_all add: k_def)
    moreover have "(10::real) ^ P = 10 ^ (P - 1) * 10" using assms(1) by (simp flip: power_Suc2)
    ultimately show ?thesis using True by (simp add: t_def power_int_add)
  qed (use NX in \<open>simp add: t_def k_def\<close>)
  show "10 ^ (P - 1) \<le> N" using NX M1 by (auto split: if_splits)
  show "N < 10 ^ P" using NX M2 assms(1) by (auto split: if_splits)
  show "\<bar>real N * 10 powi (X - int P + 1) - real a / real b\<bar> \<le>
      10 powi (floor_log 10 a b - int P + 1) / 2"
    using err by (simp add: val t_def k_def v_def F_def)
qed

lemma is_digit_char: "(n::nat) < 10 \<Longrightarrow> is_digit (char_of (48 + n))"
  by (simp add: is_digit_def)

lemma digit_chars_digits: "list_all is_digit (digit_chars n)"
proof (induction n rule: digit_chars.induct)
  case (1 n)
  then show ?case by (subst digit_chars.simps) (simp add: is_digit_char)
qed

lemma digit_chars_nonempty [simp]: "digit_chars n \<noteq> []"
  by (subst digit_chars.simps) simp

lemma digits_val_append: "digits_val acc (xs @ ys) = digits_val (digits_val acc xs) ys"
  by (induction xs arbitrary: acc) simp_all

lemma digits_val_acc: "digits_val acc xs = acc * 10 ^ length xs + digits_val 0 xs"
proof (induction xs arbitrary: acc)
  case (Cons x xs)
  show ?case
    using Cons [of "acc * 10 + (of_char x - 48)"] Cons [of "of_char x - 48"]
    by (simp add: algebra_simps)
qed simp

lemma digits_val_digit_chars: "digits_val 0 (digit_chars n) = n"
proof (induction n rule: digit_chars.induct)
  case (1 n)
  then show ?case
    by (subst digit_chars.simps) (simp add: digits_val_append)
qed

lemma digit_chars_hd: "0 < n \<Longrightarrow> hd (digit_chars n) \<noteq> CHR ''0''"
proof (induction n rule: digit_chars.induct)
  case (1 n)
  show ?case
  proof (cases "n < 10")
    case True
    then have "(of_char (char_of (48 + n) :: char) :: nat) \<noteq> of_char (CHR ''0'')" using 1 by simp
    then show ?thesis using True by (subst digit_chars.simps) (auto simp del: of_char_of)
  next
    case False
    then have "hd (digit_chars (n div 10)) \<noteq> CHR ''0''" using 1 by simp
    then show ?thesis using False by (subst digit_chars.simps) simp
  qed
qed

lemma digit_chars_length: "10 ^ k \<le> n \<Longrightarrow> n < 10 ^ Suc k \<Longrightarrow> length (digit_chars n) = Suc k"
proof (induction k arbitrary: n)
  case 0
  then show ?case by (subst digit_chars.simps) simp
next
  case (Suc k)
  then have "10 ^ k \<le> n div 10" "n div 10 < 10 ^ Suc k" by simp_all
  then have "length (digit_chars (n div 10)) = Suc k" by (rule Suc.IH)
  moreover have "(10::nat) ^ 1 \<le> 10 ^ Suc k" by (rule power_increasing) simp_all
  from this Suc.prems(1) have "10 ^ 1 \<le> n" by (rule le_trans)
  then have "\<not> n < 10" by simp
  ultimately show ?case by (subst digit_chars.simps) simp
qed

section \<open>The shape of printed numbers\<close>

text \<open>Printed and parsed text have the same parts: a sign, an integer part, a fraction, an
  exponent.\<close>

definition exp_text :: "int option \<Rightarrow> string" where
  "exp_text xo = (case xo of None \<Rightarrow> [] | Some X \<Rightarrow> exponent_chars X)"

definition exp_val :: "int option \<Rightarrow> int" where
  "exp_val xo = (case xo of None \<Rightarrow> 0 | Some X \<Rightarrow> X)"

definition num_text :: "bool \<Rightarrow> string \<Rightarrow> string \<Rightarrow> int option \<Rightarrow> string" where
  "num_text neg ip fp xo = (if neg then ''-'' else []) @ with_point ip fp @ exp_text xo"

definition num_shape :: "string \<Rightarrow> string \<Rightarrow> bool" where
  "num_shape ip fp \<longleftrightarrow> list_all is_digit ip \<and> list_all is_digit fp \<and> ip \<noteq> [] \<and>
     (ip = ''0'' \<or> hd ip \<noteq> CHR ''0'')"

definition num_real :: "string \<Rightarrow> string \<Rightarrow> int option \<Rightarrow> real" where
  "num_real ip fp xo = real (digits_val 0 (ip @ fp)) * 10 powi (exp_val xo - int (length fp))"

lemma not_digit_simps [simp]:
  "\<not> is_digit (CHR ''.'')" "\<not> is_digit (CHR ''e'')" "\<not> is_digit (CHR ''-'')"
  "\<not> is_digit (CHR ''+'')" "\<not> is_digit (CHR ''E'')" "is_digit (CHR ''0'')"
  by (simp_all add: is_digit_def)

lemma takeWhile_digits:
  "list_all is_digit ds \<Longrightarrow> rest = [] \<or> \<not> is_digit (hd rest) \<Longrightarrow>
     takeWhile is_digit (ds @ rest) = ds \<and> dropWhile is_digit (ds @ rest) = rest"
  by (induction ds) (cases rest; auto)+

lemma exponent_chars_eq:
  obtains xs where "exponent_chars X = CHR ''e'' # (if X < 0 then CHR ''-'' else CHR ''+'') # xs"
    and "list_all is_digit xs" and "xs \<noteq> []" and "digits_val 0 xs = nat \<bar>X\<bar>"
proof
  let ?xs = "(if \<bar>X\<bar> < 10 then ''0'' else []) @ digit_chars (nat \<bar>X\<bar>)"
  show "exponent_chars X = CHR ''e'' # (if X < 0 then CHR ''-'' else CHR ''+'') # ?xs"
    by (simp add: exponent_chars_def)
  show "list_all is_digit ?xs" by (simp add: digit_chars_digits)
  show "?xs \<noteq> []" by simp
  show "digits_val 0 ?xs = nat \<bar>X\<bar>" by (simp add: digits_val_digit_chars)
qed

lemma take_exp_text: "take_exp (exp_text xo) = (exp_val xo, [])"
proof (cases xo)
  case (Some X)
  obtain xs where xs: "exponent_chars X = CHR ''e'' # (if X < 0 then CHR ''-'' else CHR ''+'') # xs"
    "list_all is_digit xs" "xs \<noteq> []" "digits_val 0 xs = nat \<bar>X\<bar>" by (rule exponent_chars_eq)
  have tw: "takeWhile is_digit xs = xs" "dropWhile is_digit xs = []"
    using takeWhile_digits [OF xs(2), of "[]"] by simp_all
  show ?thesis using xs Some by (simp add: take_exp_def exp_text_def exp_val_def tw Let_def)
qed (simp add: take_exp_def exp_text_def exp_val_def)

lemma exp_text_hd: "exp_text xo = [] \<or> \<not> is_digit (hd (exp_text xo)) \<and> hd (exp_text xo) \<noteq> CHR ''.''"
  by (cases xo) (simp_all add: exp_text_def exponent_chars_def)

lemma strtod_num_text:
  assumes "num_shape ip fp"
  obtains a b where "strtod (num_text neg ip fp xo) = (round_double neg a b, [])"
    and "0 < b" and "real a / real b = num_real ip fp xo"
proof -
  have ip: "list_all is_digit ip" "ip \<noteq> []" and fp: "list_all is_digit fp"
    using assms by (simp_all add: num_shape_def)
  define rest where "rest = (if fp = [] then exp_text xo else CHR ''.'' # fp @ exp_text xo)"
  have body: "num_text neg ip fp xo = (if neg then ''-'' else []) @ ip @ rest"
    by (simp add: num_text_def with_point_def rest_def)
  have rest_hd: "rest = [] \<or> \<not> is_digit (hd rest)" using exp_text_hd by (auto simp: rest_def)
  have sign: "take_sign (num_text neg ip fp xo) = (neg, ip @ rest)"
    unfolding body using ip by (cases ip) (auto simp: take_sign_def)
  have frac: "take_frac rest = (fp, exp_text xo)"
    using takeWhile_digits [OF fp, of "exp_text xo"] exp_text_hd [of xo]
    by (auto simp: take_frac_def rest_def split: list.splits)
  obtain a b where ab: "scale_down 10 (int (length fp) - exp_val xo) (digits_val 0 (ip @ fp)) 1 = (a, b)"
    by (metis surj_pair)
  have "strtod (num_text neg ip fp xo) = (round_double neg a b, [])"
    using takeWhile_digits [OF ip(1) rest_hd] ip(2) ab
    by (simp add: strtod_def sign frac take_exp_text Let_def del: takeWhile_eq_all_conv)
  moreover have "0 < b" "real a / real b = num_real ip fp xo"
    using scale_down_real [OF ab] by (simp_all add: num_real_def)
  ultimately show thesis by (rule that)
qed

lemma strip_zeros_eq:
  obtains k where "fs = strip_zeros fs @ replicate k (CHR ''0'')"
proof -
  have "fs = strip_zeros fs @ rev (takeWhile (\<lambda>c. c = CHR ''0'') (rev fs))"
    by (simp add: strip_zeros_def flip: rev_append)
  moreover have "takeWhile (\<lambda>c. c = CHR ''0'') (rev fs) =
      replicate (length (takeWhile (\<lambda>c. c = CHR ''0'') (rev fs))) (CHR ''0'')"
    by (rule replicate_eqI) (auto dest: set_takeWhileD)
  ultimately show thesis using that by (metis rev_replicate)
qed

lemma digits_val_zeros: "digits_val acc (replicate k (CHR ''0'')) = acc * 10 ^ k"
  by (induction k arbitrary: acc) simp_all

lemma strip_zeros_val:
  obtains k where "length fs = length (strip_zeros fs) + k"
    and "digits_val 0 (ds @ fs) = digits_val 0 (ds @ strip_zeros fs) * 10 ^ k"
proof -
  obtain k where k: "fs = strip_zeros fs @ replicate k (CHR ''0'')" by (rule strip_zeros_eq)
  have "length fs = length (strip_zeros fs) + k" by (subst k) simp
  moreover have "digits_val 0 (ds @ fs) = digits_val 0 (ds @ strip_zeros fs) * 10 ^ k"
    by (subst k) (simp only: append_assoc [symmetric] digits_val_append digits_val_zeros)
  ultimately show thesis by (rule that)
qed

lemma strip_zeros_digits: "list_all is_digit fs \<Longrightarrow> list_all is_digit (strip_zeros fs)"
  by (metis list_all_append strip_zeros_eq)

lemma fmt_g_digits_text:
  assumes P: "0 < P" and N: "10 ^ (P - 1) \<le> N" "N < 10 ^ P"
  obtains ip fp xo where "fmt_g_digits P N X = with_point ip fp @ exp_text xo"
    and "num_shape ip fp" and "num_real ip fp xo = real N * 10 powi (X - int P + 1)"
proof -
  define ds where "ds = digit_chars N"
  have len: "length ds = P" using digit_chars_length [of "P - 1" N] N P by (simp add: ds_def)
  have dig: "list_all is_digit ds" by (simp add: ds_def digit_chars_digits)
  have "0 < N" using N(1) by (meson less_le_trans zero_less_numeral zero_less_power)
  then have hd: "hd ds \<noteq> CHR ''0''" by (simp add: ds_def digit_chars_hd)
  have val: "digits_val 0 ds = N" by (simp add: ds_def digits_val_digit_chars)
  have dig': "list_all is_digit (take n ds)" "list_all is_digit (drop n ds)" for n
    using dig by (metis append_take_drop_id list_all_append)+
  consider (int) "0 \<le> X" "X < int P" | (frac) "-4 \<le> X" "X < 0" | (exp) "X < -4 \<or> int P \<le> X"
    by linarith
  then show thesis
  proof cases
    case int
    define n where "n = nat X + 1"
    have n: "n \<le> P" "0 < n" using int P by (simp_all add: n_def)
    obtain k where k: "length (drop n ds) = length (strip_zeros (drop n ds)) + k"
      "digits_val 0 (take n ds @ drop n ds) = digits_val 0 (take n ds @ strip_zeros (drop n ds)) * 10 ^ k"
      by (rule strip_zeros_val [of "drop n ds" "take n ds"])
    have "num_shape (take n ds) (strip_zeros (drop n ds))"
      using dig' strip_zeros_digits hd n len P by (auto simp: num_shape_def hd_take)
    moreover have "num_real (take n ds) (strip_zeros (drop n ds)) None = real N * 10 powi (X - int P + 1)"
    proof -
      define j where "j = length (strip_zeros (drop n ds))"
      have j: "X - int P + 1 = - int j - int k" using k(1) len n int by (simp add: j_def n_def)
      have "real N = real (digits_val 0 (take n ds @ strip_zeros (drop n ds))) * 10 ^ k"
        using k(2) val by simp
      then show ?thesis unfolding j
        by (simp add: num_real_def exp_val_def power_int_diff flip: j_def)
    qed
    moreover have "fmt_g_digits P N X = with_point (take n ds) (strip_zeros (drop n ds)) @ exp_text None"
      using int by (simp add: fmt_g_digits_def ds_def n_def exp_text_def Let_def)
    ultimately show thesis using that by blast
  next
    case frac
    define z where "z = nat (- X) - 1"
    obtain k where k: "length ds = length (strip_zeros ds) + k"
      "digits_val 0 ([] @ ds) = digits_val 0 ([] @ strip_zeros ds) * 10 ^ k"
      by (rule strip_zeros_val [of ds "[]"])
    let ?fp = "replicate z (CHR ''0'') @ strip_zeros ds"
    have "num_shape ''0'' ?fp" using strip_zeros_digits [OF dig] by (auto simp: num_shape_def list_all_iff)
    moreover have "num_real ''0'' ?fp None = real N * 10 powi (X - int P + 1)"
    proof -
      have j: "X - int P + 1 = - int (z + length (strip_zeros ds)) - int k"
        using k(1) len frac by (simp add: z_def)
      have "real N = real (digits_val 0 (strip_zeros ds)) * 10 ^ k" using k(2) val by simp
      then show ?thesis unfolding j
        by (simp add: num_real_def exp_val_def power_int_diff digits_val_append digits_val_zeros)
    qed
    moreover have "fmt_g_digits P N X = with_point ''0'' ?fp @ exp_text None"
      using frac by (simp add: fmt_g_digits_def ds_def z_def exp_text_def Let_def)
    ultimately show thesis using that by blast
  next
    case exp
    obtain k where k: "length (drop 1 ds) = length (strip_zeros (drop 1 ds)) + k"
      "digits_val 0 (take 1 ds @ drop 1 ds) = digits_val 0 (take 1 ds @ strip_zeros (drop 1 ds)) * 10 ^ k"
      by (rule strip_zeros_val [of "drop 1 ds" "take 1 ds"])
    have "num_shape (take 1 ds) (strip_zeros (drop 1 ds))"
      using dig' strip_zeros_digits hd len P by (auto simp: num_shape_def hd_take)
    moreover have "num_real (take 1 ds) (strip_zeros (drop 1 ds)) (Some X) = real N * 10 powi (X - int P + 1)"
    proof -
      define j where "j = length (strip_zeros (drop 1 ds))"
      have j: "X - int P + 1 = X - int j - int k" using k(1) len P by (simp add: j_def)
      have "real N = real (digits_val 0 (take 1 ds @ strip_zeros (drop 1 ds))) * 10 ^ k"
        using k(2) val by simp
      then show ?thesis unfolding j
        by (simp add: num_real_def exp_val_def power_int_diff j_def)
    qed
    moreover have "fmt_g_digits P N X = with_point (take 1 ds) (strip_zeros (drop 1 ds)) @ exp_text (Some X)"
      using exp by (auto simp: fmt_g_digits_def ds_def exp_text_def Let_def)
    ultimately show thesis using that by blast
  qed
qed

lemma fmt_g_text:
  assumes "0 < P"
  obtains ip fp xo where "fmt_g P (Finite s m e) = num_text s ip fp xo" and "num_shape ip fp"
    and "m = 0 \<longrightarrow> num_real ip fp xo = 0"
    and "0 < m \<longrightarrow> \<bar>num_real ip fp xo - real m * 2 powi e\<bar> \<le>
           real m * 2 powi e * 10 powi (1 - int P) / 2"
proof (cases "m = 0")
  case True
  show thesis
  proof (rule that)
    show "fmt_g P (Finite s m e) = num_text s ''0'' [] None"
      using True by (simp add: fmt_g_def num_text_def with_point_def exp_text_def)
  qed (use True in \<open>simp_all add: num_shape_def num_real_def\<close>)
next
  case False
  obtain a b where ab: "scale_down 2 (- e) m 1 = (a, b)" by (metis surj_pair)
  have b: "0 < b" and v: "real a / real b = real m * 2 powi e"
    using scale_down_real [OF ab] by simp_all
  then have a: "0 < a" using False by (cases a) auto
  obtain N X where NX: "decimal_digits P a b = (N, X)" by (metis surj_pair)
  note dd = decimal_digits_spec [OF assms a b NX]
  obtain ip fp xo where t: "fmt_g_digits P N X = with_point ip fp @ exp_text xo"
    "num_shape ip fp" "num_real ip fp xo = real N * 10 powi (X - int P + 1)"
    by (rule fmt_g_digits_text [OF assms dd(1,2)])
  have "10 powi (floor_log 10 a b - int P + 1) = (10::real) powi floor_log 10 a b * 10 powi (1 - int P)"
    by (subst power_int_add [symmetric]) (simp_all add: algebra_simps)
  also have "\<dots> \<le> real a / real b * 10 powi (1 - int P)"
    using floor_log_bounds(1) [of 10 a b] a b by (intro mult_right_mono) simp_all
  finally have "\<bar>num_real ip fp xo - real m * 2 powi e\<bar> \<le> real m * 2 powi e * 10 powi (1 - int P) / 2"
    using dd(3) by (simp add: t(3) v)
  moreover have "fmt_g P (Finite s m e) = num_text s ip fp xo"
    using False ab by (simp add: fmt_g_def num_text_def NX t(1))
  ultimately show thesis using that t(2) False by blast
qed

lemma strtod_fmt_g_17:
  assumes "canonical d" and "isfinite d"
  shows "strtod (fmt_g 17 d) = (d, [])"
proof -
  obtain s m e where d: "d = Finite s m e" using assms(2) by (cases d) auto
  obtain ip fp xo where t: "fmt_g 17 (Finite s m e) = num_text s ip fp xo" "num_shape ip fp"
    "m = 0 \<longrightarrow> num_real ip fp xo = 0"
    "0 < m \<longrightarrow> \<bar>num_real ip fp xo - real m * 2 powi e\<bar> \<le>
       real m * 2 powi e * 10 powi (1 - int 17) / 2"
    by (rule fmt_g_text [of 17 s m e]) simp
  obtain a b where ab: "strtod (num_text s ip fp xo) = (round_double s a b, [])" "0 < b"
    "real a / real b = num_real ip fp xo" by (rule strtod_num_text [OF t(2)])
  have "round_double s a b = Finite s m e"
  proof (cases "m = 0")
    case True
    with t(3) ab(2,3) have "a = 0" by simp
    with True assms(1) d show ?thesis by (simp add: round_double_def)
  next
    case False
    define T where "T = (2::real) powi e"
    have T: "0 < T" by (simp add: T_def)
    define v where "v = real a / real b"
    have ten: "(10::real) powi (1 - int 17) = 1 / 10 ^ 16" by (simp add: power_int_def field_simps)
    have err: "\<bar>v - real m * T\<bar> \<le> real m * T / (2 * 10 ^ 16)"
      using t(4) False unfolding ten by (simp add: v_def ab(3) T_def)
    have "m < 2 ^ 53" using assms(1) d by simp
    then have m: "real m \<le> 2 ^ 53" using of_nat_le_iff [of m "2 ^ 53", where 'a = real] by simp
    have "real m * T / (2 * 10 ^ 16) \<le> 2 ^ 53 * T / (2 * 10 ^ 16)"
      using m T by (intro divide_right_mono mult_right_mono) simp_all
    also have "\<dots> < T / 2" using T by simp
    finally have near: "\<bar>v - real m * T\<bar> < T / 2" using err by linarith
    have below: "real m * T - T / 4 < v" if "m = 2 ^ 52"
    proof -
      have "real m * T / (2 * 10 ^ 16) = 2 ^ 52 * T / (2 * 10 ^ 16)" by (simp add: that)
      also have "\<dots> < T / 4" using T by simp
      finally show ?thesis using err by linarith
    qed
    have "0 < v"
    proof -
      have "1 \<le> real m" using False by simp
      then have "T \<le> real m * T" using T by simp
      with near T show ?thesis by linarith
    qed
    then have "0 < a" using ab(2) by (simp add: v_def zero_less_divide_iff)
    then show ?thesis
      using round_double_nearest [of s m e a b] assms(1) d False ab(2) near below
      by (simp add: v_def T_def)
  qed
  then show ?thesis by (simp add: d t(1) ab(1))
qed

lemma round_double_canonical:
  assumes "0 < b"
  shows "canonical (round_double s a b)"
proof (cases "a = 0")
  case False
  define e where "e = max (-1074) (floor_log 2 a b - 52)"
  obtain x y where xy: "scale_down 2 e a b = (x, y)" by (metis surj_pair)
  define v where "v = real a / real b"
  have y: "0 < y" and q: "real x / real y = v * 2 powi (- e)"
    using scale_down_real [OF xy _ assms] by (simp_all add: v_def)
  have fl: "2 powi floor_log 2 a b \<le> v" "v < 2 powi (floor_log 2 a b + 1)"
    using floor_log_bounds [of 2 a b] False assms by (simp_all add: v_def)
  define m where "m = round_half_even x y"
  have near: "\<bar>real m - real x / real y\<bar> \<le> 1 / 2"
    using round_half_even_near [OF y] by (simp add: m_def)
  have "v < 2 powi (e + 53)"
  proof -
    have "(2::real) powi (floor_log 2 a b + 1) \<le> 2 powi (e + 53)"
      by (rule power_int_increasing) (simp_all add: e_def)
    with fl(2) show ?thesis by linarith
  qed
  then have "real x / real y < 2 ^ 53"
    unfolding q by (simp add: power_int_add power_int_minus field_simps)
  then have "real m < 2 ^ 53 + 1" using near by linarith
  then have "real m < real (2 ^ 53 + 1)" by simp
  then have up: "m \<le> 2 ^ 53" by (simp only: of_nat_less_iff)
  have low: "2 ^ 52 \<le> m" if "e \<noteq> -1074"
  proof -
    have e: "floor_log 2 a b = e + 52" using that by (simp add: e_def max_def split: if_splits)
    have "2 ^ 52 \<le> real x / real y"
      using fl(1) unfolding q e by (simp add: power_int_add power_int_minus field_simps)
    then have "2 ^ 52 < real m + 1" using near by linarith
    then have "real (2 ^ 52) < real (m + 1)" by simp
    then have "2 ^ 52 < m + 1" by linarith
    then show ?thesis by simp
  qed
  have "- 1074 \<le> e" by (simp add: e_def)
  then show ?thesis
    using False up low
    by (auto simp: round_double_def Let_def xy e_def [symmetric] m_def [symmetric])
qed (simp add: round_double_def)

lemma strtod_canonical: "canonical (fst (strtod s))"
proof -
  have "0 < b" if "scale_down 10 k n 1 = (a, b)" for k n a b
    using scale_down_real(1) [OF that] by simp
  then show ?thesis
    by (auto simp: strtod_def Let_def round_double_canonical split: prod.split)
qed


section \<open>The length of printed numbers\<close>

lemma strip_zeros_length: "length (strip_zeros ds) \<le> length ds"
  by (metis length_rev length_dropWhile_le strip_zeros_def)

lemma exponent_chars_length: "\<bar>X\<bar> < 1000 \<Longrightarrow> length (exponent_chars X) \<le> 5"
proof -
  assume X: "\<bar>X\<bar> < 1000"
  consider "\<bar>X\<bar> < 10" | "10 \<le> \<bar>X\<bar>" "\<bar>X\<bar> < 100" | "100 \<le> \<bar>X\<bar>" by linarith
  then show ?thesis
  proof cases
    case 1
    then have "digit_chars (nat \<bar>X\<bar>) = [char_of (48 + nat \<bar>X\<bar>)]" by (subst digit_chars.simps) auto
    with 1 show ?thesis by (simp add: exponent_chars_def)
  next
    case 2
    then have "length (digit_chars (nat \<bar>X\<bar>)) = Suc 1" by (intro digit_chars_length) auto
    with 2 show ?thesis by (simp add: exponent_chars_def)
  next
    case 3
    with X have "length (digit_chars (nat \<bar>X\<bar>)) = Suc 2" by (intro digit_chars_length) auto
    with 3 show ?thesis by (simp add: exponent_chars_def)
  qed
qed

lemma fmt_g_digits_length:
  assumes "10 ^ 16 \<le> N" and "N < 10 ^ 17" and "\<bar>X\<bar> < 1000"
  shows "length (fmt_g_digits 17 N X) \<le> 23"
proof -
  have len: "length (digit_chars N) = Suc 16" using assms(1,2) by (intro digit_chars_length) simp_all
  have s: "length (strip_zeros (drop k (digit_chars N))) \<le> 17 - k" for k
    using strip_zeros_length [of "drop k (digit_chars N)"] len by simp
  show ?thesis
    using s [of 0] s [of 1] s [of "nat X + 1"] exponent_chars_length [OF assms(3)] len
    by (auto simp: fmt_g_digits_def with_point_def Let_def)
qed

lemma canonical_decimal_exponent:
  assumes "canonical (Finite s m e)" and "0 < m" and "scale_down 2 (- e) m 1 = (a, b)"
    and "decimal_digits 17 a b = (N, X)"
  shows "\<bar>X\<bar> < 1000"
proof -
  have b: "0 < b" and ab: "real a / real b = real m * 2 powi e"
    using scale_down_real [OF assms(3)] by simp_all
  have pos: "0 < real a / real b" using assms(2) by (simp add: ab)
  then have a: "0 < a" by (cases a) auto
  let ?F = "floor_log 10 a b"
  have lo: "10 powi ?F \<le> real m * 2 powi e" and hi: "real m * 2 powi e < 10 powi (?F + 1)"
    using floor_log_bounds [of 10 a b] a b ab by simp_all
  have eight: "(2::real) powi (3 * int k) \<le> 10 powi int k" for k
    using power_mono [of "2 ^ 3 :: real" 10 k] by (simp only: power_int_of_nat power_int_mult power_int_numeral) simp
  have "real m < 2 powi 53" using assms(1) of_nat_less_iff [of m "2 ^ 53", where 'a = real] by simp
  then have "real m * 2 powi e < 2 powi 53 * 2 powi e" by simp
  also have "\<dots> = 2 powi (53 + e)" by (simp add: power_int_add)
  also have "\<dots> \<le> 2 powi (3 * int 342)" using assms(1) by (intro power_int_increasing) simp_all
  also note eight
  finally have "real m * 2 powi e < 10 powi int 342" .
  with lo have "(10::real) powi ?F < 10 powi int 342" by (rule le_less_trans)
  then have F1: "?F < int 342" by (rule powi_less_cancel [rotated]) simp
  have "(10::real) powi - int 358 \<le> 2 powi - (3 * int 358)"
    unfolding power_int_minus by (intro le_imp_inverse_le eight) simp
  also have "\<dots> \<le> 2 powi e" using assms(1) by (intro power_int_increasing) simp_all
  also have "\<dots> \<le> real m * 2 powi e" using assms(2) by simp
  finally have "(10::real) powi - int 358 \<le> real m * 2 powi e" .
  from this hi have "(10::real) powi - int 358 < 10 powi (?F + 1)" by (rule le_less_trans)
  then have F2: "- int 358 < ?F + 1" by (rule powi_less_cancel [rotated]) simp
  have "X = ?F \<or> X = ?F + 1"
    using assms(4) by (auto simp: decimal_digits_def Let_def split: prod.splits if_splits)
  with F1 F2 show ?thesis by auto
qed

lemma fmt_g_17_length:
  assumes "canonical d" and "isfinite d"
  shows "length (fmt_g 17 d) \<le> 24"
proof -
  obtain s m e where d: "d = Finite s m e" using assms(2) by (cases d) auto
  show ?thesis
  proof (cases "m = 0")
    case False
    obtain a b where ab: "scale_down 2 (- e) m 1 = (a, b)" by (metis surj_pair)
    obtain N X where NX: "decimal_digits 17 a b = (N, X)" by (metis surj_pair)
    have "0 < b" and "real a / real b = real m * 2 powi e" using scale_down_real [OF ab] by simp_all
    moreover from this False have "0 < a" by (cases a) auto
    ultimately have "10 ^ 16 \<le> N" "N < 10 ^ 17" using decimal_digits_spec(1,2) [of 17 a b N X] NX by simp_all
    moreover have "\<bar>X\<bar> < 1000"
      using canonical_decimal_exponent [of s m e a b N X] assms(1) False ab NX by (simp add: d)
    ultimately have "length (fmt_g_digits 17 N X) \<le> 23" by (rule fmt_g_digits_length)
    with False ab NX show ?thesis by (simp add: d fmt_g_def)
  qed (simp add: d fmt_g_def)
qed


section \<open>Integers below $2^{53}$ are represented exactly\<close>

lemma round_double_nat:
  assumes "0 < n" and "n < 2 ^ 53"
  obtains j where "j < 53" and "round_double s n 1 = Finite s (n * 2 ^ j) (- int j)"
    and "canonical (Finite s (n * 2 ^ j) (- int j))"
proof
  define k where "k = digits_len 2 n"
  have k: "0 < k" "2 ^ (k - 1) \<le> n" "n < 2 ^ k"
    using digits_len_bounds [of 2 n] assms(1) by (simp_all add: k_def)
  have "(2::nat) ^ (k - 1) < 2 ^ 53" using k(2) assms(2) by (rule le_less_trans)
  then have "k - 1 < 53" by (rule power_less_imp_less_exp [rotated]) simp
  then have k53: "k \<le> 53" by simp
  show j: "53 - k < 53" using k(1) k53 by simp
  have "n * 2 ^ (53 - k) < 2 ^ k * 2 ^ (53 - k)" using k(3) by (rule mult_less_mono1) simp
  also have "\<dots> = 2 ^ 53" using k53 by (simp flip: power_add)
  finally have up: "n * 2 ^ (53 - k) < 2 ^ 53" .
  have "(2::nat) ^ 52 = 2 ^ (k - 1 + (53 - k))" using k(1) k53 by simp
  also have "\<dots> = 2 ^ (k - 1) * 2 ^ (53 - k)" by (rule power_add)
  also have "\<dots> \<le> n * 2 ^ (53 - k)" using k(2) by (rule mult_le_mono1)
  finally have low: "2 ^ 52 \<le> n * 2 ^ (53 - k)" .
  from up low j show can: "canonical (Finite s (n * 2 ^ (53 - k)) (- int (53 - k)))" by simp
  have v: "real (n * 2 ^ (53 - k)) * 2 powi (- int (53 - k)) = real n / real 1"
    by (simp add: power_int_minus)
  have t: "0 < (2::real) powi (- int (53 - k))" by simp
  show "round_double s n 1 = Finite s (n * 2 ^ (53 - k)) (- int (53 - k))"
    by (rule round_double_nearest [OF can]; (unfold v)?) (use assms t in simp_all)
qed

lemma double_of_int_exact:
  assumes "\<bar>i\<bar> < 2 ^ 53"
  shows "isfinite (double_of_int i)" and "canonical (double_of_int i)" and "double_trunc (double_of_int i) = i"
proof -
  have "isfinite (double_of_int i) \<and> canonical (double_of_int i) \<and> double_trunc (double_of_int i) = i"
  proof (cases "i = 0")
    case True
    then show ?thesis by (simp add: double_of_int_def round_double_def signed_mant_def)
  next
    case False
    with assms have "0 < nat \<bar>i\<bar>" "nat \<bar>i\<bar> < 2 ^ 53" by auto
    then obtain j where "round_double (i < 0) (nat \<bar>i\<bar>) 1 = Finite (i < 0) (nat \<bar>i\<bar> * 2 ^ j) (- int j)"
      and "canonical (Finite (i < 0) (nat \<bar>i\<bar> * 2 ^ j) (- int j))"
      by (rule round_double_nat)
    then show ?thesis by (cases "j = 0") (auto simp: double_of_int_def signed_mant_def)
  qed
  then show "isfinite (double_of_int i)" and "canonical (double_of_int i)" and "double_trunc (double_of_int i) = i"
    by auto
qed


section \<open>Comparison of finite values is comparison of the real numbers\<close>

fun double_real :: "double \<Rightarrow> real" where
  "double_real (Finite s m e) = real_of_int (signed_mant s m) * 2 powi e"
| "double_real _ = 0"

lemma common_exponent:
  assumes "k \<le> e"
  shows "real_of_int (a * 2 ^ nat (e - k)) * 2 powi k = real_of_int a * 2 powi e"
proof -
  have "(2::real) powi e = 2 powi (int (nat (e - k)) + k)" using assms by simp
  also have "\<dots> = 2 ^ nat (e - k) * 2 powi k" by (subst power_int_add) (simp_all add: power_int_def)
  finally show ?thesis by simp
qed

lemma finite_compare:
  assumes "isfinite x" and "isfinite y"
  shows deq_real: "deq x y \<longleftrightarrow> double_real x = double_real y"
    and dlt_real: "dlt x y \<longleftrightarrow> double_real x < double_real y"
proof -
  obtain s m e s' m' e' where xy: "x = Finite s m e" "y = Finite s' m' e'"
    using assms by (cases x; cases y) auto
  define k a b where "k = min e e'" and "a = signed_mant s m * 2 ^ nat (e - k)"
    and "b = signed_mant s' m' * 2 ^ nat (e' - k)"
  have r: "double_real x = real_of_int a * 2 powi k" "double_real y = real_of_int b * 2 powi k"
    unfolding xy a_def b_def double_real.simps by (simp_all only: common_exponent k_def min.cobounded1 min.cobounded2)
  show "deq x y \<longleftrightarrow> double_real x = double_real y" "dlt x y \<longleftrightarrow> double_real x < double_real y"
    unfolding r by (simp_all add: xy Let_def flip: a_def b_def k_def)
qed

end
