(* ===== verification/Json_Dom.thy ===== *)
theory Json_Dom
  imports Utf8 Double
begin

text \<open>
  The JSON document tree of src/json/builtin.c (\<open>struct mcp_json_value\<close>) and its
  constructors, destructor and accessors. A tree is a value of the datatype \<open>json\<close>;
  arrays and objects carry the capacity of their backing arrays, because it decides
  when the code allocates. A pointer that may be NULL is an \<open>option\<close>. \<open>blocks v\<close> is the
  number of heap blocks the tree \<open>v\<close> owns.
\<close>

section \<open>Values\<close>

datatype json =
    JNull
  | JBool bool
  | JNumber double
  | JString string
  | JArray "json list" nat
  | JObject "(string \<times> json) list" nat

datatype json_type =
    MCP_JSON_NULL | MCP_JSON_BOOL | MCP_JSON_NUMBER | MCP_JSON_STRING | MCP_JSON_ARRAY
  | MCP_JSON_OBJECT

fun json_tag :: "json \<Rightarrow> json_type" where
  "json_tag JNull = MCP_JSON_NULL"
| "json_tag (JBool b) = MCP_JSON_BOOL"
| "json_tag (JNumber d) = MCP_JSON_NUMBER"
| "json_tag (JString s) = MCP_JSON_STRING"
| "json_tag (JArray xs cap) = MCP_JSON_ARRAY"
| "json_tag (JObject ms cap) = MCP_JSON_OBJECT"

definition builtin_type_of :: "json option \<Rightarrow> json_type" where
  "builtin_type_of v = (case v of Some v \<Rightarrow> json_tag v | None \<Rightarrow> MCP_JSON_NULL)"

text \<open>The C string held in a buffer: everything up to the first NUL.\<close>

definition cstr :: "string \<Rightarrow> string" where
  "cstr s = takeWhile (\<lambda>c. c \<noteq> CHR 0x00) s"

section \<open>Destruction\<close>

fun builtin_destroy :: "json \<Rightarrow> ('z heap_scheme, unit) state"
and destroy_items :: "json list \<Rightarrow> ('z heap_scheme, unit) state"
and destroy_members :: "(string \<times> json) list \<Rightarrow> ('z heap_scheme, unit) state" where
  "builtin_destroy (JString s) = do { xfree True; xfree True }"
| "builtin_destroy (JArray xs cap) = do {
     destroy_items xs;
     xfree (cap \<noteq> 0);
     xfree True
   }"
| "builtin_destroy (JObject ms cap) = do {
     destroy_members ms;
     xfree (cap \<noteq> 0);
     xfree (cap \<noteq> 0);
     xfree True
   }"
| "builtin_destroy _ = xfree True"
| "destroy_items [] = ret ()"
| "destroy_items (x # xs) = do { builtin_destroy x; destroy_items xs }"
| "destroy_members [] = ret ()"
| "destroy_members ((k, v) # ms) = do { xfree True; builtin_destroy v; destroy_members ms }"

text \<open>Destroying through a pointer that may be NULL.\<close>

definition destroy_opt :: "json option \<Rightarrow> ('z heap_scheme, unit) state" where
  "destroy_opt v = (case v of None \<Rightarrow> ret () | Some v \<Rightarrow> builtin_destroy v)"

section \<open>Accessors\<close>

definition builtin_get_bool :: "json option \<Rightarrow> bool option" where
  "builtin_get_bool v = (case v of Some (JBool b) \<Rightarrow> Some b | _ \<Rightarrow> None)"

definition builtin_get_number :: "json option \<Rightarrow> double option" where
  "builtin_get_number v = (case v of Some (JNumber d) \<Rightarrow> Some d | _ \<Rightarrow> None)"

definition builtin_get_string :: "json option \<Rightarrow> string option" where
  "builtin_get_string v = (case v of Some (JString s) \<Rightarrow> Some s | _ \<Rightarrow> None)"

fun lookup_member :: "(string \<times> json) list \<Rightarrow> string \<Rightarrow> json option" where
  "lookup_member [] key = None"
| "lookup_member ((k, v) # ms) key = (if k = key then Some v else lookup_member ms key)"

definition builtin_object_get :: "json option \<Rightarrow> string \<Rightarrow> json option" where
  "builtin_object_get obj key =
     (case obj of
        Some (JObject ms cap) \<Rightarrow> if utf8_valid key then lookup_member ms key else None
      | _ \<Rightarrow> None)"

definition builtin_object_has :: "json option \<Rightarrow> string \<Rightarrow> bool" where
  "builtin_object_has obj key \<longleftrightarrow> builtin_object_get obj key \<noteq> None"

definition builtin_object_size :: "json option \<Rightarrow> nat" where
  "builtin_object_size obj = (case obj of Some (JObject ms cap) \<Rightarrow> length ms | _ \<Rightarrow> 0)"

definition builtin_object_key_at :: "json option \<Rightarrow> nat \<Rightarrow> string option" where
  "builtin_object_key_at obj i =
     (case obj of
        Some (JObject ms cap) \<Rightarrow> if length ms \<le> i then None else Some (fst (ms ! i))
      | _ \<Rightarrow> None)"

definition builtin_array_get :: "json option \<Rightarrow> nat \<Rightarrow> json option" where
  "builtin_array_get arr i =
     (case arr of
        Some (JArray xs cap) \<Rightarrow> if length xs \<le> i then None else Some (xs ! i)
      | _ \<Rightarrow> None)"

definition builtin_array_size :: "json option \<Rightarrow> nat" where
  "builtin_array_size arr = (case arr of Some (JArray xs cap) \<Rightarrow> length xs | _ \<Rightarrow> 0)"

section \<open>Constructors\<close>

definition value_new :: "('z heap_scheme, bool) state" where
  "value_new = xmalloc"

definition builtin_new_null :: "('z heap_scheme, json option) state" where
  "builtin_new_null = do { ok \<leftarrow> value_new; ret (if ok then Some JNull else None) }"

definition builtin_new_bool :: "bool \<Rightarrow> ('z heap_scheme, json option) state" where
  "builtin_new_bool b = do { ok \<leftarrow> value_new; ret (if ok then Some (JBool b) else None) }"

definition builtin_new_number :: "double \<Rightarrow> ('z heap_scheme, json option) state" where
  "builtin_new_number d =
     (if \<not> isfinite d then ret None
      else do { ok \<leftarrow> value_new; ret (if ok then Some (JNumber d) else None) })"

definition builtin_new_string_n :: "string option \<Rightarrow> ('z heap_scheme, json option) state" where
  "builtin_new_string_n s =
     (case s of
        None \<Rightarrow> ret None
      | Some s \<Rightarrow>
          if CHR 0x00 \<in> set s \<or> \<not> utf8_valid s then ret None
          else do {
            v \<leftarrow> value_new;
            if \<not> v then ret None
            else do {
              sbuf \<leftarrow> xmalloc;
              if \<not> sbuf then do { xfree True; ret None }
              else ret (Some (JString s))
            }
          })"

definition builtin_new_array :: "('z heap_scheme, json option) state" where
  "builtin_new_array = do { ok \<leftarrow> value_new; ret (if ok then Some (JArray [] 0) else None) }"

definition builtin_new_object :: "('z heap_scheme, json option) state" where
  "builtin_new_object = do { ok \<leftarrow> value_new; ret (if ok then Some (JObject [] 0) else None) }"

section \<open>Updates\<close>

text \<open>The growth rule of the backing arrays.\<close>

definition next_cap :: "nat \<Rightarrow> nat" where
  "next_cap cap = (if cap \<noteq> 0 then cap * 2 else 4)"

fun replace_member :: "(string \<times> json) list \<Rightarrow> string \<Rightarrow> json \<Rightarrow> (string \<times> json) list" where
  "replace_member [] key val = []"
| "replace_member ((k, v) # ms) key val =
     (if k = key then (k, val) # ms else (k, v) # replace_member ms key val)"

text \<open>The result is the status and the object after the call. In the branch where the
  second \<open>xrealloc\<close> fails the code stores the old \<open>keys\<close> pointer back and frees the new
  one, although the successful first \<open>xrealloc\<close> has consumed the old block.\<close>

definition object_grow :: "nat \<Rightarrow> ('z heap_scheme, nat option) state" where
  "object_grow cap = do {
     let ncap = next_cap cap;
     nkeys \<leftarrow> xrealloc (cap \<noteq> 0);
     if \<not> nkeys then ret None
     else do {
       nvals \<leftarrow> xrealloc (cap \<noteq> 0);
       if \<not> nvals then do { xfree True; ret None }
       else ret (Some ncap)
     }
   }"

definition builtin_object_set ::
  "json option \<Rightarrow> string option \<Rightarrow> json option \<Rightarrow> ('z heap_scheme, mcp_status \<times> json option) state" where
  "builtin_object_set obj key val =
     (case (obj, key, val) of
        (Some (JObject ms cap), Some key, Some val) \<Rightarrow>
          if \<not> utf8_valid key then ret (MCP_ERR_INVALID_ARGUMENT, obj)
          else (case lookup_member ms key of
            Some old \<Rightarrow> do {
              builtin_destroy old;
              ret (MCP_OK, Some (JObject (replace_member ms key val) cap))
            }
          | None \<Rightarrow> do {
              g \<leftarrow> (if length ms = cap then object_grow cap else ret (Some cap));
              (case g of
                 None \<Rightarrow> ret (MCP_ERR_NOMEM, obj)
               | Some cap' \<Rightarrow> do {
                   kcopy \<leftarrow> xmalloc;
                   ret (if \<not> kcopy then (MCP_ERR_NOMEM, Some (JObject ms cap'))
                        else (MCP_OK, Some (JObject (ms @ [(key, val)]) cap')))
                 })
            })
      | _ \<Rightarrow> ret (MCP_ERR_INVALID_ARGUMENT, obj))"

definition builtin_array_append ::
  "json option \<Rightarrow> json option \<Rightarrow> ('z heap_scheme, mcp_status \<times> json option) state" where
  "builtin_array_append arr val =
     (case (arr, val) of
        (Some (JArray xs cap), Some val) \<Rightarrow>
          if length xs = cap then do {
            nitems \<leftarrow> xrealloc (cap \<noteq> 0);
            ret (if \<not> nitems then (MCP_ERR_NOMEM, arr)
                 else (MCP_OK, Some (JArray (xs @ [val]) (next_cap cap))))
          }
          else ret (MCP_OK, Some (JArray (xs @ [val]) cap))
      | _ \<Rightarrow> ret (MCP_ERR_INVALID_ARGUMENT, arr))"

section \<open>Ownership\<close>

fun blocks :: "json \<Rightarrow> int" where
  "blocks (JString s) = 2"
| "blocks (JArray xs cap) = 1 + (if cap = 0 then 0 else 1) + sum_list (map blocks xs)"
| "blocks (JObject ms cap) =
     1 + (if cap = 0 then 0 else 2) + sum_list (map (\<lambda>m. 1 + blocks (snd m)) ms)"
| "blocks _ = 1"

definition blocks_opt :: "json option \<Rightarrow> int" where
  "blocks_opt v = (case v of None \<Rightarrow> 0 | Some v \<Rightarrow> blocks v)"

lemma blocks_opt_simps [simp]: "blocks_opt None = 0" "blocks_opt (Some v) = blocks v"
  by (simp_all add: blocks_opt_def)

lemma heap_live_twice [simp]:
  "h\<lparr>live := a, live := b\<rparr> = h\<lparr>live := b\<rparr>" for h :: "'z heap_scheme"
  by simp

lemma wp_destroy_all [simp]:
  fixes h :: "'z heap_scheme"
  shows "wp (builtin_destroy v) Q h = Q () (h\<lparr>live := live h - blocks v\<rparr>)"
    and "wp (destroy_items xs) Q1 h = Q1 () (h\<lparr>live := live h - sum_list (map blocks xs)\<rparr>)"
    and "wp (destroy_members ms) Q2 h =
           Q2 () (h\<lparr>live := live h - sum_list (map (\<lambda>m. 1 + blocks (snd m)) ms)\<rparr>)"
  by (induction v and xs and ms arbitrary: Q h and Q1 h and Q2 h
      rule: builtin_destroy_destroy_items_destroy_members.induct)
     (simp_all add: algebra_simps)

lemma wp_destroy_opt [simp]:
  "wp (destroy_opt v) Q h = Q () (h\<lparr>live := live h - blocks_opt v\<rparr>)"
  by (cases v) (simp_all add: destroy_opt_def)

text \<open>Well-formed trees: what every constructor and update keeps.\<close>

definition wf_text :: "string \<Rightarrow> bool" where
  "wf_text s \<longleftrightarrow> utf8_valid s \<and> CHR 0x00 \<notin> set s"

fun wf_json :: "json \<Rightarrow> bool" where
  "wf_json (JNumber d) \<longleftrightarrow> isfinite d \<and> canonical d"
| "wf_json (JString s) \<longleftrightarrow> wf_text s"
| "wf_json (JArray xs cap) \<longleftrightarrow> length xs \<le> cap \<and> (\<forall>x \<in> set xs. wf_json x)"
| "wf_json (JObject ms cap) \<longleftrightarrow>
     length ms \<le> cap \<and> distinct (map fst ms) \<and>
     (\<forall>m \<in> set ms. wf_text (fst m) \<and> wf_json (snd m))"
| "wf_json _ \<longleftrightarrow> True"

fun json_depth :: "json \<Rightarrow> nat" where
  "json_depth (JArray xs cap) = Suc (Max (insert 0 (json_depth ` set xs)))"
| "json_depth (JObject ms cap) = Suc (Max (insert 0 ((\<lambda>m. json_depth (snd m)) ` set ms)))"
| "json_depth _ = 0"

section \<open>Members\<close>

lemma lookup_member_map_of: "lookup_member ms key = map_of ms key"
  by (induction ms key rule: lookup_member.induct) auto

lemma keys_replace_member [simp]: "map fst (replace_member ms key val) = map fst ms"
  by (induction ms key val rule: replace_member.induct) auto

lemma length_replace_member [simp]: "length (replace_member ms key val) = length ms"
  by (induction ms key val rule: replace_member.induct) auto

lemma lookup_replace_member:
  "lookup_member (replace_member ms key val) k =
     (if k = key \<and> lookup_member ms key \<noteq> None then Some val else lookup_member ms k)"
  by (induction ms key val rule: replace_member.induct) auto

lemma set_replace_member:
  "m \<in> set (replace_member ms key val) \<Longrightarrow> m = (key, val) \<or> m \<in> set ms"
  by (induction ms key val rule: replace_member.induct) (auto split: if_splits)

lemma lookup_member_append:
  "lookup_member (ms @ ms') k =
     (case lookup_member ms k of None \<Rightarrow> lookup_member ms' k | Some v \<Rightarrow> Some v)"
  by (induction ms k rule: lookup_member.induct) auto

lemma lookup_member_None: "lookup_member ms k = None \<longleftrightarrow> k \<notin> fst ` set ms"
  by (induction ms k rule: lookup_member.induct) auto

lemma lookup_member_SomeD: "lookup_member ms k = Some v \<Longrightarrow> (k, v) \<in> set ms"
  by (induction ms k rule: lookup_member.induct) (auto split: if_splits)

lemma blocks_replace_member:
  "lookup_member ms key = Some old \<Longrightarrow>
   sum_list (map (\<lambda>m. 1 + blocks (snd m)) (replace_member ms key val)) =
   sum_list (map (\<lambda>m. 1 + blocks (snd m)) ms) - blocks old + blocks val"
  by (induction ms key val rule: replace_member.induct) (auto split: if_splits)

section \<open>What the updates do\<close>

text \<open>The object, and the array, after a successful update.\<close>

fun object_put :: "json \<Rightarrow> string \<Rightarrow> json \<Rightarrow> json" where
  "object_put (JObject ms cap) key val =
     (if lookup_member ms key = None
      then JObject (ms @ [(key, val)]) (if length ms = cap then next_cap cap else cap)
      else JObject (replace_member ms key val) cap)"
| "object_put v key val = v"

fun array_put :: "json \<Rightarrow> json \<Rightarrow> json" where
  "array_put (JArray xs cap) val = JArray (xs @ [val]) (if length xs = cap then next_cap cap else cap)"
| "array_put v val = v"

lemma next_cap_pos [simp]: "0 < next_cap cap" "next_cap cap \<noteq> 0"
  by (simp_all add: next_cap_def)

lemma next_cap_Suc: "Suc cap \<le> next_cap cap"
  by (simp add: next_cap_def)

definition is_object :: "json \<Rightarrow> bool" where
  "is_object v \<longleftrightarrow> json_tag v = MCP_JSON_OBJECT"

definition is_array :: "json \<Rightarrow> bool" where
  "is_array v \<longleftrightarrow> json_tag v = MCP_JSON_ARRAY"

lemma is_object_iff: "is_object v \<longleftrightarrow> (\<exists>ms cap. v = JObject ms cap)"
  by (cases v) (simp_all add: is_object_def)

lemma is_array_iff: "is_array v \<longleftrightarrow> (\<exists>xs cap. v = JArray xs cap)"
  by (cases v) (simp_all add: is_array_def)

lemma is_object_put [simp]: "is_object (object_put v k x) = is_object v"
  by (cases v) (simp_all add: is_object_def)

lemma is_array_put [simp]: "is_array (array_put v x) = is_array v"
  by (cases v) (simp_all add: is_array_def)

lemma wp_object_grow:
  assumes "\<And>h'. steps (if cap = 0 then 2 else 0) h h' \<Longrightarrow> Q (Some (next_cap cap)) h'"
    and "\<And>h' n. script h \<noteq> [] \<Longrightarrow> steps n h h' \<Longrightarrow> n = 0 \<or> cap \<noteq> 0 \<and> n = -1 \<Longrightarrow> Q None h'"
  shows "wp (object_grow cap) Q h"
  unfolding object_grow_def Let_def wp_bind
proof (rule wp_xrealloc)
  fix ok h1
  assume s1: "steps (if ok \<and> \<not> cap \<noteq> 0 then 1 else 0) h h1" and ok1: "script h = [] \<longrightarrow> ok"
  show "wp (if \<not> ok then ret None
      else xrealloc (cap \<noteq> 0) \<bind> (\<lambda>nvals.
        if \<not> nvals then xfree True \<bind> (\<lambda>_. ret None) else ret (Some (next_cap cap)))) Q h1"
  proof (cases ok)
    case False
    with s1 ok1 show ?thesis by (auto intro!: assms(2))
  next
    case True
    have "wp (xrealloc (cap \<noteq> 0)) (\<lambda>nvals. wp (if \<not> nvals then xfree True \<bind> (\<lambda>_. ret None)
        else ret (Some (next_cap cap))) Q) h1"
    proof (rule wp_xrealloc)
      fix ok' h2
      assume s2: "steps (if ok' \<and> \<not> cap \<noteq> 0 then 1 else 0) h1 h2" and ok2: "script h1 = [] \<longrightarrow> ok'"
      have n: "script h \<noteq> []" if "\<not> ok'" using ok2 s1 that by (auto simp: steps_def)
      show "wp (if \<not> ok' then xfree True \<bind> (\<lambda>_. ret None) else ret (Some (next_cap cap))) Q h2"
        using s1 s2 n True assms(1) [of h2] assms(2) [of "if cap = 0 then 0 else -1"]
        by (auto simp: steps_def split: if_splits)
    qed
    with True show ?thesis by simp
  qed
qed

text \<open>Every outcome of \<open>builtin_object_set\<close> on an object, for any allocator. On
  \<open>MCP_OK\<close> the object owns the value and the accounting is exact; on an error the
  members are unchanged.\<close>

lemma wp_builtin_object_set:
  assumes obj: "is_object obj"
    and ok: "\<And>h'. utf8_valid key \<Longrightarrow>
      steps (blocks (object_put obj key val) - blocks obj - blocks val) h h' \<Longrightarrow>
      Q (MCP_OK, Some (object_put obj key val)) h'"
    and bad: "\<not> utf8_valid key \<Longrightarrow> Q (MCP_ERR_INVALID_ARGUMENT, Some obj) h"
    and nomem: "\<And>ms cap cap' h' n. obj = JObject ms cap \<Longrightarrow> utf8_valid key \<Longrightarrow> script h \<noteq> [] \<Longrightarrow>
      lookup_member ms key = None \<Longrightarrow> steps n h h' \<Longrightarrow> 
      n = blocks (JObject ms cap') - blocks obj \<or> cap \<noteq> 0 \<and> length ms = cap \<and> cap' = cap \<and> n = -1 \<Longrightarrow> 
      cap \<le> cap' \<Longrightarrow> Q (MCP_ERR_NOMEM, Some (JObject ms cap')) h'"
  shows "wp (builtin_object_set (Some obj) (Some key) (Some val)) Q h"
proof -
  obtain ms cap where o: "obj = JObject ms cap" using obj by (auto simp: is_object_iff)
  show ?thesis
  proof (cases "utf8_valid key")
    case False
    then show ?thesis using bad by (simp add: builtin_object_set_def o)
  next
    case u: True
    show ?thesis
    proof (cases "lookup_member ms key")
      case (Some old)
      then show ?thesis
        using u ok by (simp add: builtin_object_set_def o steps_def blocks_replace_member)
    next
      case None
      have kc: "wp xmalloc (\<lambda>a. Q (if \<not> a then (MCP_ERR_NOMEM, Some (JObject ms cap'))
          else (MCP_OK, Some (JObject (ms @ [(key, val)]) cap')))) h'"
        if s: "steps (blocks (JObject ms cap') - blocks obj) h h'" "cap \<le> cap'"
          and c: "cap' = (if length ms = cap then next_cap cap else cap)" for h' cap'
        apply (rule wp_xmalloc)
        subgoal for a h''
          using ok [of h''] nomem [OF o u _ None, of _ h'' cap'] u None s c
          by (auto simp: o steps_def split: if_splits)
        done
      show ?thesis
      proof (cases "length ms = cap")
        case True
        have "wp (object_grow cap) (\<lambda>g. wp (case g of None \<Rightarrow> ret (MCP_ERR_NOMEM, Some (JObject ms cap))
            | Some cap' \<Rightarrow> xmalloc \<bind> (\<lambda>kcopy. ret (if \<not> kcopy then (MCP_ERR_NOMEM, Some (JObject ms cap'))
                else (MCP_OK, Some (JObject (ms @ [(key, val)]) cap'))))) Q) h"
          by (rule wp_object_grow)
             (use True kc [of "next_cap cap"] nomem [OF o u _ None, of _ _ cap] next_cap_Suc [of cap] in
               \<open>auto simp: o split: if_splits\<close>)
        with u None True show ?thesis by (simp add: builtin_object_set_def o)
      next
        case False
        then show ?thesis using u None kc [of cap h] by (simp add: builtin_object_set_def o)
      qed
    qed
  qed
qed

lemma wp_builtin_array_append:
  assumes arr: "is_array arr"
    and ok: "\<And>h'. steps (blocks (array_put arr val) - blocks arr - blocks val) h h' \<Longrightarrow>
      Q (MCP_OK, Some (array_put arr val)) h'"
    and nomem: "\<And>h'. script h \<noteq> [] \<Longrightarrow> steps 0 h h' \<Longrightarrow> Q (MCP_ERR_NOMEM, Some arr) h'"
  shows "wp (builtin_array_append (Some arr) (Some val)) Q h"
proof -
  obtain xs cap where a: "arr = JArray xs cap" using arr by (auto simp: is_array_iff)
  show ?thesis
  proof (cases "length xs = cap")
    case True
    have "wp (xrealloc (cap \<noteq> 0)) (\<lambda>ok. Q (if \<not> ok then (MCP_ERR_NOMEM, Some (JArray xs cap))
        else (MCP_OK, Some (JArray (xs @ [val]) (next_cap cap))))) h"
      apply (rule wp_xrealloc)
      subgoal for b h' using True ok [of h'] nomem [of h'] by (auto simp: a split: if_splits)
      done
    with True show ?thesis by (simp add: builtin_array_append_def a)
  next
    case False
    with ok [of h] show ?thesis by (simp add: builtin_array_append_def a)
  qed
qed

lemma wp_builtin_new_string_n:
  assumes "\<And>h'. wf_text s \<Longrightarrow> steps 2 h h' \<Longrightarrow> Q (Some (JString s)) h'"
    and "\<And>h'. \<not> wf_text s \<or> script h \<noteq> [] \<Longrightarrow> steps 0 h h' \<Longrightarrow> Q None h'"
  shows "wp (builtin_new_string_n (Some s)) Q h"
proof (cases "wf_text s")
  case True
  have "wp xmalloc (\<lambda>sbuf. wp (if \<not> sbuf then do { xfree True; ret None } else ret (Some (JString s))) Q) h1"
    if s1: "steps 1 h h1" for h1
    apply (rule wp_xmalloc)
    subgoal for ok h2
      using s1 assms(1) [OF True, of h2] assms(2) by (auto simp: steps_def split: if_splits)
    done
  then have "wp xmalloc (\<lambda>v. wp (if \<not> v then ret None else do { sbuf \<leftarrow> xmalloc;
      if \<not> sbuf then do { xfree True; ret None } else ret (Some (JString s)) }) Q) h"
    apply (intro wp_xmalloc)
    subgoal for ok h1 using assms(2) [of h1] by (cases ok) auto
    done
  with True show ?thesis by (simp add: builtin_new_string_n_def value_new_def wf_text_def)
next
  case False
  with assms(2) show ?thesis by (auto simp: builtin_new_string_n_def wf_text_def)
qed

lemma wp_new_leaf:
  assumes "\<And>h'. steps 1 h h' \<Longrightarrow> Q (Some v) h'"
    and "\<And>h'. script h \<noteq> [] \<Longrightarrow> steps 0 h h' \<Longrightarrow> Q None h'"
  shows "wp (do { ok \<leftarrow> value_new; ret (if ok then Some v else None) }) Q h"
proof -
  have "wp xmalloc (\<lambda>ok. Q (if ok then Some v else None)) h"
    by (rule wp_xmalloc) (use assms in auto)
  then show ?thesis by (simp add: value_new_def)
qed

lemmas new_leaf_defs =
  builtin_new_null_def builtin_new_bool_def builtin_new_array_def builtin_new_object_def

lemma wp_new_container:
  assumes "\<And>h'. steps 1 h h' \<Longrightarrow> Q (Some v) h'"
    and "\<And>h'. script h \<noteq> [] \<Longrightarrow> steps 0 h h' \<Longrightarrow> Q None h'"
  shows "v = JNull \<Longrightarrow> wp builtin_new_null Q h" "v = JBool b \<Longrightarrow> wp (builtin_new_bool b) Q h"
    "v = JArray [] 0 \<Longrightarrow> wp builtin_new_array Q h" "v = JObject [] 0 \<Longrightarrow> wp builtin_new_object Q h"
  unfolding new_leaf_defs by (rule wp_new_leaf; use assms in simp)+

lemmas wp_new_null = wp_new_container(1) [OF _ _ refl]
  and wp_new_bool = wp_new_container(2) [OF _ _ refl]
  and wp_new_array = wp_new_container(3) [OF _ _ refl]
  and wp_new_object = wp_new_container(4) [OF _ _ refl]

section \<open>Results when no allocation fails\<close>

lemma yields_destroy [yields_rules]: "yields (builtin_destroy v) ()" "yields (destroy_opt w) ()"
  by (simp_all add: yields_def)

lemma yields_new [yields_rules]:
  "yields builtin_new_null (Some JNull)"
  "yields (builtin_new_bool b) (Some (JBool b))"
  "yields builtin_new_array (Some (JArray [] 0))"
  "yields builtin_new_object (Some (JObject [] 0))"
  by (simp_all add: yields_def new_leaf_defs value_new_def)

lemma yields_new_number [yields_rules]: "isfinite d \<Longrightarrow> yields (builtin_new_number d) (Some (JNumber d))"
  by (simp add: yields_def builtin_new_number_def value_new_def)

lemma yields_new_string_n [yields_rules]:
  "wf_text s \<Longrightarrow> yields (builtin_new_string_n (Some s)) (Some (JString s))"
  by (rule yieldsI, rule wp_builtin_new_string_n) (auto simp: steps_def)

lemma yields_object_set [yields_rules]:
  "is_object obj \<Longrightarrow> utf8_valid key \<Longrightarrow>
   yields (builtin_object_set (Some obj) (Some key) (Some val)) (MCP_OK, Some (object_put obj key val))"
  by (rule yieldsI, rule wp_builtin_object_set) (auto simp: steps_def)

lemma yields_array_append [yields_rules]:
  "is_array arr \<Longrightarrow> yields (builtin_array_append (Some arr) (Some val)) (MCP_OK, Some (array_put arr val))"
  by (rule yieldsI, rule wp_builtin_array_append) (auto simp: steps_def)

section \<open>Laws of the members of an object\<close>

lemma wf_object_put [intro]:
  "wf_json obj \<Longrightarrow> wf_json val \<Longrightarrow> wf_text key \<Longrightarrow> wf_json (object_put obj key val)"
  by (cases obj)
     (auto simp: lookup_member_None next_cap_Suc wf_text_def dest!: set_replace_member)

lemma wf_array_put [intro]:
  "wf_json arr \<Longrightarrow> wf_json val \<Longrightarrow> wf_json (array_put arr val)"
  by (cases arr) (auto simp: next_cap_Suc)

lemma object_get_put:
  "is_object obj \<Longrightarrow> utf8_valid k \<Longrightarrow>
   builtin_object_get (Some (object_put obj key val)) k =
     (if k = key then Some val else builtin_object_get (Some obj) k)"
  by (cases obj)
     (auto simp: is_object_def builtin_object_get_def lookup_member_append lookup_replace_member
       split: option.splits)

lemma array_get_put:
  "is_array arr \<Longrightarrow>
   builtin_array_get (Some (array_put arr val)) i =
     (if i = builtin_array_size (Some arr) then Some val else builtin_array_get (Some arr) i)"
  by (cases arr) (auto simp: is_array_def builtin_array_get_def builtin_array_size_def nth_append)

lemma blocks_pos: "0 < blocks v"
proof (induction v rule: blocks.induct)
  case (2 xs cap)
  then show ?case by (auto intro!: add_pos_nonneg sum_list_nonneg simp: less_imp_le)
next
  case (3 ms cap)
  then have "0 \<le> sum_list (map (\<lambda>m. 1 + blocks (snd m)) ms)"
    by (intro sum_list_nonneg) force
  then show ?case by simp
qed simp_all

section \<open>Properties of the updates\<close>



text \<open>
  C37: a failed growth of a full object leaves it with a freed block. When the second
  \<open>xrealloc\<close> of \<open>builtin_object_set\<close> fails after the first succeeded, the object keeps the
  pointer the first call consumed, and the block it now owns has been freed: one block
  fewer is live than the object, which is returned unchanged, accounts for.
\<close>

theorem builtin_object_set_frees_keys:
  assumes "length ms = cap" and "cap \<noteq> 0" and "utf8_valid key" and "lookup_member ms key = None"
  shows "run_state (builtin_object_set (Some (JObject ms cap)) (Some key) (Some val))
      \<lparr>live = n, script = True # False # bs\<rparr> =
    ((MCP_ERR_NOMEM, Some (JObject ms cap)), \<lparr>live = n - 1, script = bs\<rparr>)"
  using assms by (simp add: builtin_object_set_def object_grow_def xrealloc_def xfree_def next_outcome_def add_live_def)

theorem builtin_object_set_frees_keys_witness:
  "run_state (builtin_object_set
      (Some (JObject [(''a'', JNull), (''b'', JNull), (''c'', JNull), (''d'', JNull)] 4)) (Some ''e'') (Some JNull))
      \<lparr>live = 20, script = True # False # []\<rparr> =
    ((MCP_ERR_NOMEM, Some (JObject [(''a'', JNull), (''b'', JNull), (''c'', JNull), (''d'', JNull)] 4)),
     \<lparr>live = 20 - 1, script = []\<rparr>)"
  by (rule builtin_object_set_frees_keys) (simp_all add: utf8_valid_ascii)

end
