(* ===== verification/Json_Api.thy ===== *)
theory Json_Api
  imports Json_Dom
begin

text \<open>
  The public JSON interface of src/json/api.c. Every function resolves the ops table of
  the context and delegates; the model is that of a context without a custom backend,
  where \<open>resolve\<close> yields the built-in one, so the delegating functions are
  abbreviations. \<open>mcp_json_object_set_take\<close>, \<open>mcp_json_string_new\<close> and
  \<open>mcp_json_clone\<close> have code of their own.
\<close>

section \<open>Delegation\<close>

abbreviation mcp_json_type :: "json option \<Rightarrow> json_type" where
  "mcp_json_type \<equiv> builtin_type_of"

abbreviation mcp_json_destroy :: "json option \<Rightarrow> ('z heap_scheme, unit) state" where
  "mcp_json_destroy \<equiv> destroy_opt"

abbreviation mcp_json_bool_value :: "json option \<Rightarrow> bool option" where
  "mcp_json_bool_value \<equiv> builtin_get_bool"

abbreviation mcp_json_number_value :: "json option \<Rightarrow> double option" where
  "mcp_json_number_value \<equiv> builtin_get_number"

abbreviation mcp_json_string_value :: "json option \<Rightarrow> string option" where
  "mcp_json_string_value \<equiv> builtin_get_string"

abbreviation mcp_json_number_new :: "double \<Rightarrow> ('z heap_scheme, json option) state" where
  "mcp_json_number_new \<equiv> builtin_new_number"

abbreviation mcp_json_bool_new :: "bool \<Rightarrow> ('z heap_scheme, json option) state" where
  "mcp_json_bool_new \<equiv> builtin_new_bool"

abbreviation mcp_json_null_new :: "('z heap_scheme, json option) state" where
  "mcp_json_null_new \<equiv> builtin_new_null"

abbreviation mcp_json_array_new :: "('z heap_scheme, json option) state" where
  "mcp_json_array_new \<equiv> builtin_new_array"

abbreviation mcp_json_object_new :: "('z heap_scheme, json option) state" where
  "mcp_json_object_new \<equiv> builtin_new_object"

abbreviation mcp_json_object_set ::
  "json option \<Rightarrow> string option \<Rightarrow> json option \<Rightarrow> ('z heap_scheme, mcp_status \<times> json option) state" where
  "mcp_json_object_set \<equiv> builtin_object_set"

abbreviation mcp_json_object_get :: "json option \<Rightarrow> string \<Rightarrow> json option" where
  "mcp_json_object_get \<equiv> builtin_object_get"

abbreviation mcp_json_object_has :: "json option \<Rightarrow> string \<Rightarrow> bool" where
  "mcp_json_object_has \<equiv> builtin_object_has"

abbreviation mcp_json_array_append ::
  "json option \<Rightarrow> json option \<Rightarrow> ('z heap_scheme, mcp_status \<times> json option) state" where
  "mcp_json_array_append \<equiv> builtin_array_append"

abbreviation mcp_json_array_get :: "json option \<Rightarrow> nat \<Rightarrow> json option" where
  "mcp_json_array_get \<equiv> builtin_array_get"

abbreviation mcp_json_array_size :: "json option \<Rightarrow> nat" where
  "mcp_json_array_size \<equiv> builtin_array_size"

section \<open>Functions with code of their own\<close>

definition mcp_json_string_new :: "string option \<Rightarrow> ('z heap_scheme, json option) state" where
  "mcp_json_string_new s =
     (case s of None \<Rightarrow> ret None | Some s \<Rightarrow> builtin_new_string_n (Some (cstr s)))"

definition mcp_json_object_set_take ::
  "json option \<Rightarrow> string option \<Rightarrow> json option \<Rightarrow> ('z heap_scheme, mcp_status \<times> json option) state" where
  "mcp_json_object_set_take obj key val = do {
     r \<leftarrow> mcp_json_object_set obj key val;
     (if fst r \<noteq> MCP_OK then do { mcp_json_destroy val; ret r } else ret r)
   }"

lemma lookup_member_size: "lookup_member ms k = Some w \<Longrightarrow> size w < size_list (size_prod (\<lambda>_. 0) size) ms"
  by (induction ms k rule: lookup_member.induct) (auto split: if_splits)

function (sequential) mcp_json_clone :: "json option \<Rightarrow> ('z heap_scheme, json option) state"
and clone_items :: "json list \<Rightarrow> json \<Rightarrow> ('z heap_scheme, json option) state"
and clone_members ::
  "(string \<times> json) list \<Rightarrow> nat \<Rightarrow> (string \<times> json) list \<Rightarrow> json \<Rightarrow> ('z heap_scheme, json option) state" where
  "mcp_json_clone None = ret None"
| "mcp_json_clone (Some JNull) = builtin_new_null"
| "mcp_json_clone (Some (JBool b)) = mcp_json_bool_new b"
| "mcp_json_clone (Some (JNumber n)) = mcp_json_number_new n"
| "mcp_json_clone (Some (JString s)) = mcp_json_string_new (Some s)"
| "mcp_json_clone (Some (JArray xs cap)) = do {
     out \<leftarrow> mcp_json_array_new;
     (case out of None \<Rightarrow> ret None | Some out \<Rightarrow> clone_items xs out)
   }"
| "mcp_json_clone (Some (JObject ms cap)) = do {
     out \<leftarrow> mcp_json_object_new;
     (case out of None \<Rightarrow> ret None | Some out \<Rightarrow> clone_members ms cap ms out)
   }"
| "clone_items [] out = ret (Some out)"
| "clone_items (x # xs) out = do {
     item \<leftarrow> mcp_json_clone (Some x);
     (case item of
        None \<Rightarrow> do { mcp_json_destroy item; mcp_json_destroy (Some out); ret None }
      | Some _ \<Rightarrow> do {
          r \<leftarrow> mcp_json_array_append (Some out) item;
          (case r of
             (MCP_OK, Some out') \<Rightarrow> clone_items xs out'
           | (_, out') \<Rightarrow> do { mcp_json_destroy item; mcp_json_destroy out'; ret None })
        })
   }"
| "clone_members ms cap [] out = ret (Some out)"
| "clone_members ms cap ((key, _) # rest) out = do {
     item \<leftarrow> mcp_json_clone (mcp_json_object_get (Some (JObject ms cap)) key);
     (case item of
        None \<Rightarrow> do { mcp_json_destroy item; mcp_json_destroy (Some out); ret None }
      | Some _ \<Rightarrow> do {
          r \<leftarrow> mcp_json_object_set (Some out) (Some key) item;
          (case r of
             (MCP_OK, Some out') \<Rightarrow> clone_members ms cap rest out'
           | (_, out') \<Rightarrow> do { mcp_json_destroy item; mcp_json_destroy out'; ret None })
        })
   }"
  by pat_completeness auto

termination
  by (relation "inv_image (less_than <*lex*> less_than)
        (case_sum (\<lambda>v. (case v of None \<Rightarrow> 0 | Some v \<Rightarrow> size v, 0))
           (case_sum (\<lambda>(xs, out). (size_list size xs, 1 + length xs))
             (\<lambda>(ms, cap, rest, out). (size_list (size_prod (\<lambda>_. 0) size) ms, 1 + length rest))))")
     (auto simp: builtin_object_get_def dest: lookup_member_size split: option.splits)

section \<open>The value a clone has\<close>

text \<open>The capacity of a container filled by appending \<open>n\<close> entries.\<close>

fun cap_for :: "nat \<Rightarrow> nat" where
  "cap_for 0 = 0"
| "cap_for (Suc n) = (if n = cap_for n then next_cap (cap_for n) else cap_for n)"

fun recap :: "json \<Rightarrow> json" where
  "recap (JArray xs cap) = JArray (map recap xs) (cap_for (length xs))"
| "recap (JObject ms cap) = JObject (map (\<lambda>m. (fst m, recap (snd m))) ms) (cap_for (length ms))"
| "recap v = v"

lemma cap_for_bound: "n \<le> cap_for n"
  by (induction n) (auto simp: next_cap_def)

lemma wf_recap: "wf_json v \<Longrightarrow> wf_json (recap v)"
  by (induction v rule: recap.induct) (auto simp: cap_for_bound comp_def)

lemma recap_recap [simp]: "recap (recap v) = recap v"
  by (induction v rule: recap.induct) auto

text \<open>What an allocating function promises: a result \<open>w\<close> with exactly its blocks
  allocated, or NULL with no block left behind; NULL only if \<open>good\<close> fails or the
  allocator does.\<close>

definition builds :: "bool \<Rightarrow> (json \<Rightarrow> bool) \<Rightarrow> 'z heap_scheme \<Rightarrow> json option \<Rightarrow> 'z heap_scheme \<Rightarrow> bool" where
  "builds good P h r h' \<longleftrightarrow>
     (case r of
        None \<Rightarrow> (\<not> good \<or> script h \<noteq> []) \<and> (\<exists>n \<le> 0. steps n h h')
      | Some w \<Rightarrow> P w \<and> steps (blocks w) h h')"

lemma builds_None: "(\<not> good \<or> script h \<noteq> []) \<Longrightarrow> steps n h h' \<Longrightarrow> n \<le> 0 \<Longrightarrow> builds good P h None h'"
  by (auto simp: builds_def)

lemma builds_Some [simp]: "builds good P h (Some w) h' \<longleftrightarrow> P w \<and> steps (blocks w) h h'"
  by (simp add: builds_def)

lemma builds_NoneE:
  assumes "builds good P h None h'"
  obtains n where "n \<le> 0" "steps n h h'" "\<not> good \<or> script h \<noteq> []"
  using assms by (auto simp: builds_def)

lemma wp_clone_items_step:
  assumes item: "wp (mcp_json_clone (Some x)) (builds True (\<lambda>w. w = u) h) h"
    and out: "is_array out" "steps (blocks out) h0 h"
    and rest: "\<And>h'. steps (blocks (array_put out u)) h0 h' \<Longrightarrow>
      wp (clone_items xs (array_put out u)) (builds True P h0) h'"
  shows "wp (clone_items (x # xs) out) (builds True P h0) h"
  using item unfolding clone_items.simps wp_bind
proof (rule wp_mono, goal_cases)
  case (1 r h1)
  show ?case
  proof (cases r)
    case None
    with 1 obtain n where "n \<le> 0" "steps n h h1" "script h \<noteq> []" by (auto elim: builds_NoneE)
    with None out(2) show ?thesis by (auto intro!: builds_None [where n = n] simp: steps_def)
  next
    case (Some w)
    with 1 have w: "w = u" and s1: "steps (blocks w) h h1" by auto
    show ?thesis unfolding Some w option.case wp_bind
    proof (rule wp_builtin_array_append [OF out(1)], goal_cases)
      case (1 h2)
      then have "steps (blocks (array_put out u)) h0 h2" using s1 out(2) w by (simp add: steps_def)
      from rest [OF this] show ?case by simp
    next
      case (2 h2)
      then show ?case using s1 out(2) w by (auto intro!: builds_None [where n = 0] simp: steps_def)
    qed
  qed
qed

lemma wp_clone_members_step:
  assumes item: "wp (mcp_json_clone (mcp_json_object_get (Some (JObject ms cap)) key)) (builds True (\<lambda>w. w = u) h) h"
    and out: "is_object out" "steps (blocks out) h0 h" and key: "utf8_valid key"
    and rest: "\<And>h'. steps (blocks (object_put out key u)) h0 h' \<Longrightarrow>
      wp (clone_members ms cap rest (object_put out key u)) (builds True P h0) h'"
  shows "wp (clone_members ms cap ((key, v) # rest) out) (builds True P h0) h"
  using item unfolding clone_members.simps wp_bind
proof (rule wp_mono, goal_cases)
  case (1 r h1)
  show ?case
  proof (cases r)
    case None
    with 1 obtain n where "n \<le> 0" "steps n h h1" "script h \<noteq> []" by (auto elim: builds_NoneE)
    with None out(2) show ?thesis by (auto intro!: builds_None [where n = n] simp: steps_def)
  next
    case (Some w)
    with 1 have w: "w = u" and s1: "steps (blocks w) h h1" by auto
    show ?thesis unfolding Some w option.case wp_bind
    proof (rule wp_builtin_object_set [OF out(1)], goal_cases)
      case (1 h2)
      then have "steps (blocks (object_put out key u)) h0 h2" using s1 out(2) w by (simp add: steps_def)
      from rest [OF this] show ?case by simp
    next
      case (3 ms' cap' cap'' h2 n)
      then show ?case using s1 out(2) w
        by (auto intro!: builds_None [where n = "n + blocks out - blocks (JObject ms' cap'')"] simp: steps_def)
    qed (use key in simp)
  qed
qed

lemma mcp_json_clone_builds_all:
  fixes h :: "'z heap_scheme"
  shows "(\<forall>u. v = Some u \<longrightarrow> wf_json u) \<Longrightarrow>
      wp (mcp_json_clone v) (builds (v \<noteq> None) (\<lambda>w. Some w = map_option recap v) h) h"
    and "\<forall>x \<in> set xs. wf_json x \<Longrightarrow> out = JArray (map recap ys) (cap_for (length ys)) \<Longrightarrow>
      steps (blocks out) h0 h \<Longrightarrow>
      wp (clone_items xs out)
        (builds True (\<lambda>w. w = JArray (map recap (ys @ xs)) (cap_for (length (ys @ xs)))) h0) h"
    and "wf_json (JObject ms cap) \<Longrightarrow> ms = ds @ rest \<Longrightarrow>
      out' = recap (JObject ds c) \<Longrightarrow> steps (blocks out') h0 h \<Longrightarrow>
      wp (clone_members ms cap rest out') (builds True (\<lambda>w. w = recap (JObject ms c)) h0) h"
proof (induction v and xs out and ms cap rest out' arbitrary: h and h h0 ys and h h0 ds
    rule: mcp_json_clone_clone_items_clone_members.induct)
  case 1
  then show ?case by (auto intro: builds_None steps_refl)
next
  case 2
  show ?case unfolding mcp_json_clone.simps new_leaf_defs
    by (rule wp_new_leaf) (auto intro: builds_None)
next
  case (3 b)
  show ?case unfolding mcp_json_clone.simps new_leaf_defs
    by (rule wp_new_leaf) (auto intro: builds_None)
next
  case (4 n)
  then have f: "isfinite n" by simp
  show ?case using f unfolding mcp_json_clone.simps builtin_new_number_def
    by (simp del: wp_bind) (rule wp_new_leaf; auto intro: builds_None)
next
  case (5 s)
  then have "wf_text s" "cstr s = s" by (auto simp: wf_text_def cstr_def takeWhile_eq_all_conv)
  then show ?case unfolding mcp_json_clone.simps mcp_json_string_new_def
    by (simp del: wp_bind) (rule wp_builtin_new_string_n; auto intro: builds_None)
next
  case (6 xs cap)
  show ?case unfolding mcp_json_clone.simps new_leaf_defs wp_bind [of _ "case_option _ _"]
    apply (rule wp_new_leaf)
    subgoal for h'
      using 6 by simp (rule 6(1) [where ys = "[]", simplified]; simp)
    by (auto intro: builds_None)
next
  case (7 ms cap)
  show ?case unfolding mcp_json_clone.simps new_leaf_defs wp_bind [of _ "case_option _ _"]
    apply (rule wp_new_leaf)
    subgoal for h'
      using 7(2) by (simp del: wf_json.simps) (rule 7(1) [where ds = "[]", simplified]; simp)
    by (auto intro: builds_None)
next
  case (8 out)
  then show ?case by simp
next
  case (9 x xs out)
  let ?ys = "ys @ [x]"
  let ?P = "\<lambda>w. w = JArray (map recap (?ys @ xs)) (cap_for (length (?ys @ xs)))"
  have out: "array_put out (recap x) = JArray (map recap ?ys) (cap_for (length ?ys))"
    using 9 by simp
  have "wp (clone_items xs (array_put out (recap x))) (builds True ?P h0) h'"
    if "steps (blocks (array_put out (recap x))) h0 h'" for h'
    by (rule 9(2)) (use 9(3) out that in simp_all)
  moreover have "is_array out" using 9(4) by (simp add: is_array_def)
  moreover have "wp (mcp_json_clone (Some x)) (builds True (\<lambda>w. w = recap x) h) h"
    using 9(1) [of h] 9(3) by simp
  ultimately have "wp (clone_items (x # xs) out) (builds True ?P h0) h"
    using 9(5) by (intro wp_clone_items_step)
  then show ?case by simp
next
  case (10 ms cap out)
  then show ?case by simp
next
  case (11 ms cap key v rest out)
  let ?ds = "ds @ [(key, v)]"
  have wf: "wf_json v" "utf8_valid key" and ms: "ms = ?ds @ rest"
    and new: "lookup_member ds key = None"
    using 11(3,4) by (auto simp: wf_text_def lookup_member_None)
  then have get: "lookup_member ms key = Some v" by (simp add: lookup_member_append)
  have obj: "is_object out" using 11(5) by (simp add: is_object_def)
  have out: "object_put out key (recap v) = recap (JObject ?ds c)"
    using 11(5) new by (simp add: lookup_member_None image_image)
  have "wp (clone_members ms cap rest (object_put out key (recap v)))
      (builds True (\<lambda>w. w = recap (JObject ms c)) h0) h'"
    if "steps (blocks (object_put out key (recap v))) h0 h'" for h'
    by (rule 11(2)) (use 11(3) ms out that in \<open>simp_all del: wf_json.simps recap.simps\<close>)
  moreover have "wp (mcp_json_clone (builtin_object_get (Some (JObject ms cap)) key))
      (builds True (\<lambda>w. w = recap v) h) h"
    using 11(1) [of h] wf get by (simp add: builtin_object_get_def)
  ultimately show ?case using obj wf(2) 11(6) by (intro wp_clone_members_step) auto
qed

lemma mcp_json_clone_builds:
  "wf_json u \<Longrightarrow> wp (mcp_json_clone (Some u)) (builds True (\<lambda>w. w = recap u) h) h"
  using mcp_json_clone_builds_all(1) [of "Some u" h] by simp

section \<open>Constructors as a contract\<close>

text \<open>\<open>creates good v mk\<close>: for any behaviour of the allocator \<open>mk\<close> returns the fresh value \<open>v\<close>,
  or NULL with nothing allocated, and NULL only if \<open>good\<close> fails or the allocator does.\<close>

definition creates :: "bool \<Rightarrow> json \<Rightarrow> ('z heap_scheme, json option) state \<Rightarrow> bool" where
  "creates good v mk \<longleftrightarrow>
     (\<forall>h. wp mk (\<lambda>r h'. case r of
          None \<Rightarrow> (\<not> good \<or> script h \<noteq> []) \<and> steps 0 h h'
        | Some w \<Rightarrow> w = v \<and> good \<and> steps (blocks v) h h') h)"

lemma createsI:
  assumes "\<And>h Q. (\<And>h'. good \<Longrightarrow> steps (blocks v) h h' \<Longrightarrow> Q (Some v) h') \<Longrightarrow>
    (\<And>h'. \<not> good \<or> script h \<noteq> [] \<Longrightarrow> steps 0 h h' \<Longrightarrow> Q None h') \<Longrightarrow> wp mk Q h"
  shows "creates good v mk"
  unfolding creates_def by (intro allI assms) simp_all

lemma wp_creates:
  assumes "creates good v mk"
    and "\<And>h'. good \<Longrightarrow> steps (blocks v) h h' \<Longrightarrow> Q (Some v) h'"
    and "\<And>h'. \<not> good \<or> script h \<noteq> [] \<Longrightarrow> steps 0 h h' \<Longrightarrow> Q None h'"
  shows "wp mk Q h"
  using assms(1) unfolding creates_def
  by (elim allE [of _ h], elim wp_mono) (use assms(2,3) in \<open>auto split: option.splits\<close>)

lemma creates_string_new: "creates (wf_text (cstr s)) (JString (cstr s)) (mcp_json_string_new (Some s))"
  unfolding mcp_json_string_new_def option.case
  by (rule createsI, rule wp_builtin_new_string_n) simp_all

lemma creates_number_new: "creates (isfinite x) (JNumber x) (builtin_new_number x)"
proof (cases "isfinite x")
  case True
  have "creates True (JNumber x) (do { ok \<leftarrow> value_new; ret (if ok then Some (JNumber x) else None) } ::
      ('a heap_scheme, json option) state)"
    by (rule createsI, rule wp_new_leaf) simp_all
  with True show ?thesis by (simp add: builtin_new_number_def)
qed (simp add: builtin_new_number_def creates_def)

lemma creates_leaf:
  "creates True JNull builtin_new_null" "creates True (JBool b) (builtin_new_bool b)"
  "creates True (JArray [] 0) builtin_new_array" "creates True (JObject [] 0) builtin_new_object"
  by (rule createsI, rule wp_new_null wp_new_bool wp_new_array wp_new_object; simp)+

lemma creates_yields: "creates True v mk \<Longrightarrow> yields mk (Some v)"
  by (rule yieldsI, erule wp_creates) (auto simp: steps_def)

text \<open>What a proof simplifies with between two calls of a builder.\<close>

lemmas vc_simps = some_none simp_thms if_True if_False option.case prod.case fst_conv snd_conv wp_return

section \<open>Filling small objects\<close>

text \<open>Up to four members the arrays of an object are allocated once and never grow.\<close>

lemma wp_object_set_small:
  assumes "length ms < cap \<or> cap = 0" and "lookup_member ms key = None" and "utf8_valid key"
    and "\<And>h'. steps (blocks (object_put (JObject ms cap) key val) - blocks (JObject ms cap) - blocks val) h h' \<Longrightarrow>
      Q (MCP_OK, Some (object_put (JObject ms cap) key val)) h'"
    and "\<And>cap' h'. script h \<noteq> [] \<Longrightarrow> steps (blocks (JObject ms cap') - blocks (JObject ms cap)) h h' \<Longrightarrow>
      Q (MCP_ERR_NOMEM, Some (JObject ms cap')) h'"
  shows "wp (builtin_object_set (Some (JObject ms cap)) (Some key) (Some val)) Q h"
  by (rule wp_builtin_object_set) (use assms in \<open>auto simp: is_object_def\<close>)

lemma wp_set_take_small:
  assumes "length ms < cap \<or> cap = 0" and "lookup_member ms key = None" and "utf8_valid key"
    and "\<And>h'. steps (blocks (object_put (JObject ms cap) key val) - blocks (JObject ms cap) - blocks val) h h' \<Longrightarrow>
      Q (MCP_OK, Some (object_put (JObject ms cap) key val)) h'"
    and "\<And>cap' h'. script h \<noteq> [] \<Longrightarrow> steps (blocks (JObject ms cap') - blocks (JObject ms cap) - blocks val) h h' \<Longrightarrow>
      Q (MCP_ERR_NOMEM, Some (JObject ms cap')) h'"
  shows "wp (mcp_json_object_set_take (Some (JObject ms cap)) (Some key) (Some val)) Q h"
  unfolding mcp_json_object_set_take_def wp_bind
  by (rule wp_object_set_small) (use assms in \<open>auto simp: steps_def\<close>)

text \<open>The chain of \<open>mcp_json_object_set\<close> calls of a builder: when one fails, its value, the values
  not yet attached and the object are destroyed.\<close>

fun set_members :: "json \<Rightarrow> (string \<times> json) list \<Rightarrow> ('z heap_scheme, json option) state" where
  "set_members obj [] = ret (Some obj)"
| "set_members obj ((key, v) # rest) = do {
     r \<leftarrow> mcp_json_object_set (Some obj) (Some key) (Some v);
     (if fst r \<noteq> MCP_OK then do { destroy_items (v # map snd rest); mcp_json_destroy (snd r); ret None }
      else (case snd r of None \<Rightarrow> ret None | Some obj \<Rightarrow> set_members obj rest))
   }"

lemma wp_set_members:
  assumes "length ms + length kvs \<le> 4" and "cap = 4 \<or> cap = 0 \<and> ms = []" and "distinct (map fst (ms @ kvs))"
    and "\<forall>kv \<in> set kvs. utf8_valid (fst kv)"
    and "\<And>h'. steps (blocks (JObject (ms @ kvs) (if kvs = [] then cap else 4)) - blocks (JObject ms cap)
        - sum_list (map (\<lambda>kv. blocks (snd kv)) kvs)) h h' \<Longrightarrow>
      Q (Some (JObject (ms @ kvs) (if kvs = [] then cap else 4))) h'"
    and "\<And>h'. script h \<noteq> [] \<Longrightarrow>
      steps (- blocks (JObject ms cap) - sum_list (map (\<lambda>kv. blocks (snd kv)) kvs)) h h' \<Longrightarrow> Q None h'"
  shows "wp (set_members (JObject ms cap) kvs) Q h"
  using assms
proof (induction kvs arbitrary: ms cap h)
  case (Cons kv rest)
  obtain k v where kv: "kv = (k, v)" by (cases kv)
  have k: "lookup_member ms k = None" using Cons.prems(3) by (force simp: kv lookup_member_None)
  show ?case unfolding kv set_members.simps wp_bind [of "builtin_object_set _ _ _"]
  proof (rule wp_object_set_small, goal_cases)
    case (4 h1)
    have put: "object_put (JObject ms cap) k v = JObject (ms @ [(k, v)]) 4"
      using Cons.prems(1,2) k by (auto simp: next_cap_def)
    have "wp (set_members (JObject (ms @ [(k, v)]) 4) rest) Q h1"
      by (rule Cons.IH) (use 4 put Cons.prems in \<open>auto simp: kv steps_def\<close>)
    with put show ?case by simp
  next
    case (5 cap' h1)
    then show ?case
      by (auto intro!: Cons.prems(6) simp: kv steps_def comp_def)
  qed (use Cons.prems k in \<open>auto simp: kv\<close>)
qed simp

section \<open>Properties of cloning\<close>

text \<open>
  C22: cloning a well-formed tree. Whatever the allocator does, a clone is the same tree with
  freshly grown containers and exactly its blocks allocated; a failed clone leaves no block
  behind, and cloning fails only if an allocation does.
\<close>

theorem mcp_json_clone_correct:
  assumes "wf_json u" and "run_state (mcp_json_clone (Some u)) h = (r, h')"
  shows "case r of
      Some w \<Rightarrow> w = recap u \<and> live h' = live h + blocks w
    | None \<Rightarrow> live h' \<le> live h \<and> script h \<noteq> []"
  using mcp_json_clone_builds [OF assms(1), of h] assms(2)
  by (auto simp: wp_run_state builds_def steps_def split: option.splits)

theorem mcp_json_clone_correct_witness:
  "case Some (JArray [JNull] 4) of
      Some w \<Rightarrow> w = recap (JArray [JNull] 7) \<and> live \<lparr>live = 3, script = []\<rparr> = live \<lparr>live = 0, script = []\<rparr> + blocks w
    | None \<Rightarrow> live \<lparr>live = 3, script = []\<rparr> \<le> live \<lparr>live = 0, script = []\<rparr> \<and> script \<lparr>live = 0, script = []\<rparr> \<noteq> []"
proof -
  have "run_state (mcp_json_clone (Some (JArray [JNull] 7))) \<lparr>live = 0, script = []\<rparr> =
    (Some (JArray [JNull] 4), \<lparr>live = 3, script = []\<rparr>)"
    by (simp add: builtin_new_array_def builtin_new_null_def value_new_def builtin_array_append_def
        xrealloc_def xmalloc_def next_outcome_def add_live_def next_cap_def)
  then show ?thesis by (intro mcp_json_clone_correct) simp_all
qed

end
