(* ===== verification/Json_Grammar.thy ===== *)
theory Json_Grammar
  imports Json_Api
begin

text \<open>
  The lexical functions of the parser of src/json/builtin.c (\<open>skip_ws\<close>, \<open>match_lit\<close>,
  \<open>scan_number\<close>, \<open>parse_hex4\<close>, the escapes), which allocate nothing, and an inductive
  grammar of JSON texts (RFC 8259) they are compared with. A parser position is the list
  of characters from \<open>ps->p\<close> to \<open>ps->end\<close>.
\<close>

section \<open>Lexical functions\<close>

definition is_ws :: "char \<Rightarrow> bool" where
  "is_ws c \<longleftrightarrow> c = CHR '' '' \<or> c = CHR 0x09 \<or> c = CHR 0x0A \<or> c = CHR 0x0D"

definition skip_ws :: "string \<Rightarrow> string" where
  "skip_ws p = dropWhile is_ws p"

definition match_lit :: "string \<Rightarrow> string \<Rightarrow> string option" where
  "match_lit p lit =
     (let n = length lit
      in if length p < n \<or> take n p \<noteq> lit then None else Some (drop n p))"

text \<open>The three parts of \<open>scan_number\<close>, each from the position it starts at to the
  position it ends at.\<close>

definition scan_exp :: "string \<Rightarrow> string option" where
  "scan_exp s =
     (if s \<noteq> [] \<and> (hd s = CHR ''e'' \<or> hd s = CHR ''E'') then
        (let s = tl s;
             e = (if s \<noteq> [] \<and> (hd s = CHR ''+'' \<or> hd s = CHR ''-'') then tl s else s);
             s = dropWhile is_digit e
         in if s = e then None else Some s)
      else Some s)"

definition scan_frac :: "string \<Rightarrow> string option" where
  "scan_frac s =
     (if s \<noteq> [] \<and> hd s = CHR ''.'' then
        (let f = tl s; s = dropWhile is_digit f
         in if s = f then None else scan_exp s)
      else scan_exp s)"

definition scan_number :: "string \<Rightarrow> nat option" where
  "scan_number p =
     (let s = (if p \<noteq> [] \<and> hd p = CHR ''-'' then tl p else p);
          rest = (if s = [] then None
                  else if hd s = CHR ''0'' then scan_frac (tl s)
                  else if is_digit (hd s) then scan_frac (dropWhile is_digit s)
                  else None)
      in map_option (\<lambda>rest. length p - length rest) rest)"

definition hex4_digit :: "char \<Rightarrow> nat option" where
  "hex4_digit c =
     (let n = code c
      in if 48 \<le> n \<and> n \<le> 57 then Some (n - 48)
         else if 97 \<le> n \<and> n \<le> 102 then Some (n - 97 + 10)
         else if 65 \<le> n \<and> n \<le> 70 then Some (n - 65 + 10)
         else None)"

fun hex_loop :: "nat \<Rightarrow> nat \<Rightarrow> string \<Rightarrow> (nat \<times> string) option" where
  "hex_loop 0 v p = Some (v, p)"
| "hex_loop (Suc i) v [] = None"
| "hex_loop (Suc i) v (c # p) =
     (case hex4_digit c of None \<Rightarrow> None | Some d \<Rightarrow> hex_loop i (v * 16 + d) p)"

definition parse_hex4 :: "string \<Rightarrow> (nat \<times> string) option" where
  "parse_hex4 p = (if length p < 4 then None else hex_loop 4 0 p)"

text \<open>The code point of a \<open>\u\<close> escape and the position after it.\<close>

definition unicode_escape :: "string \<Rightarrow> (nat \<times> string) option" where
  "unicode_escape p =
     (case parse_hex4 p of
        None \<Rightarrow> None
      | Some (hi, p) \<Rightarrow>
          if 0xD800 \<le> hi \<and> hi \<le> 0xDBFF then
            (if length p < 6 \<or> p ! 0 \<noteq> CHR 0x5C \<or> p ! 1 \<noteq> CHR ''u'' then None
             else (case parse_hex4 (drop 2 p) of
                     None \<Rightarrow> None
                   | Some (lo, p) \<Rightarrow>
                       if lo < 0xDC00 \<or> 0xDFFF < lo then None
                       else Some (0x10000 + (hi - 0xD800) * 1024 + (lo - 0xDC00), p)))
          else if 0xDC00 \<le> hi \<and> hi \<le> 0xDFFF then None
          else if 0x10FFFF < hi then None
          else Some (hi, p))"

definition simple_escape :: "char \<Rightarrow> char option" where
  "simple_escape e =
     (if e = CHR 0x22 \<or> e = CHR 0x5C \<or> e = CHR ''/'' then Some e
      else if e = CHR ''b'' then Some (CHR 0x08)
      else if e = CHR ''f'' then Some (CHR 0x0C)
      else if e = CHR ''n'' then Some (CHR 0x0A)
      else if e = CHR ''r'' then Some (CHR 0x0D)
      else if e = CHR ''t'' then Some (CHR 0x09)
      else None)"

text \<open>What one step of the string loop reads: the bytes it appends and the position after
  them.\<close>

definition string_item :: "string \<Rightarrow> (string \<times> string) option" where
  "string_item p =
     (case p of
        [] \<Rightarrow> None
      | c # p \<Rightarrow>
          if c = CHR 0x22 then None
          else if c = CHR 0x5C then
            (case p of
               [] \<Rightarrow> None
             | e # p \<Rightarrow>
                 if e = CHR ''u'' then
                   map_option (\<lambda>(cp, p). (utf8_encode cp, p)) (unicode_escape p)
                 else map_option (\<lambda>x. ([x], p)) (simple_escape e))
          else if code c < 0x20 then None
          else Some ([c], p))"

section \<open>The grammar\<close>

definition ws :: "string \<Rightarrow> bool" where
  "ws w \<longleftrightarrow> list_all is_ws w"

definition json_int :: "string \<Rightarrow> bool" where
  "json_int s \<longleftrightarrow> list_all is_digit s \<and> s \<noteq> [] \<and> (s = ''0'' \<or> hd s \<noteq> CHR ''0'')"

definition json_frac :: "string \<Rightarrow> bool" where
  "json_frac s \<longleftrightarrow> s = [] \<or> (\<exists>ds. s = CHR ''.'' # ds \<and> list_all is_digit ds \<and> ds \<noteq> [])"

definition json_exp :: "string \<Rightarrow> bool" where
  "json_exp s \<longleftrightarrow> s = [] \<or>
     (\<exists>e sgn ds. s = e # sgn @ ds \<and> e \<in> {CHR ''e'', CHR ''E''} \<and> sgn \<in> {'''', ''+'', ''-''} \<and>
        list_all is_digit ds \<and> ds \<noteq> [])"

definition json_number :: "string \<Rightarrow> bool" where
  "json_number s \<longleftrightarrow>
     (\<exists>sgn i f e. s = sgn @ i @ f @ e \<and> sgn \<in> {'''', ''-''} \<and> json_int i \<and> json_frac f \<and> json_exp e)"

text \<open>Four hexadecimal digits and their value.\<close>

definition hex4 :: "string \<Rightarrow> nat \<Rightarrow> bool" where
  "hex4 s n \<longleftrightarrow> (\<exists>a b c d. map hex4_digit s = map Some [a, b, c, d] \<and> n = ((a * 16 + b) * 16 + c) * 16 + d)"

text \<open>\<open>json_chars s t\<close>: between the quotes, \<open>s\<close> denotes the bytes \<open>t\<close>.\<close>

inductive json_chars :: "string \<Rightarrow> string \<Rightarrow> bool" where
  empty: "json_chars [] []"
| unescaped: "c \<noteq> CHR 0x22 \<Longrightarrow> c \<noteq> CHR 0x5C \<Longrightarrow> 0x20 \<le> code c \<Longrightarrow> json_chars s t \<Longrightarrow>
    json_chars (c # s) (c # t)"
| simple: "simple_escape e = Some x \<Longrightarrow> json_chars s t \<Longrightarrow> json_chars (CHR 0x5C # e # s) (x # t)"
| unicode: "hex4 h n \<Longrightarrow> n < 0xD800 \<or> 0xDFFF < n \<Longrightarrow> json_chars s t \<Longrightarrow>
    json_chars (CHR 0x5C # CHR ''u'' # h @ s) (utf8_encode n @ t)"
| surrogates: "hex4 h hi \<Longrightarrow> 0xD800 \<le> hi \<Longrightarrow> hi \<le> 0xDBFF \<Longrightarrow>
    hex4 l lo \<Longrightarrow> 0xDC00 \<le> lo \<Longrightarrow> lo \<le> 0xDFFF \<Longrightarrow> json_chars s t \<Longrightarrow>
    json_chars (CHR 0x5C # CHR ''u'' # h @ CHR 0x5C # CHR ''u'' # l @ s)
      (utf8_encode (0x10000 + (hi - 0xD800) * 1024 + (lo - 0xDC00)) @ t)"

definition json_string :: "string \<Rightarrow> string \<Rightarrow> bool" where
  "json_string s t \<longleftrightarrow> (\<exists>b. s = CHR 0x22 # b @ [CHR 0x22] \<and> json_chars b t \<and> utf8_valid t)"

text \<open>The object built from its members in order: a later member with the same key
  replaces the value of the earlier one.\<close>

definition object_of :: "(string \<times> json) list \<Rightarrow> json" where
  "object_of kvs = foldl (\<lambda>obj kv. object_put obj (fst kv) (snd kv)) (JObject [] 0) kvs"

definition array_of :: "json list \<Rightarrow> json" where
  "array_of vs = foldl array_put (JArray [] 0) vs"

text \<open>\<open>json_text d s v\<close>: \<open>s\<close> is a JSON text nested at most \<open>d\<close> deep, with value \<open>v\<close>. The
  values of strings and keys end at the first NUL, as C strings do.\<close>

inductive json_text :: "nat \<Rightarrow> string \<Rightarrow> json \<Rightarrow> bool"
and json_elems :: "nat \<Rightarrow> string \<Rightarrow> json list \<Rightarrow> bool"
and json_members :: "nat \<Rightarrow> string \<Rightarrow> (string \<times> json) list \<Rightarrow> bool" where
  null: "json_text d ''null'' JNull"
| true: "json_text d ''true'' (JBool True)"
| false: "json_text d ''false'' (JBool False)"
| number: "json_number s \<Longrightarrow> strtod s = (x, []) \<Longrightarrow> isfinite x \<Longrightarrow> json_text d s (JNumber x)"
| string: "json_string s t \<Longrightarrow> json_text d s (JString (cstr t))"
| array_empty: "ws w \<Longrightarrow> json_text (Suc d) (CHR ''['' # w @ '']'') (JArray [] 0)"
| array: "json_elems d s vs \<Longrightarrow> json_text (Suc d) (CHR ''['' # s @ '']'') (array_of vs)"
| object_empty: "ws w \<Longrightarrow> json_text (Suc d) (CHR ''{'' # w @ ''}'') (JObject [] 0)"
| object: "json_members d s kvs \<Longrightarrow> json_text (Suc d) (CHR ''{'' # s @ ''}'') (object_of kvs)"
| elem: "ws w \<Longrightarrow> json_text d s v \<Longrightarrow> ws w' \<Longrightarrow> json_elems d (w @ s @ w') [v]"
| elems: "ws w \<Longrightarrow> json_text d s v \<Longrightarrow> ws w' \<Longrightarrow> json_elems d r vs \<Longrightarrow>
    json_elems d (w @ s @ w' @ CHR '','' # r) (v # vs)"
| member: "ws w \<Longrightarrow> json_string k t \<Longrightarrow> ws w1 \<Longrightarrow> ws w2 \<Longrightarrow> json_text d s v \<Longrightarrow> ws w' \<Longrightarrow>
    json_members d (w @ k @ w1 @ CHR '':'' # w2 @ s @ w') [(cstr t, v)]"
| members: "ws w \<Longrightarrow> json_string k t \<Longrightarrow> ws w1 \<Longrightarrow> ws w2 \<Longrightarrow> json_text d s v \<Longrightarrow> ws w' \<Longrightarrow>
    json_members d r kvs \<Longrightarrow>
    json_members d (w @ k @ w1 @ CHR '':'' # w2 @ s @ w' @ CHR '','' # r) ((cstr t, v) # kvs)"

text \<open>A document: a text with white space around it.\<close>

definition json_document :: "nat \<Rightarrow> string \<Rightarrow> json \<Rightarrow> bool" where
  "json_document d text v \<longleftrightarrow>
     (\<exists>w s w'. text = w @ s @ w' \<and> ws w \<and> ws w' \<and> json_text d s v)"

section \<open>White space\<close>

lemma skip_ws_prefix [simp]: "ws w \<Longrightarrow> skip_ws (w @ p) = skip_ws p"
  by (induction w) (auto simp: ws_def skip_ws_def)

lemma skip_ws_split: obtains w where "p = w @ skip_ws p" and "ws w"
proof
  show "p = takeWhile is_ws p @ skip_ws p" by (simp add: skip_ws_def)
  show "ws (takeWhile is_ws p)" by (auto simp: ws_def list_all_iff dest: set_takeWhileD)
qed

lemma skip_ws_stop: "p = [] \<or> \<not> is_ws (hd p) \<Longrightarrow> skip_ws p = p"
  by (cases p) (auto simp: skip_ws_def)

lemma skip_ws_idem [simp]: "skip_ws (skip_ws p) = skip_ws p"
  by (induction p) (auto simp: skip_ws_def)

lemma skip_ws_Nil [simp]: "skip_ws [] = []"
  by (simp add: skip_ws_def)

lemma skip_ws_all: "ws w \<Longrightarrow> skip_ws w = []"
  using skip_ws_prefix [of w "[]"] by simp

lemma skip_ws_all_iff: "skip_ws p = [] \<longleftrightarrow> ws p"
  by (auto simp: skip_ws_def ws_def list_all_iff)

lemma ws_append [simp]: "ws (w @ w') \<longleftrightarrow> ws w \<and> ws w'"
  by (simp add: ws_def)

lemma ws_Nil [simp]: "ws []"
  by (simp add: ws_def)

section \<open>Escapes\<close>

lemma hex4_length: "hex4 h n \<Longrightarrow> length h = 4"
  by (auto simp: hex4_def dest: arg_cong [where f = length])

lemma hex4_digit_less: "hex4_digit c = Some d \<Longrightarrow> d < 16"
  by (auto simp: hex4_digit_def Let_def split: if_splits)

lemma hex4_less: "hex4 h n \<Longrightarrow> n < 65536"
  by (auto simp: hex4_def map_eq_Cons_conv dest!: hex4_digit_less)

lemma parse_hex4_iff: "parse_hex4 p = Some (n, q) \<longleftrightarrow> (\<exists>h. p = h @ q \<and> hex4 h n)"
proof
  assume "parse_hex4 p = Some (n, q)"
  then have l: "\<not> length p < 4" and e: "hex_loop 4 0 p = Some (n, q)"
    by (auto simp: parse_hex4_def split: if_splits)
  from l obtain a b c d r where p: "p = a # b # c # d # r"
    by (cases p; cases "tl p"; cases "tl (tl p)"; cases "tl (tl (tl p))") (auto simp: neq_Nil_conv)
  from e show "\<exists>h. p = h @ q \<and> hex4 h n"
    unfolding p by (intro exI [of _ "[a, b, c, d]"])
      (auto simp: hex4_def numeral_eq_Suc split: option.splits)
next
  assume "\<exists>h. p = h @ q \<and> hex4 h n"
  then obtain a b c d where "p = a # b # c # d # q" and "hex4 [a, b, c, d] n"
    using hex4_length by (force simp: length_Suc_conv numeral_eq_Suc)
  then show "parse_hex4 p = Some (n, q)"
    by (auto simp: hex4_def parse_hex4_def numeral_eq_Suc)
qed

lemma unicode_escape_plain:
  "hex4 h n \<Longrightarrow> n < 0xD800 \<or> 0xDFFF < n \<Longrightarrow> unicode_escape (h @ q) = Some (n, q)"
  using hex4_less [of h n] parse_hex4_iff [of "h @ q" n q] by (auto simp: unicode_escape_def)

lemma unicode_escape_pair:
  assumes "hex4 h hi" and "0xD800 \<le> hi" and "hi \<le> 0xDBFF"
    and "hex4 l lo" and "0xDC00 \<le> lo" and "lo \<le> 0xDFFF"
  shows "unicode_escape (h @ CHR 0x5C # CHR ''u'' # l @ q) =
    Some (0x10000 + (hi - 0xD800) * 1024 + (lo - 0xDC00), q)"
proof -
  have "parse_hex4 (h @ CHR 0x5C # CHR ''u'' # l @ q) = Some (hi, CHR 0x5C # CHR ''u'' # l @ q)"
    and "parse_hex4 (l @ q) = Some (lo, q)"
    using assms(1,4) by (auto simp: parse_hex4_iff)
  then show ?thesis
    using assms hex4_length [OF assms(4)] by (simp add: unicode_escape_def numeral_2_eq_2)
qed

lemma unicode_escape_cases:
  assumes "unicode_escape p = Some (cp, q)"
  obtains (plain) h where "p = h @ q" "hex4 h cp" "cp < 0xD800 \<or> 0xDFFF < cp"
  | (pair) h hi l lo where "p = h @ CHR 0x5C # CHR ''u'' # l @ q" "hex4 h hi" "0xD800 \<le> hi"
      "hi \<le> 0xDBFF" "hex4 l lo" "0xDC00 \<le> lo" "lo \<le> 0xDFFF"
      "cp = 0x10000 + (hi - 0xD800) * 1024 + (lo - 0xDC00)"
proof -
  from assms obtain hi r where "parse_hex4 p = Some (hi, r)"
    by (auto simp: unicode_escape_def split: option.splits)
  then obtain h where h: "p = h @ r" "hex4 h hi" by (auto simp: parse_hex4_iff)
  note e = assms [unfolded unicode_escape_def, unfolded \<open>parse_hex4 p = _\<close>]
  show thesis
  proof (cases "0xD800 \<le> hi \<and> hi \<le> 0xDBFF")
    case True
    with e obtain r' where r: "r = CHR 0x5C # CHR ''u'' # r'"
      by (cases r; cases "tl r") (auto split: if_splits)
    from e True obtain lo where "parse_hex4 r' = Some (lo, q)" "0xDC00 \<le> lo" "lo \<le> 0xDFFF"
      "cp = 0x10000 + (hi - 0xD800) * 1024 + (lo - 0xDC00)"
      unfolding r by (auto split: if_splits option.splits simp: numeral_2_eq_2)
    with True h r show ?thesis by (auto simp: parse_hex4_iff intro: pair)
  next
    case False
    with e h show ?thesis by (auto split: if_splits intro: plain)
  qed
qed

lemma string_item_sound:
  assumes "string_item p = Some (x, q)"
  obtains s where "p = s @ q" and "\<And>s' t. json_chars s' t \<Longrightarrow> json_chars (s @ s') (x @ t)"
proof -
  from assms obtain c r where p: "p = c # r" "c \<noteq> CHR 0x22"
    by (auto simp: string_item_def split: list.splits if_splits)
  show thesis
  proof (cases "c = CHR 0x5C")
    case False
    with assms p show thesis
      by (intro that [of "[c]"]) (auto simp: string_item_def intro!: json_chars.unescaped split: if_splits)
  next
    case True
    with assms p obtain e r' where r: "r = e # r'" by (auto simp: string_item_def split: list.splits)
    show thesis
    proof (cases "e = CHR ''u''")
      case False
      with assms p r True show thesis
        by (intro that [of "[c, e]"]) (auto simp: string_item_def intro: json_chars.intros)
    next
      case u: True
      with assms p r True obtain cp where cp: "unicode_escape r' = Some (cp, q)" "x = utf8_encode cp"
        by (auto simp: string_item_def)
      from cp(1) show thesis
      proof (cases rule: unicode_escape_cases)
        case (plain h)
        with cp p r True u show thesis
          by (intro that [of "c # e # h"]) (auto intro: json_chars.intros)
      next
        case (pair h hi l lo)
        with cp p r True u json_chars.surrogates [OF pair(2-7)] show thesis
          by (intro that [of "c # e # h @ CHR 0x5C # CHR ''u'' # l"]) simp_all
      qed
    qed
  qed
qed

lemma json_chars_Cons_cases:
  assumes "json_chars s t" and "s \<noteq> []"
  obtains x s' t' where "json_chars s' t'" and "t = x @ t'" and "hd s \<noteq> CHR 0x22"
    and "\<And>q. string_item (s @ q) = Some (x, s' @ q)" and "length s' < length s"
  using assms(1)
proof cases
  case (unescaped c s' t')
  then show ?thesis by (intro that [of s' t' "[c]"]) (auto simp: string_item_def)
next
  case (simple e x s' t')
  then have "e \<noteq> CHR ''u''" by (auto simp: simple_escape_def)
  with simple show ?thesis by (intro that [of s' t' "[x]"]) (auto simp: string_item_def)
next
  case (unicode h n s' t')
  then show ?thesis
    using unicode_escape_plain [OF unicode(3,4)]
    by (intro that [of s' t' "utf8_encode n"]) (auto simp: string_item_def)
next
  case (surrogates h hi l lo s' t')
  then show ?thesis
    using unicode_escape_pair [OF surrogates(3-8)]
    by (intro that [of s' t' "utf8_encode (0x10000 + (hi - 0xD800) * 1024 + (lo - 0xDC00))"])
       (auto simp: string_item_def)
qed (use assms(2) in simp)

section \<open>Numbers\<close>

text \<open>What may follow a number.\<close>

definition number_stop :: "string \<Rightarrow> bool" where
  "number_stop r \<longleftrightarrow> r = [] \<or> \<not> is_digit (hd r) \<and> hd r \<notin> {CHR ''.'', CHR ''e'', CHR ''E''}"

lemma dropWhile_digits_split:
  obtains ds where "s = ds @ dropWhile is_digit s" and "list_all is_digit ds"
proof
  show "s = takeWhile is_digit s @ dropWhile is_digit s" by simp
  show "list_all is_digit (takeWhile is_digit s)" by (auto simp: list_all_iff dest: set_takeWhileD)
qed

lemma json_expI:
  "c \<in> {CHR ''e'', CHR ''E''} \<Longrightarrow> g \<in> {'''', ''+'', ''-''} \<Longrightarrow> list_all is_digit ds \<Longrightarrow> ds \<noteq> [] \<Longrightarrow>
   json_exp (c # g @ ds)"
  unfolding json_exp_def by blast

lemma scan_exp_sound:
  assumes "scan_exp s = Some r"
  obtains e where "s = e @ r" and "json_exp e"
proof (cases "s \<noteq> [] \<and> (hd s = CHR ''e'' \<or> hd s = CHR ''E'')")
  case True
  then obtain c u where s: "s = c # u" "c \<in> {CHR ''e'', CHR ''E''}" by (cases s) auto
  define g where "g = (if u \<noteq> [] \<and> (hd u = CHR ''+'' \<or> hd u = CHR ''-'') then [hd u] else [])"
  define v where "v = (if u \<noteq> [] \<and> (hd u = CHR ''+'' \<or> hd u = CHR ''-'') then tl u else u)"
  have u: "u = g @ v" "g \<in> {'''', ''+'', ''-''}" by (auto simp: g_def v_def)
  obtain ds where ds: "v = ds @ dropWhile is_digit v" "list_all is_digit ds" by (rule dropWhile_digits_split)
  have "r = dropWhile is_digit v" "dropWhile is_digit v \<noteq> v"
    using assms s by (auto simp: scan_exp_def v_def Let_def split: if_splits)
  moreover from this have "ds \<noteq> []" using ds by auto
  then have "json_exp (c # g @ ds)" using s u ds by (intro json_expI) auto
  ultimately show thesis
    using ds s u by (intro that [of "c # g @ ds"]) auto

next
  case False
  with assms show thesis by (intro that [of "[]"]) (auto simp: scan_exp_def json_exp_def)
qed

lemma scan_frac_sound:
  assumes "scan_frac s = Some r"
  obtains f e where "s = f @ e @ r" and "json_frac f" and "json_exp e"
proof (cases "s \<noteq> [] \<and> hd s = CHR ''.''")
  case True
  then obtain u where s: "s = CHR ''.'' # u" by (cases s) auto
  obtain ds where ds: "u = ds @ dropWhile is_digit u" "list_all is_digit ds" by (rule dropWhile_digits_split)
  have x: "scan_exp (dropWhile is_digit u) = Some r" and n: "dropWhile is_digit u \<noteq> u"
    using assms s by (auto simp: scan_frac_def Let_def split: if_splits)
  from x obtain e where "dropWhile is_digit u = e @ r" "json_exp e" by (rule scan_exp_sound)
  with ds n s show thesis
    by (intro that [of "CHR ''.'' # ds" e]) (auto simp: json_frac_def)
next
  case False
  with assms have "scan_exp s = Some r" by (auto simp: scan_frac_def)
  then obtain e where "s = e @ r" "json_exp e" by (rule scan_exp_sound)
  then show thesis by (intro that [of "[]" e]) (auto simp: json_frac_def)
qed

lemma scan_int_sound:
  assumes "s \<noteq> []" and "hd s \<noteq> CHR ''0''" and "is_digit (hd s)"
  obtains i where "s = i @ dropWhile is_digit s" and "json_int i"
proof -
  obtain ds where ds: "s = ds @ dropWhile is_digit s" "list_all is_digit ds" by (rule dropWhile_digits_split)
  then have "ds \<noteq> []" using assms(1,3) hd_dropWhile [of is_digit s] by (metis append_Nil)
  moreover have "hd ds \<noteq> CHR ''0''" using assms(2) ds \<open>ds \<noteq> []\<close> by (metis hd_append2)
  ultimately show thesis using ds by (auto simp: json_int_def intro: that)
qed

lemma scan_number_sound:
  assumes "scan_number p = Some n"
  shows "n \<le> length p" and "json_number (take n p)"
proof -
  define g where "g = (if p \<noteq> [] \<and> hd p = CHR ''-'' then ''-'' else '''')"
  define s where "s = (if p \<noteq> [] \<and> hd p = CHR ''-'' then tl p else p)"
  have p: "p = g @ s" "g \<in> {'''', ''-''}" by (cases p; auto simp: g_def s_def)+
  from assms have s: "s \<noteq> []" "hd s = CHR ''0'' \<or> is_digit (hd s)"
    by (auto simp: scan_number_def s_def Let_def split: if_splits)
  obtain i u r where i: "s = i @ u" "json_int i" "scan_frac u = Some r" and n: "n = length p - length r"
  proof (cases "hd s = CHR ''0''")
    case True
    then obtain t where "s = CHR ''0'' # t" using s by (cases s) auto
    moreover from this assms obtain r where "scan_frac t = Some r" "n = length p - length r"
      by (auto simp: scan_number_def s_def [symmetric])
    ultimately show thesis by (intro that [of "''0''" t r]) (auto simp: json_int_def)
  next
    case False
    with s obtain i where "s = i @ dropWhile is_digit s" "json_int i" by (auto elim: scan_int_sound)
    moreover from assms False s obtain r where "scan_frac (dropWhile is_digit s) = Some r"
      "n = length p - length r" by (auto simp: scan_number_def s_def [symmetric])
    ultimately show thesis by (intro that [of i "dropWhile is_digit s" r])

  qed
  from i(3) obtain f e where "u = f @ e @ r" "json_frac f" "json_exp e" by (rule scan_frac_sound)
  with i n p show "n \<le> length p" "json_number (take n p)"
    by (auto simp: json_number_def)
qed

lemma is_digit_neq: "is_digit c \<Longrightarrow> c \<notin> {CHR ''-'', CHR ''+'', CHR ''.'', CHR ''e'', CHR ''E''}"
  by (auto simp: is_digit_def)

lemma scan_exp_complete:
  assumes "json_exp e" and "number_stop r"
  shows "scan_exp (e @ r) = Some r"
proof (cases "e = []")
  case True
  with assms(2) show ?thesis by (auto simp: scan_exp_def number_stop_def)
next
  case False
  with assms(1) obtain c g ds where e: "e = c # g @ ds" "c \<in> {CHR ''e'', CHR ''E''}"
    "g \<in> {'''', ''+'', ''-''}" "list_all is_digit ds" "ds \<noteq> []"
    by (auto simp: json_exp_def)
  have d: "dropWhile is_digit (ds @ r) = r"
    using takeWhile_digits [OF e(4)] assms(2) by (auto simp: number_stop_def)
  have "hd (ds @ r) \<notin> {CHR ''-'', CHR ''+''}" using e(4,5) is_digit_neq by (cases ds) auto
  moreover have "r \<noteq> ds @ r" using e(5) by simp
  ultimately show ?thesis using e(2,3) d by (auto simp: e(1) scan_exp_def Let_def)
qed

lemma json_exp_stop: "json_exp e \<Longrightarrow> number_stop r \<Longrightarrow> e @ r = [] \<or> \<not> is_digit (hd (e @ r)) \<and> hd (e @ r) \<noteq> CHR ''.''"
  by (auto simp: json_exp_def number_stop_def)

lemma scan_frac_complete:
  assumes "json_frac f" and "json_exp e" and "number_stop r"
  shows "scan_frac (f @ e @ r) = Some r"
proof (cases "f = []")
  case True
  with json_exp_stop [OF assms(2,3)] show ?thesis
    using scan_exp_complete [OF assms(2,3)] by (auto simp: scan_frac_def)
next
  case False
  with assms(1) obtain ds where f: "f = CHR ''.'' # ds" "list_all is_digit ds" "ds \<noteq> []"
    by (auto simp: json_frac_def)
  have "dropWhile is_digit (ds @ e @ r) = e @ r"
    using takeWhile_digits [OF f(2)] json_exp_stop [OF assms(2,3)] by blast
  moreover have "e @ r \<noteq> ds @ e @ r" using f(3) by simp
  ultimately show ?thesis using scan_exp_complete [OF assms(2,3)] by (simp add: f(1) scan_frac_def)
qed

lemma scan_number_complete:
  assumes "json_number s" and "number_stop r"
  shows "scan_number (s @ r) = Some (length s)"
proof -
  from assms(1) obtain g i f e where s: "s = g @ i @ f @ e" "g \<in> {'''', ''-''}" "json_int i"
    "json_frac f" "json_exp e" by (auto simp: json_number_def)
  let ?t = "i @ f @ e @ r"
  have ne: "i \<noteq> []" and di: "list_all is_digit i" using s(3) by (auto simp: json_int_def)
  then have hd: "hd ?t = hd i" "is_digit (hd i)" by (cases i; simp)+
  have sg: "(if s @ r \<noteq> [] \<and> hd (s @ r) = CHR ''-'' then tl (s @ r) else s @ r) = ?t"
    using s(2) hd is_digit_neq [OF hd(2)] by (auto simp: s(1))
  have fr: "scan_frac (f @ e @ r) = Some r" by (rule scan_frac_complete) (use s assms in auto)
  have stop: "f @ e @ r = [] \<or> \<not> is_digit (hd (f @ e @ r))"
    using s(4) json_exp_stop [OF s(5) assms(2)] by (auto simp: json_frac_def)
  have "(if hd ?t = CHR ''0'' then scan_frac (tl ?t) else scan_frac (dropWhile is_digit ?t)) = Some r"
  proof (cases "i = ''0''")
    case True
    with fr show ?thesis by simp
  next
    case False
    with s(3) have "hd i \<noteq> CHR ''0''" by (simp add: json_int_def)
    with fr hd takeWhile_digits [OF di stop] show ?thesis by simp
  qed
  then show ?thesis
    using ne hd(2) unfolding scan_number_def sg Let_def by (auto simp: s(1) hd(1))
qed

section \<open>Values of texts\<close>

lemma array_puts: "foldl array_put (JArray xs (cap_for (length xs))) vs = JArray (xs @ vs) (cap_for (length (xs @ vs)))"
proof (induction vs arbitrary: xs)
  case (Cons v vs)
  then show ?case using Cons.IH [of "xs @ [v]"] by simp
qed simp

lemma array_of_eq: "array_of vs = JArray vs (cap_for (length vs))"
  using array_puts [of "[]" vs] by (simp add: array_of_def)

lemma array_of_snoc: "array_of (vs @ [v]) = array_put (array_of vs) v"
  by (simp add: array_of_def)

lemma object_of_snoc: "object_of (kvs @ [(k, v)]) = object_put (object_of kvs) k v"
  by (simp add: object_of_def)

lemma is_array_array_of [simp]: "is_array (array_of vs)"
  by (simp add: array_of_eq is_array_def)

lemma is_object_object_of [simp]: "is_object (object_of kvs)"
proof (induction kvs rule: rev_induct)
  case (snoc kv kvs)
  then show ?case by (cases kv) (simp add: object_of_snoc)
qed (simp add: object_of_def is_object_def)

lemma utf8_step_NUL: "utf8_step s 0 = 1" if "s < 9" "s \<noteq> 0"
proof -
  have "s \<in> {1, 2, 3, 4, 5, 6, 7, 8}" using that by auto
  then show ?thesis by (auto simp: utf8_step_def k_utf8d_def)
qed

lemma utf8_loop_NUL: "utf8_loop s (xs @ CHR 0x00 # ys) \<Longrightarrow> s < 9 \<Longrightarrow> utf8_loop s xs"
proof (induction xs arbitrary: s)
  case Nil
  then show ?case using utf8_step_NUL [of s] by (cases "s = 0") (auto simp: Let_def utf8_loop.simps)
next
  case (Cons x xs)
  then show ?case by (auto simp: utf8_loop_Cons utf8_trans_bound split: if_splits)
qed

lemma wf_text_cstr: "utf8_valid t \<Longrightarrow> wf_text (cstr t)"
proof (cases "CHR 0x00 \<in> set t")
  case True
  assume v: "utf8_valid t"
  from split_list_first [OF True] obtain ys zs where t: "t = ys @ CHR 0x00 # zs" "CHR 0x00 \<notin> set ys" by blast
  then have "cstr t = ys" by (simp add: cstr_def takeWhile_tail) (metis takeWhile_eq_all_conv)
  with v t show ?thesis using utf8_loop_NUL [of 0 ys zs] by (simp add: utf8_valid_def wf_text_def)
next
  case False
  assume "utf8_valid t"
  moreover have "cstr t = t" using False by (auto simp: cstr_def takeWhile_eq_all_conv)
  ultimately show ?thesis using False by (simp add: wf_text_def)
qed

lemma wf_array_of: "list_all wf_json vs \<Longrightarrow> wf_json (array_of vs)"
  by (auto simp: array_of_eq cap_for_bound list_all_iff)

lemma wf_object_of: "list_all (\<lambda>kv. wf_text (fst kv) \<and> wf_json (snd kv)) kvs \<Longrightarrow> wf_json (object_of kvs)"
proof (induction kvs rule: rev_induct)
  case (snoc kv kvs)
  then show ?case by (cases kv) (auto simp: object_of_snoc)
qed (simp add: object_of_def)

lemma depth_le: "json_depth (JArray xs cap) \<le> Suc d \<longleftrightarrow> (\<forall>x \<in> set xs. json_depth x \<le> d)"
  "json_depth (JObject ms cap') \<le> Suc d \<longleftrightarrow> (\<forall>m \<in> set ms. json_depth (snd m) \<le> d)"
  by simp_all

lemma depth_object_put:
  "json_depth obj \<le> Suc d \<Longrightarrow> json_depth v \<le> d \<Longrightarrow> json_depth (object_put obj k v) \<le> Suc d"
  by (cases obj) (auto simp: depth_le simp del: json_depth.simps dest!: set_replace_member)

lemma depth_object_of: "list_all (\<lambda>kv. json_depth (snd kv) \<le> d) kvs \<Longrightarrow> json_depth (object_of kvs) \<le> Suc d"
proof (induction kvs rule: rev_induct)
  case (snoc kv kvs)
  then show ?case by (cases kv) (auto simp: object_of_snoc intro: depth_object_put)
qed (simp add: object_of_def)

lemma json_text_wf_depth:
  "json_text d s v \<Longrightarrow> wf_json v \<and> json_depth v \<le> d"
  "json_elems d s vs \<Longrightarrow> list_all (\<lambda>v. wf_json v \<and> json_depth v \<le> d) vs"
  "json_members d s kvs \<Longrightarrow> list_all (\<lambda>kv. wf_text (fst kv) \<and> wf_json (snd kv) \<and> json_depth (snd kv) \<le> d) kvs"
proof (induction rule: json_text_json_elems_json_members.inducts)
  case (number s x d)
  then show ?case using strtod_canonical [of s] by simp
next
  case (string s t d)
  then show ?case by (auto simp: json_string_def wf_text_cstr)
next
  case (array d s vs)
  then show ?case
    using wf_array_of [of vs] by (auto simp: array_of_eq depth_le list_all_iff simp del: json_depth.simps)
next
  case (object d s kvs)
  then show ?case by (auto simp: list_all_iff intro!: wf_object_of depth_object_of)
qed (auto simp: json_string_def wf_text_cstr)

lemma json_elems_ws:
  assumes "json_elems d s vs" and "ws w"
  shows "json_elems d (w @ s) vs"
  using assms(1)
proof cases
  case (elem w1 t v w')
  with assms(2) json_text_json_elems_json_members.elem [of "w @ w1" d t v w'] show ?thesis by simp
next
  case (elems w1 t v w' r vs')
  with assms(2) json_text_json_elems_json_members.elems [of "w @ w1" d t v w' r vs'] show ?thesis by simp
qed

lemma json_members_ws:
  assumes "json_members d s kvs" and "ws w"
  shows "json_members d (w @ s) kvs"
  using assms(1)
proof cases
  case (member w1 k t w2 w3 u v w')
  with assms(2) json_text_json_elems_json_members.member [of "w @ w1" k t w2 w3 d u v w'] show ?thesis by simp
next
  case (members w1 k t w2 w3 u v w' r kvs')
  with assms(2) json_text_json_elems_json_members.members [of "w @ w1" k t w2 w3 d u v w' r kvs'] show ?thesis by simp
qed

end
