(* ===== verification/Json_Parser.thy ===== *)
theory Json_Parser
  imports Json_Grammar
begin

text \<open>
  The parser of src/json/builtin.c with its allocations: the growable buffer
  (\<open>growbuf_t\<close>, \<open>grow_append\<close>), \<open>parse_string_raw\<close>, \<open>parse_number\<close>, \<open>parse_array\<close>,
  \<open>parse_object\<close>, \<open>parse_value\<close> and \<open>builtin_parse\<close>. The position and the depth of
  \<open>parser_t\<close> are arguments; the code restores the depth on every return. The recursion is
  bounded by a fuel argument: the outer \<open>None\<close> is running out of fuel, which
  \<open>builtin_parse\<close> is shown never to do, and the inner \<open>None\<close> is the NULL the code returns.
\<close>

section \<open>The growable buffer\<close>

record growbuf =
  gb_data :: string
  gb_cap :: nat
  gb_ok :: bool

definition empty_buf :: growbuf where
  "empty_buf = \<lparr>gb_data = [], gb_cap = 0, gb_ok = True\<rparr>"

text \<open>The doubling loop; it is entered with a positive capacity only.\<close>

function grow_cap :: "nat \<Rightarrow> nat \<Rightarrow> nat" where
  "grow_cap ncap need = (if 0 < ncap \<and> ncap < need then grow_cap (ncap * 2) need else ncap)"
  by auto

termination
  by (relation "measure (\<lambda>(ncap, need). need - ncap)") auto

declare grow_cap.simps [simp del]

definition grow_append :: "growbuf \<Rightarrow> string \<Rightarrow> ('z heap_scheme, growbuf) state" where
  "grow_append b s =
     (if \<not> gb_ok b then ret b
      else if gb_cap b < length (gb_data b) + length s + 1 then do {
        let ncap = grow_cap (if gb_cap b \<noteq> 0 then gb_cap b else 32) (length (gb_data b) + length s + 1);
        nd \<leftarrow> xrealloc (gb_cap b \<noteq> 0);
        ret (if \<not> nd then b\<lparr>gb_ok := False\<rparr>
             else b\<lparr>gb_data := gb_data b @ s, gb_cap := ncap\<rparr>)
      }
      else ret (b\<lparr>gb_data := gb_data b @ s\<rparr>))"

section \<open>Strings and numbers\<close>

text \<open>The loop returns the buffer and, when it saw the closing quote, the position after
  it. When an unescaped byte cannot be appended the loop goes on to the closing quote with
  the buffer marked as failed.\<close>

lemma hex_loop_length: "hex_loop n v p = Some (m, q) \<Longrightarrow> length p = n + length q"
  by (induction n v p arbitrary: m q rule: hex_loop.induct) (auto split: option.splits)

lemma unicode_escape_length: "unicode_escape p = Some (cp, q) \<Longrightarrow> length q < length p"
  by (auto simp: unicode_escape_def parse_hex4_def dest!: hex_loop_length
      split: option.splits if_splits)

lemma string_item_length: "string_item p = Some (x, q) \<Longrightarrow> length q < length p"
  by (auto simp: string_item_def dest: unicode_escape_length split: list.splits if_splits)

function string_loop :: "string \<Rightarrow> growbuf \<Rightarrow> ('z heap_scheme, growbuf \<times> string option) state" where
  "string_loop p b =
     (if p = [] then ret (b, None)
      else if hd p = CHR 0x22 then ret (b, Some (tl p))
      else (case string_item p of
          None \<Rightarrow> ret (b, None)
        | Some (x, q) \<Rightarrow> do {
            b' \<leftarrow> grow_append b x;
            (if hd p = CHR 0x5C \<and> \<not> gb_ok b' then ret (b', None) else string_loop q b')
          }))"
  by pat_completeness auto

termination
  by (relation "measure (\<lambda>(p, b). length p)") (auto dest: string_item_length)

declare string_loop.simps [simp del]

text \<open>The result is the text of the string and the position after it; the text is in one
  allocated block.\<close>

definition parse_string_raw :: "string \<Rightarrow> ('z heap_scheme, (string \<times> string) option) state" where
  "parse_string_raw p = do {
     (b, closed) \<leftarrow> string_loop (tl p) empty_buf;
     (case closed of
        None \<Rightarrow> do { xfree (gb_cap b \<noteq> 0); ret None }
      | Some q \<Rightarrow>
          if \<not> gb_ok b \<or> \<not> utf8_valid (gb_data b) then do { xfree (gb_cap b \<noteq> 0); ret None }
          else if gb_cap b = 0 then do {
            ok \<leftarrow> xmalloc;
            ret (if ok then Some ([], q) else None)
          }
          else ret (Some (gb_data b, q)))
   }"

text \<open>The value with the position after it.\<close>

definition with_pos :: "string \<Rightarrow> json option \<Rightarrow> (json \<times> string) option" where
  "with_pos q v = map_option (\<lambda>v. (v, q)) v"

definition parse_number :: "string \<Rightarrow> ('z heap_scheme, (json \<times> string) option) state" where
  "parse_number p =
     (case scan_number p of
        None \<Rightarrow> ret None
      | Some len \<Rightarrow> do {
          tmp \<leftarrow> xmalloc;
          if \<not> tmp then ret None
          else do {
            let (d, eptr) = strtod (take len p);
            let ok = (eptr = [] \<and> isfinite d);
            xfree True;
            if \<not> ok then ret None
            else do { v \<leftarrow> builtin_new_number d; ret (with_pos (drop len p) v) }
          }
        })"

section \<open>Values\<close>

definition MCP_JSON_MAX_DEPTH :: nat where
  "MCP_JSON_MAX_DEPTH = 128"

text \<open>The cases of the switch of \<open>parse_value\<close> that do not recurse.\<close>

definition parse_lit ::
  "string \<Rightarrow> string \<Rightarrow> ('z heap_scheme, json option) state \<Rightarrow> ('z heap_scheme, (json \<times> string) option) state" where
  "parse_lit p lit mk =
     (case match_lit p lit of
        None \<Rightarrow> ret None
      | Some q \<Rightarrow> do { v \<leftarrow> mk; ret (with_pos q v) })"

definition parse_scalar :: "string \<Rightarrow> ('z heap_scheme, (json \<times> string) option) state" where
  "parse_scalar p =
     (if hd p = CHR ''n'' then parse_lit p ''null'' builtin_new_null
      else if hd p = CHR ''t'' then parse_lit p ''true'' (builtin_new_bool True)
      else if hd p = CHR ''f'' then parse_lit p ''false'' (builtin_new_bool False)
      else if hd p = CHR 0x22 then do {
        s \<leftarrow> parse_string_raw p;
        (case s of
           None \<Rightarrow> ret None
         | Some (s, q) \<Rightarrow> do {
             v \<leftarrow> builtin_new_string_n (Some (cstr s));
             xfree True;
             ret (with_pos q v)
           })
      }
      else parse_number p)"

text \<open>The end of an iteration of the loops of \<open>parse_array\<close> and \<open>parse_object\<close>, after the
  container \<open>v\<close> took the new entry: a comma starts the next iteration, \<open>close\<close> ends the
  container.\<close>

definition next_entry ::
  "char \<Rightarrow> string \<Rightarrow> json \<Rightarrow> (string \<Rightarrow> json \<Rightarrow> ('z heap_scheme, (json \<times> string) option option) state) \<Rightarrow>
   ('z heap_scheme, (json \<times> string) option option) state" where
  "next_entry close q v again =
     (let q = skip_ws q
      in if q = [] then do { builtin_destroy v; ret (Some None) }
         else if hd q = CHR '','' then again (tl q) v
         else if hd q = close then ret (Some (Some (v, tl q)))
         else do { builtin_destroy v; ret (Some None) })"

definition append_entry ::
  "json \<Rightarrow> json \<Rightarrow> string \<Rightarrow> (string \<Rightarrow> json \<Rightarrow> ('z heap_scheme, (json \<times> string) option option) state) \<Rightarrow>
   ('z heap_scheme, (json \<times> string) option option) state" where
  "append_entry arr item q again = do {
     r \<leftarrow> builtin_array_append (Some arr) (Some item);
     (if fst r \<noteq> MCP_OK then do { builtin_destroy item; destroy_opt (snd r); ret (Some None) }
      else (case snd r of None \<Rightarrow> ret (Some None) | Some arr \<Rightarrow> next_entry CHR '']'' q arr again))
   }"

definition set_entry ::
  "json \<Rightarrow> string \<Rightarrow> json \<Rightarrow> string \<Rightarrow> (string \<Rightarrow> json \<Rightarrow> ('z heap_scheme, (json \<times> string) option option) state) \<Rightarrow>
   ('z heap_scheme, (json \<times> string) option option) state" where
  "set_entry obj key val q again = do {
     r \<leftarrow> builtin_object_set (Some obj) (Some (cstr key)) (Some val);
     xfree True;
     (if fst r \<noteq> MCP_OK then do { builtin_destroy val; destroy_opt (snd r); ret (Some None) }
      else (case snd r of None \<Rightarrow> ret (Some None) | Some obj \<Rightarrow> next_entry CHR ''}'' q obj again))
   }"

text \<open>The start of an iteration of the loop of \<open>parse_object\<close>: the key and the colon. The
  result is the key, in one allocated block, and the position of the value.\<close>

definition parse_key :: "string \<Rightarrow> json \<Rightarrow> ('z heap_scheme, (string \<times> string) option) state" where
  "parse_key p obj =
     (let p = skip_ws p
      in if p = [] \<or> hd p \<noteq> CHR 0x22 then do { builtin_destroy obj; ret None }
         else do {
           key \<leftarrow> parse_string_raw p;
           (case key of
              None \<Rightarrow> do { builtin_destroy obj; ret None }
            | Some (key, q) \<Rightarrow>
                (let q = skip_ws q
                 in if q = [] \<or> hd q \<noteq> CHR '':'' then do {
                      xfree True; builtin_destroy obj; ret None
                    }
                    else ret (Some (key, skip_ws (tl q)))))
         })"

text \<open>The start of \<open>parse_array\<close> and \<open>parse_object\<close>, up to the loop.\<close>

definition open_container ::
  "nat \<Rightarrow> string \<Rightarrow> char \<Rightarrow> ('z heap_scheme, json option) state \<Rightarrow>
   (string \<Rightarrow> json \<Rightarrow> ('z heap_scheme, (json \<times> string) option option) state) \<Rightarrow>
   ('z heap_scheme, (json \<times> string) option option) state" where
  "open_container depth p close mk loop =
     (if MCP_JSON_MAX_DEPTH < depth then ret (Some None)
      else do {
        v \<leftarrow> mk;
        (case v of
           None \<Rightarrow> ret (Some None)
         | Some v \<Rightarrow>
             (let q = skip_ws (tl p)
              in if q \<noteq> [] \<and> hd q = close then ret (Some (Some (v, tl q)))
                 else loop q v))
      })"

text \<open>The loops of \<open>parse_array\<close> and \<open>parse_object\<close> are \<open>parse_items\<close> and \<open>parse_pairs\<close>.\<close>

fun parse_value :: "nat \<Rightarrow> nat \<Rightarrow> string \<Rightarrow> ('z heap_scheme, (json \<times> string) option option) state"
and parse_items ::
  "nat \<Rightarrow> nat \<Rightarrow> string \<Rightarrow> json \<Rightarrow> ('z heap_scheme, (json \<times> string) option option) state"
and parse_pairs ::
  "nat \<Rightarrow> nat \<Rightarrow> string \<Rightarrow> json \<Rightarrow> ('z heap_scheme, (json \<times> string) option option) state" where
  "parse_value 0 depth p = ret None"
| "parse_value (Suc f) depth p =
     (if p = [] then ret (Some None)
      else if hd p = CHR ''['' then
        open_container (depth + 1) p CHR '']'' builtin_new_array (parse_items f (depth + 1))
      else if hd p = CHR ''{'' then
        open_container (depth + 1) p CHR ''}'' builtin_new_object (parse_pairs f (depth + 1))
      else do { r \<leftarrow> parse_scalar p; ret (Some r) })"
| "parse_items 0 depth p arr = ret None"
| "parse_items (Suc f) depth p arr = do {
     item \<leftarrow> parse_value f depth (skip_ws p);
     (case item of
        None \<Rightarrow> ret None
      | Some None \<Rightarrow> do { builtin_destroy arr; ret (Some None) }
      | Some (Some (item, q)) \<Rightarrow> append_entry arr item q (parse_items f depth))
   }"
| "parse_pairs 0 depth p obj = ret None"
| "parse_pairs (Suc f) depth p obj = do {
     key \<leftarrow> parse_key p obj;
     (case key of
        None \<Rightarrow> ret (Some None)
      | Some (key, q) \<Rightarrow> do {
          val \<leftarrow> parse_value f depth q;
          (case val of
             None \<Rightarrow> ret None
           | Some None \<Rightarrow> do { xfree True; builtin_destroy obj; ret (Some None) }
           | Some (Some (val, q)) \<Rightarrow> set_entry obj key val q (parse_pairs f depth))
        })
   }"

definition parse_fuel :: "string \<Rightarrow> nat" where
  "parse_fuel text = 2 * length text + 1"

definition builtin_parse :: "string option \<Rightarrow> ('z heap_scheme, json option) state" where
  "builtin_parse text =
     (case text of
        None \<Rightarrow> ret None
      | Some text \<Rightarrow>
          if \<not> utf8_valid text then ret None
          else do {
            r \<leftarrow> parse_value (parse_fuel text) 0 (skip_ws text);
            (case r of
               Some (Some (v, p)) \<Rightarrow>
                 if skip_ws p \<noteq> [] then do { builtin_destroy v; ret None } else ret (Some v)
             | _ \<Rightarrow> ret None)
          })"

section \<open>The buffer never overruns\<close>

definition gb_blocks :: "growbuf \<Rightarrow> int" where
  "gb_blocks b = (if gb_cap b = 0 then 0 else 1)"

text \<open>There is room for the text and its terminator.\<close>

definition gb_inv :: "growbuf \<Rightarrow> bool" where
  "gb_inv b \<longleftrightarrow> gb_data b = [] \<and> gb_cap b = 0 \<or> length (gb_data b) < gb_cap b"

lemma grow_cap_ge: "0 < n \<Longrightarrow> need \<le> grow_cap n need \<and> 0 < grow_cap n need"
  by (induction n need rule: grow_cap.induct) (subst (1 2) grow_cap.simps; auto)

lemma empty_buf_simps [simp]:
  "gb_inv empty_buf" "gb_ok empty_buf" "gb_data empty_buf = []" "gb_blocks empty_buf = 0"
  by (simp_all add: empty_buf_def gb_inv_def gb_blocks_def)

lemma wp_grow_append:
  assumes "gb_inv b"
    and failed: "\<not> gb_ok b \<Longrightarrow> Q b h"
    and ok: "\<And>b' h'. gb_ok b \<Longrightarrow> gb_ok b' \<Longrightarrow> gb_inv b' \<Longrightarrow> gb_data b' = gb_data b @ s \<Longrightarrow>
      steps (gb_blocks b' - gb_blocks b) h h' \<Longrightarrow> Q b' h'"
    and nomem: "\<And>h'. gb_ok b \<Longrightarrow> script h \<noteq> [] \<Longrightarrow> steps 0 h h' \<Longrightarrow> Q (b\<lparr>gb_ok := False\<rparr>) h'"
  shows "wp (grow_append b s) Q h"
proof (cases "gb_ok b \<and> gb_cap b < length (gb_data b) + length s + 1")
  case True
  define ncap where "ncap = grow_cap (if gb_cap b \<noteq> 0 then gb_cap b else 32) (length (gb_data b) + length s + 1)"
  have n: "length (gb_data b) + length s < ncap"
    using grow_cap_ge [of "if gb_cap b \<noteq> 0 then gb_cap b else 32" "length (gb_data b) + length s + 1"]
    by (auto simp: ncap_def split: if_splits)
  have "wp (xrealloc (gb_cap b \<noteq> 0)) (\<lambda>nd. Q (if \<not> nd then b\<lparr>gb_ok := False\<rparr>
      else b\<lparr>gb_data := gb_data b @ s, gb_cap := ncap\<rparr>)) h"
    apply (rule wp_xrealloc)
    subgoal for nd h'
      using True n ok [of "b\<lparr>gb_data := gb_data b @ s, gb_cap := ncap\<rparr>" h'] nomem [of h']
      by (auto simp: gb_blocks_def gb_inv_def split: if_splits)
    done
  moreover have "wp (grow_append b s) Q h = wp (do { nd \<leftarrow> xrealloc (gb_cap b \<noteq> 0);
      ret (if \<not> nd then b\<lparr>gb_ok := False\<rparr> else b\<lparr>gb_data := gb_data b @ s, gb_cap := ncap\<rparr>) }) Q h"
    using True unfolding grow_append_def ncap_def Let_def by (simp only: if_True if_False simp_thms)
  ultimately show ?thesis by simp
next
  case False
  then show ?thesis
    using failed ok [of "b\<lparr>gb_data := gb_data b @ s\<rparr>" h] assms(1)
    by (auto simp: grow_append_def gb_inv_def gb_blocks_def)
qed

section \<open>What the parser reads\<close>

definition string_post ::
  "string \<Rightarrow> growbuf \<Rightarrow> 'z heap_scheme \<Rightarrow> growbuf \<times> string option \<Rightarrow> 'z heap_scheme \<Rightarrow> bool" where
  "string_post p b h r h' \<longleftrightarrow>
     (case r of (b', fin) \<Rightarrow>
        gb_inv b' \<and> steps (gb_blocks b' - gb_blocks b) h h' \<and> (gb_ok b' \<longrightarrow> gb_ok b) \<and>
        (\<forall>q. fin = Some q \<and> gb_ok b' \<longrightarrow>
           (\<exists>s t. p = s @ CHR 0x22 # q \<and> json_chars s t \<and> gb_data b' = gb_data b @ t)))"

lemma string_loop_sound: "gb_inv b \<Longrightarrow> wp (string_loop p b) (string_post p b h) h"
proof (induction p b arbitrary: h rule: string_loop.induct)
  case (1 p b)
  show ?case
  proof (cases "p = [] \<or> hd p = CHR 0x22 \<or> string_item p = None")
    case True
    then show ?thesis
      using 1(2) by (subst string_loop.simps)
        (cases p; auto simp: string_post_def neq_Nil_conv intro: json_chars.intros)
  next
    case False
    then obtain x q where item: "string_item p = Some (x, q)" by auto
    then obtain s where s: "p = s @ q" "\<And>s' t. json_chars s' t \<Longrightarrow> json_chars (s @ s') (x @ t)"
      by (rule string_item_sound) blast
    have step: "string_post p b h r h'" if "string_post q b' h1 r h'" "gb_ok b' \<Longrightarrow> gb_data b' = gb_data b @ x"
        "gb_ok b' \<longrightarrow> gb_ok b" "steps (gb_blocks b' - gb_blocks b) h h1" for b' h1 r h'
    proof -
      obtain b2 fin where r: "r = (b2, fin)" by (cases r)
      have "\<exists>s t. p = s @ CHR 0x22 # q' \<and> json_chars s t \<and> gb_data b2 = gb_data b @ t"
        if fin: "fin = Some q'" "gb_ok b2" for q'
      proof -
        from \<open>string_post q b' h1 r h'\<close> fin obtain s' t where "q = s' @ CHR 0x22 # q'" "json_chars s' t"
          "gb_data b2 = gb_data b' @ t" "gb_ok b'" by (auto simp: string_post_def r)
        with s \<open>gb_ok b' \<Longrightarrow> gb_data b' = gb_data b @ x\<close> show ?thesis
          by (intro exI [of _ "s @ s'"] exI [of _ "x @ t"]) simp
      qed
      with that show ?thesis by (auto simp: string_post_def steps_def r)
    qed
    have "wp (grow_append b x) (\<lambda>b'. wp (if hd p = CHR 0x5C \<and> \<not> gb_ok b' then ret (b', None)
        else string_loop q b') (string_post p b h)) h"
    proof (rule wp_grow_append [OF 1(2)], goal_cases)
      case 1
      then show ?case
        using False item "1.prems" 
        by (auto simp: string_post_def intro!: wp_mono [OF "1.IH"] step [of b h])
    next
      case (2 b' h1)
      then show ?case
        using False item by (auto intro!: wp_mono [OF "1.IH"] step [of b' h1])
    next
      case (3 h1)
      moreover have "gb_inv (b\<lparr>gb_ok := False\<rparr>)" "gb_blocks (b\<lparr>gb_ok := False\<rparr>) = gb_blocks b"
        using "1.prems" by (simp_all add: gb_inv_def gb_blocks_def)
      ultimately show ?case
        using False item
        by (auto simp: string_post_def intro!: wp_mono [OF "1.IH"] step [of "b\<lparr>gb_ok := False\<rparr>" h1])
    qed
    with False item show ?thesis by (subst string_loop.simps) simp
  qed
qed

lemma parse_string_raw_sound:
  assumes "p \<noteq> []" and "hd p = CHR 0x22"
  shows "wp (parse_string_raw p) (\<lambda>r h'. case r of None \<Rightarrow> steps 0 h h'
    | Some (t, q) \<Rightarrow> steps 1 h h' \<and> (\<exists>k. p = k @ q \<and> json_string k t)) h"
proof -
  let ?Q = "\<lambda>r h'. case r of None \<Rightarrow> steps 0 h h' | Some (t, q) \<Rightarrow> steps 1 h h' \<and> (\<exists>k. p = k @ q \<and> json_string k t)"
  have read: "\<exists>k. p = k @ q \<and> json_string k t"
    if "tl p = s @ CHR 0x22 # q" "json_chars s t" "utf8_valid t" for s t q
    using that assms by (intro exI [of _ "CHR 0x22 # s @ [CHR 0x22]"]) (cases p; auto simp: json_string_def)
  have "wp (string_loop (tl p) empty_buf) (string_post (tl p) empty_buf h) h"
    by (rule string_loop_sound) simp
  then show ?thesis
    unfolding parse_string_raw_def wp_bind
  proof (rule wp_mono, goal_cases)
    case (1 r h1)
    then obtain b fin where r: "r = (b, fin)" and inv: "gb_inv b" and s: "steps (gb_blocks b) h h1"
      and fin: "\<And>q. fin = Some q \<Longrightarrow> gb_ok b \<Longrightarrow> (\<exists>s. tl p = s @ CHR 0x22 # q \<and> json_chars s (gb_data b))"
      by (cases r) (auto simp: string_post_def)
    have free: "wp (do { xfree (gb_cap b \<noteq> 0); ret None }) ?Q h1"
      using s by (auto simp: steps_def gb_blocks_def)
    show ?case
    proof (cases "fin = None \<or> \<not> gb_ok b \<or> \<not> utf8_valid (gb_data b)")
      case True
      then show ?thesis using free by (auto simp: r split: option.splits)
    next
      case False
      then obtain q where q: "fin = Some q" "gb_ok b" "utf8_valid (gb_data b)" by auto
      from fin [OF q(1,2)] read q(3) have t: "\<exists>k. p = k @ q \<and> json_string k (gb_data b)" by blast
      show ?thesis
      proof (cases "gb_cap b = 0")
        case c: True
        with inv have "gb_data b = []" by (simp add: gb_inv_def)
        with c s t have "wp xmalloc (\<lambda>ok. ?Q (if ok then Some ([], q) else None)) h1"
          by (intro wp_xmalloc) (auto simp: gb_blocks_def steps_def)
        with c q show ?thesis by (simp add: r)
      next
        case False
        with q s t show ?thesis by (simp add: r gb_blocks_def)
      qed
    qed
  qed
qed

text \<open>The result of a parsing function: nothing left allocated, or a text of the grammar read
  and its value allocated.\<close>

definition parse_post ::
  "nat \<Rightarrow> string \<Rightarrow> 'z heap_scheme \<Rightarrow> (json \<times> string) option \<Rightarrow> 'z heap_scheme \<Rightarrow> bool" where
  "parse_post d p h r h' \<longleftrightarrow>
     (case r of
        None \<Rightarrow> \<exists>n \<le> 0. steps n h h' \<and> (script h = [] \<longrightarrow> n = 0)
      | Some (v, q) \<Rightarrow> steps (blocks v) h h' \<and> (\<exists>s. p = s @ q \<and> json_text d s v))"

lemma parse_post_None: "steps 0 h h' \<Longrightarrow> parse_post d p h None h'"
  by (auto simp: parse_post_def)

lemma parse_number_sound: "wp (parse_number p) (parse_post d p h) h"
proof (cases "scan_number p")
  case None
  then show ?thesis by (auto simp: parse_number_def intro: parse_post_None)
next
  case (Some n)
  obtain x r where x: "strtod (take n p) = (x, r)" by (cases "strtod (take n p)")
  have *: "wp (builtin_new_number x) (\<lambda>v. parse_post d p h (with_pos (drop n p) v)) h1"
    if "steps 0 h h1" "r = []" "isfinite x" for h1
  proof -
    have "json_text d (take n p) (JNumber x)"
      using scan_number_sound(2) [OF Some] x that by (auto intro: number)
    then have "parse_post d p h (Some (JNumber x, drop n p)) h2" if "steps 1 h1 h2" for h2
      using that \<open>steps 0 h h1\<close> by (auto simp: parse_post_def steps_def intro!: exI [of _ "take n p"])
    then show ?thesis
      using that unfolding builtin_new_number_def
      by (auto simp: with_pos_def steps_def intro!: wp_new_leaf parse_post_None simp del: wp_bind)
  qed
  show ?thesis
    unfolding parse_number_def Some option.case wp_bind
    by (rule wp_xmalloc) (auto simp: x Let_def steps_def intro!: parse_post_None *)
qed

lemma parse_lit_sound:
  assumes "mk = do { ok \<leftarrow> value_new; ret (if ok then Some v else None) }" and "blocks v = 1"
    and "json_text d lit v"
  shows "wp (parse_lit p lit mk) (parse_post d p h) h"
proof (cases "match_lit p lit")
  case None
  then show ?thesis by (auto simp: parse_lit_def intro: parse_post_None)
next
  case (Some q)
  then have "p = lit @ q" by (auto simp: match_lit_def Let_def split: if_splits) (metis append_take_drop_id)
  then have "parse_post d p h (with_pos q (Some v)) h'" if "steps 1 h h'" for h'
    using that assms by (auto simp: parse_post_def with_pos_def)
  then show ?thesis
    unfolding parse_lit_def Some option.case wp_bind assms(1) wp_return
    by (intro wp_new_leaf [unfolded wp_bind wp_return]) (auto simp: with_pos_def intro: parse_post_None)
qed

lemma parse_scalar_sound:
  assumes "p \<noteq> []"
  shows "wp (parse_scalar p) (parse_post d p h) h"
proof (cases "hd p = CHR 0x22")
  case True
  have read: "wp (builtin_new_string_n (Some (cstr t))) (\<lambda>v. wp (do { xfree True; ret (with_pos q v) }) (parse_post d p h)) h1"
    if "steps 1 h h1" "p = k @ q" "json_string k t" for h1 t q k
  proof -
    have "wf_text (cstr t)" using that by (auto simp: json_string_def wf_text_cstr)
    moreover have "json_text d k (JString (cstr t))" using that by (auto intro: string)
    ultimately show ?thesis
      using that(1,2) by (intro wp_builtin_new_string_n) (auto simp: with_pos_def parse_post_def steps_def)
  qed
  have "wp (do { s \<leftarrow> parse_string_raw p; (case s of None \<Rightarrow> ret None
      | Some (s, q) \<Rightarrow> do { v \<leftarrow> builtin_new_string_n (Some (cstr s)); xfree True; ret (with_pos q v) }) })
      (parse_post d p h) h"
    unfolding wp_bind [of "parse_string_raw p"]
    by (rule wp_mono [OF parse_string_raw_sound [OF assms True]])
       (auto intro!: parse_post_None simp del: wp_bind wp_xfree split: option.splits
         simp: wp_bind [of "builtin_new_string_n _"] dest: read)
  with True show ?thesis by (simp add: parse_scalar_def)
next
  case False
  then show ?thesis
    by (auto simp: parse_scalar_def new_leaf_defs parse_number_sound
        intro!: parse_lit_sound [OF refl] null true false simp del: wp_bind)
qed

section \<open>Containers\<close>

lemma wp_next_entry:
  assumes "\<And>h'. steps (- blocks v) h h' \<Longrightarrow> Q (Some None) h'"
    and "\<And>w q'. ws w \<Longrightarrow> q = w @ CHR '','' # q' \<Longrightarrow> wp (again q' v) Q h"
    and "\<And>w q'. ws w \<Longrightarrow> q = w @ close # q' \<Longrightarrow> Q (Some (Some (v, q'))) h"
  shows "wp (next_entry close q v again) Q h"
proof -
  obtain w where w: "q = w @ skip_ws q" "ws w" by (rule skip_ws_split)
  have "steps (- blocks v) h (h\<lparr>live := live h - blocks v\<rparr>)" by (simp add: steps_def)
  then show ?thesis
    using assms(1) assms(2) [OF w(2), of "tl (skip_ws q)"] assms(3) [OF w(2), of "tl (skip_ws q)"] w(1)
    by (cases "skip_ws q") (auto simp: next_entry_def Let_def)
qed

lemma wp_append_entry:
  assumes arr: "is_array arr"
    and fail: "\<And>h'. steps (- blocks arr - blocks item) h h' \<Longrightarrow> Q (Some None) h'"
    and comma: "\<And>w q' h'. ws w \<Longrightarrow> q = w @ CHR '','' # q' \<Longrightarrow>
      steps (blocks (array_put arr item) - blocks arr - blocks item) h h' \<Longrightarrow>
      wp (again q' (array_put arr item)) Q h'"
    and close: "\<And>w q' h'. ws w \<Longrightarrow> q = w @ CHR '']'' # q' \<Longrightarrow>
      steps (blocks (array_put arr item) - blocks arr - blocks item) h h' \<Longrightarrow>
      Q (Some (Some (array_put arr item, q'))) h'"
  shows "wp (append_entry arr item q again) Q h"
  unfolding append_entry_def wp_bind [of "builtin_array_append _ _"]
  apply (rule wp_builtin_array_append [OF arr])
  subgoal for h' using comma close
    by (auto intro!: wp_next_entry fail intro: steps_trans)
  subgoal for h' by (auto intro!: fail simp: steps_def)
  done

lemma wp_set_entry:
  assumes obj: "is_object obj" and key: "utf8_valid (cstr key)"
    and fail: "\<And>n h'. steps (n - blocks obj - blocks val - 1) h h' \<Longrightarrow> n \<le> 0 \<Longrightarrow>
      (script h = [] \<longrightarrow> n = 0) \<Longrightarrow> Q (Some None) h'"
    and comma: "\<And>w q' h'. ws w \<Longrightarrow> q = w @ CHR '','' # q' \<Longrightarrow>
      steps (blocks (object_put obj (cstr key) val) - blocks obj - blocks val - 1) h h' \<Longrightarrow>
      wp (again q' (object_put obj (cstr key) val)) Q h'"
    and close: "\<And>w q' h'. ws w \<Longrightarrow> q = w @ CHR ''}'' # q' \<Longrightarrow>
      steps (blocks (object_put obj (cstr key) val) - blocks obj - blocks val - 1) h h' \<Longrightarrow>
      Q (Some (Some (object_put obj (cstr key) val, q'))) h'"
  shows "wp (set_entry obj key val q again) Q h"
  unfolding set_entry_def wp_bind [of "builtin_object_set _ _ _"]
proof (rule wp_builtin_object_set [OF obj], goal_cases)
  case (1 h')
  then have s: "steps (blocks (object_put obj (cstr key) val) - blocks obj - blocks val - 1) h (h'\<lparr>live := live h' - 1\<rparr>)"
    by (simp add: steps_def)
  show ?case using comma [OF _ _ s] close [OF _ _ s] s
    by (auto intro!: wp_next_entry fail [of 0] intro: steps_trans)
next
  case (3 ms cap cap' h' n)
  then show ?case
    by (auto intro!: fail [of "n + blocks obj - blocks (JObject ms cap')"] simp: steps_def)
qed (use key in simp)

lemma wp_parse_key:
  assumes fail: "\<And>h'. steps (- blocks obj) h h' \<Longrightarrow> Q None h'"
    and ok: "\<And>w k t w1 w2 q h'. p = w @ k @ w1 @ CHR '':'' # w2 @ q \<Longrightarrow> ws w \<Longrightarrow> ws w1 \<Longrightarrow> ws w2 \<Longrightarrow>
      json_string k t \<Longrightarrow> steps 1 h h' \<Longrightarrow> Q (Some (t, q)) h'"
  shows "wp (parse_key p obj) Q h"
proof -
  obtain w where w: "p = w @ skip_ws p" "ws w" by (rule skip_ws_split)
  show ?thesis
  proof (cases "skip_ws p = [] \<or> hd (skip_ws p) \<noteq> CHR 0x22")
    case True
    then show ?thesis by (auto simp: parse_key_def steps_def intro!: fail)
  next
    case False
    then have q: "skip_ws p \<noteq> []" "hd (skip_ws p) = CHR 0x22" by auto
    have "wp (parse_string_raw (skip_ws p)) (\<lambda>key. wp (case key of
        None \<Rightarrow> do { builtin_destroy obj; ret None }
      | Some (key, q) \<Rightarrow>
          (let q = skip_ws q
           in if q = [] \<or> hd q \<noteq> CHR '':'' then do { xfree True; builtin_destroy obj; ret None }
              else ret (Some (key, skip_ws (tl q))))) Q) h"
    proof (rule wp_mono [OF parse_string_raw_sound [OF q]], goal_cases)
      case (1 r h')
      show ?case
      proof (cases r)
        case None
        with 1 show ?thesis by (auto simp: steps_def intro!: fail)
      next
        case (Some tr)
        then obtain t r' where r: "r = Some (t, r')" by (cases tr) auto
        with 1 obtain k where k: "skip_ws p = k @ r'" "json_string k t" "steps 1 h h'" by auto
        obtain w1 where w1: "r' = w1 @ skip_ws r'" "ws w1" by (rule skip_ws_split)
        obtain w2 where w2: "tl (skip_ws r') = w2 @ skip_ws (tl (skip_ws r'))" "ws w2" by (rule skip_ws_split)
        show ?thesis
        proof (cases "skip_ws r' = [] \<or> hd (skip_ws r') \<noteq> CHR '':''")
          case True
          with k(3) show ?thesis by (auto simp: r steps_def intro!: fail)
        next
          case False
          then have "skip_ws r' = CHR '':'' # w2 @ skip_ws (tl (skip_ws r'))"
            using w2(1) by (cases "skip_ws r'") auto
          then have "p = w @ k @ w1 @ CHR '':'' # w2 @ skip_ws (tl (skip_ws r'))"
            using w(1) k(1) w1(1) by simp
          from ok [OF this w(2) w1(2) w2(2) k(2,3)] show ?thesis using False by (simp add: r)
        qed
      qed
    qed
    with False show ?thesis by (simp add: parse_key_def)
  qed
qed

lemma wp_open_container:
  assumes mk: "mk = do { ok \<leftarrow> value_new; ret (if ok then Some v else None) }" and p: "p \<noteq> []"
    and deep: "MCP_JSON_MAX_DEPTH < depth \<Longrightarrow> Q (Some None) h"
    and nomem: "\<And>h'. steps 0 h h' \<Longrightarrow> Q (Some None) h'"
    and close: "\<And>w q h'. depth \<le> MCP_JSON_MAX_DEPTH \<Longrightarrow> ws w \<Longrightarrow> p = hd p # w @ c # q \<Longrightarrow>
      steps 1 h h' \<Longrightarrow> Q (Some (Some (v, q))) h'"
    and loop: "\<And>w q h'. depth \<le> MCP_JSON_MAX_DEPTH \<Longrightarrow> ws w \<Longrightarrow> p = hd p # w @ q \<Longrightarrow>
      steps 1 h h' \<Longrightarrow> wp (loop q v) Q h'"
  shows "wp (open_container depth p c mk loop) Q h"
proof (cases "MCP_JSON_MAX_DEPTH < depth")
  case True
  then show ?thesis using deep by (simp add: open_container_def)
next
  case False
  obtain w where w: "tl p = w @ skip_ws (tl p)" "ws w" by (rule skip_ws_split)
  then have p': "p = hd p # w @ skip_ws (tl p)" using p by (cases p) auto
  have "wp mk (\<lambda>v. wp (case v of None \<Rightarrow> ret (Some None)
      | Some v \<Rightarrow>
          (let q = skip_ws (tl p)
           in if q \<noteq> [] \<and> hd q = c then ret (Some (Some (v, tl q))) else loop q v)) Q) h"
    unfolding mk
  proof (rule wp_new_leaf, goal_cases)
    case (1 h')
    then show ?case
      using False close [of w "tl (skip_ws (tl p))" h'] loop [of w "skip_ws (tl p)" h'] w(2) p'
      by (cases "skip_ws (tl p)") (auto simp: Let_def)
  next
    case (2 h')
    then show ?case by (simp add: nomem)
  qed
  with False show ?thesis by (simp add: open_container_def)
qed

definition fail_post :: "'z heap_scheme \<Rightarrow> 'z heap_scheme \<Rightarrow> bool" where
  "fail_post h h' \<longleftrightarrow> (\<exists>n \<le> 0. steps n h h' \<and> (script h = [] \<longrightarrow> n = 0))"

definition items_post ::
  "nat \<Rightarrow> string \<Rightarrow> json list \<Rightarrow> 'z heap_scheme \<Rightarrow> (json \<times> string) option \<Rightarrow> 'z heap_scheme \<Rightarrow> bool" where
  "items_post d p vs h r h' \<longleftrightarrow>
     (case r of
        None \<Rightarrow> fail_post h h'
      | Some (v, q) \<Rightarrow> steps (blocks v) h h' \<and>
          (\<exists>s us. p = s @ CHR '']'' # q \<and> json_elems d s us \<and> v = array_of (vs @ us)))"

definition pairs_post ::
  "nat \<Rightarrow> string \<Rightarrow> (string \<times> json) list \<Rightarrow> 'z heap_scheme \<Rightarrow> (json \<times> string) option \<Rightarrow> 'z heap_scheme \<Rightarrow> bool" where
  "pairs_post d p kvs h r h' \<longleftrightarrow>
     (case r of
        None \<Rightarrow> fail_post h h'
      | Some (v, q) \<Rightarrow> steps (blocks v) h h' \<and>
          (\<exists>s us. p = s @ CHR ''}'' # q \<and> json_members d s us \<and> v = object_of (kvs @ us)))"

text \<open>The recursion has enough fuel when the fuel is above \<open>bound\<close>.\<close>

definition fueled ::
  "nat \<Rightarrow> nat \<Rightarrow> ('a \<Rightarrow> 's \<Rightarrow> bool) \<Rightarrow> 'a option \<Rightarrow> 's \<Rightarrow> bool" where
  "fueled f bound post r h' \<longleftrightarrow> (case r of None \<Rightarrow> f < bound | Some r \<Rightarrow> post r h')"

lemma fueled_simps [simp]:
  "fueled f bound post None h' \<longleftrightarrow> f < bound" "fueled f bound post (Some r) h' \<longleftrightarrow> post r h'"
  by (simp_all add: fueled_def)

lemma fueled_mono:
  "fueled f b post r h' \<Longrightarrow> (f < b \<Longrightarrow> f' < b') \<Longrightarrow> (\<And>x. post x h' \<Longrightarrow> post' x h') \<Longrightarrow> fueled f' b' post' r h'"
  by (cases r) auto

lemma parse_post_fail [simp]: "parse_post d p h None h' \<longleftrightarrow> fail_post h h'"
  by (simp add: parse_post_def fail_post_def)

lemma fail_post_trans: "steps k h0 h \<Longrightarrow> fail_post h h' \<Longrightarrow> steps (- k) h' h'' \<Longrightarrow> fail_post h0 h''"
  by (force simp: fail_post_def steps_def)

lemma result_cases:
  fixes r :: "('a \<times> 'b) option option"
  obtains (fuel) "r = None" | (null) "r = Some None" | (read) v q where "r = Some (Some (v, q))"
  by (metis option.exhaust surj_pair)

lemma items_step:
  fixes h0 h :: "'z heap_scheme"
  assumes IHv: "\<And>p (h :: 'z heap_scheme). wp (parse_value f depth p) (fueled f (2 * length p + 1) (parse_post d p h)) h"
    and IHi: "\<And>p vs (h0 :: 'z heap_scheme) h. steps (blocks (array_of vs)) h0 h \<Longrightarrow>
      wp (parse_items f depth p (array_of vs)) (fueled f (2 * length p + 2) (items_post d p vs h0)) h"
    and s0: "steps (blocks (array_of vs)) h0 h"
  shows "wp (parse_items (Suc f) depth p (array_of vs)) (fueled (Suc f) (2 * length p + 2) (items_post d p vs h0)) h"
  unfolding parse_items.simps wp_bind [of "parse_value _ _ _"]
proof (rule wp_mono [OF IHv], goal_cases)
  case (1 r h1)
  obtain w where w: "p = w @ skip_ws p" "ws w" by (rule skip_ws_split)
  have len: "length (skip_ws p) \<le> length p" using w(1) by (metis length_append le_add2)
  show ?case
  proof (cases r rule: result_cases)
    case fuel
    with \<open>fueled _ _ _ r h1\<close> len show ?thesis by simp
  next
    case null
    with \<open>fueled _ _ _ r h1\<close> s0 show ?thesis
      by (auto simp: items_post_def steps_def intro: fail_post_trans [OF s0])
  next
    case (read v q)
    with \<open>fueled _ _ _ r h1\<close> obtain s where s: "skip_ws p = s @ q" "json_text d s v" "steps (blocks v) h h1"
      by (auto simp: parse_post_def)
    have elem: "json_elems d (w @ s @ w') [v]" if "ws w'" for w'
      using w(2) s(2) that by (rule elem)
    have "wp (append_entry (array_of vs) v q (parse_items f depth)) (fueled (Suc f) (2 * length p + 2) (items_post d p vs h0)) h1"
    proof (rule wp_append_entry, goal_cases)
      case (2 h')
      then have "steps 0 h0 h'" using s(3) s0 by (simp add: steps_def)
      then show ?case by (auto simp: items_post_def fail_post_def)
    next
      case (3 w' q' h')
      then have "steps (blocks (array_of (vs @ [v]))) h0 h'"
        using s(3) s0 by (simp add: array_of_snoc steps_def)
      from IHi [OF this, of q'] show ?case unfolding array_of_snoc [symmetric]
      proof (rule wp_mono, elim fueled_mono, goal_cases)
        case (1 r' h'')
        have "length p = length w + length s + length q" using s(1) w(1) by (metis length_append add.assoc)
        with 1 3(2) show ?case by simp
      next
        case (2 r' h'' x)
        have "json_elems d (w @ s @ w' @ CHR '','' # s') (v # us)" if "json_elems d s' us" for s' us
          using w(2) s(2) 3(1) that by (rule elems)
        then have "\<exists>s us'. p = s @ CHR '']'' # q'' \<and> json_elems d s us' \<and> u = array_of (vs @ us')"
          if "q' = s' @ CHR '']'' # q''" "json_elems d s' us" "u = array_of (vs @ v # us)" for s' q'' us u
          using that 3(2) s(1) w(1) by (intro exI [of _ "w @ s @ w' @ CHR '','' # s'"] exI [of _ "v # us"]) simp
        with 2 show ?case by (auto simp: items_post_def split: option.splits)
      qed
    next
      case (4 w' q' h')
      then have "steps (blocks (array_of (vs @ [v]))) h0 h'"
        using s(3) s0 by (simp add: array_of_snoc steps_def)
      with 4 elem [OF 4(1)] w(1) s(1) show ?case
        by (auto simp: items_post_def array_of_snoc [symmetric] intro!: exI [of _ "w @ s @ w'"] exI [of _ "[v]"])
    qed simp
    with read show ?thesis by simp
  qed
qed

lemma pairs_step:
  fixes h0 h :: "'z heap_scheme"
  assumes IHv: "\<And>p (h :: 'z heap_scheme). wp (parse_value f depth p) (fueled f (2 * length p + 1) (parse_post d p h)) h"
    and IHi: "\<And>p kvs (h0 :: 'z heap_scheme) h. steps (blocks (object_of kvs)) h0 h \<Longrightarrow>
      wp (parse_pairs f depth p (object_of kvs)) (fueled f (2 * length p + 2) (pairs_post d p kvs h0)) h"
    and s0: "steps (blocks (object_of kvs)) h0 h"
  shows "wp (parse_pairs (Suc f) depth p (object_of kvs)) (fueled (Suc f) (2 * length p + 2) (pairs_post d p kvs h0)) h"
  unfolding parse_pairs.simps wp_bind [of "parse_key _ _"]
proof (rule wp_parse_key, goal_cases)
  case (1 h1)
  then have "steps 0 h0 h1" using s0 by (simp add: steps_def)
  then show ?case by (auto simp: pairs_post_def fail_post_def)
next
  case (2 w k t w1 w2 q h1)
  then have s1: "steps (blocks (object_of kvs) + 1) h0 h1" using s0 by (simp add: steps_def)
  have "wp (parse_value f depth q) (\<lambda>val. wp (case val of None \<Rightarrow> ret None
      | Some None \<Rightarrow> do { xfree True; builtin_destroy (object_of kvs); ret (Some None) }
      | Some (Some (val, q)) \<Rightarrow> set_entry (object_of kvs) t val q (parse_pairs f depth))
      (fueled (Suc f) (2 * length p + 2) (pairs_post d p kvs h0))) h1"
  proof (rule wp_mono [OF IHv], goal_cases)
    case (1 r h2)
    show ?case
    proof (cases r rule: result_cases)
      case fuel
      with 1 2(1) show ?thesis by simp
    next
      case null
      with 1 show ?thesis
        by (auto simp: pairs_post_def steps_def intro: fail_post_trans [OF s1])
    next
      case (read v q1)
      with 1 obtain s where s: "q = s @ q1" "json_text d s v" "steps (blocks v) h1 h2"
        by (auto simp: parse_post_def)
      have len: "length q1 < length p" using 2(1) s(1) by simp
      note mem = member [OF 2(2,5,3,4) s(2)] and mems = members [OF 2(2,5,3,4) s(2)]
      have key: "utf8_valid (cstr t)" using 2(5) wf_text_cstr [of t] by (auto simp: json_string_def wf_text_def)
      have put: "steps (blocks (object_of (kvs @ [(cstr t, v)]))) h0 h'"
        if "steps (blocks (object_put (object_of kvs) (cstr t) v) - blocks (object_of kvs) - blocks v - 1) h2 h'" for h'
        using that s1 s(3) by (simp add: object_of_snoc steps_def)
      have "wp (set_entry (object_of kvs) t v q1 (parse_pairs f depth))
          (fueled (Suc f) (2 * length p + 2) (pairs_post d p kvs h0)) h2"
        unfolding set_entry_def [symmetric]
      proof (rule wp_set_entry [OF _ key], goal_cases)
        case (2 n h')
        then have "steps n h0 h'" "script h0 = [] \<longrightarrow> n = 0" using s1 s(3) by (auto simp: steps_def)
        with 2 show ?case by (auto simp: pairs_post_def fail_post_def)
      next
        case (3 w' q' h')
        have "\<exists>s us'. p = s @ CHR ''}'' # q'' \<and> json_members d s us' \<and> u = object_of (kvs @ us')"
          if "q' = s' @ CHR ''}'' # q''" "json_members d s' us" "u = object_of (kvs @ (cstr t, v) # us)" for s' q'' us u
          using mems [OF 3(1) that(2)] that 3(2) s(1) 2(1)
          by (intro exI [of _ "w @ k @ w1 @ CHR '':'' # w2 @ s @ w' @ CHR '','' # s'"] exI [of _ "(cstr t, v) # us"]) simp
        then have post: "pairs_post d q' (kvs @ [(cstr t, v)]) h0 x h'' \<Longrightarrow> pairs_post d p kvs h0 x h''" for x h''
          by (auto simp: pairs_post_def split: option.splits)
        from IHi [OF put [OF 3(3)], of q'] show ?case unfolding object_of_snoc [symmetric]
          by (rule wp_mono, elim fueled_mono) (use 3(2) len post in simp_all)
      next
        case (4 w' q' h')
        with put [OF 4(3)] mem [OF 4(1)] s(1) 2(1) show ?case
          by (auto simp: pairs_post_def object_of_snoc [symmetric]
              intro!: exI [of _ "w @ k @ w1 @ CHR '':'' # w2 @ s @ w'"] exI [of _ "[(cstr t, v)]"])
      qed simp
      with read show ?thesis by simp
    qed
  qed
  then show ?case by simp
qed

lemma value_step:
  fixes h :: "'z heap_scheme"
  assumes IHi: "\<And>depth p vs (h0 :: 'z heap_scheme) h. steps (blocks (array_of vs)) h0 h \<Longrightarrow>
      wp (parse_items f depth p (array_of vs))
        (fueled f (2 * length p + 2) (items_post (MCP_JSON_MAX_DEPTH - depth) p vs h0)) h"
    and IHp: "\<And>depth p kvs (h0 :: 'z heap_scheme) h. steps (blocks (object_of kvs)) h0 h \<Longrightarrow>
      wp (parse_pairs f depth p (object_of kvs))
        (fueled f (2 * length p + 2) (pairs_post (MCP_JSON_MAX_DEPTH - depth) p kvs h0)) h"
  shows "wp (parse_value (Suc f) depth p)
    (fueled (Suc f) (2 * length p + 1) (parse_post (MCP_JSON_MAX_DEPTH - depth) p h)) h"
proof -
  let ?Q = "fueled (Suc f) (2 * length p + 1) (parse_post (MCP_JSON_MAX_DEPTH - depth) p h)"
  have fail: "?Q (Some None) h'" if "steps 0 h h'" for h' :: "'z heap_scheme"
    using that by (auto simp: fail_post_def)
  have arr: "wp (open_container (depth + 1) p CHR '']'' builtin_new_array (parse_items f (depth + 1))) ?Q h"
    if p: "p \<noteq> []" "hd p = CHR ''[''"
  proof (rule wp_open_container [OF builtin_new_array_def p(1)], goal_cases)
    case (3 w q h')
    with array_empty [OF 3(2), of "MCP_JSON_MAX_DEPTH - (depth + 1)"] show ?case
      using p by (auto simp: parse_post_def Suc_diff_Suc intro!: exI [of _ "CHR ''['' # w @ '']''"])
  next
    case (4 w q h')
    have "parse_post (MCP_JSON_MAX_DEPTH - depth) p h r h''"
      if "items_post (MCP_JSON_MAX_DEPTH - (depth + 1)) q [] h r h''" for r h''
      using that 4(1,3) p array [OF json_elems_ws [OF _ 4(2)]]
      by (force simp: items_post_def parse_post_def Suc_diff_Suc simp flip: fail_post_def split: option.splits)
    moreover have "length q < length p" using 4(3) by (metis length_Cons length_append less_Suc_eq_le le_add2)
    moreover have "wp (parse_items f (depth + 1) q (JArray [] 0))
        (fueled f (2 * length q + 2) (items_post (MCP_JSON_MAX_DEPTH - (depth + 1)) q [] h)) h'"
      using IHi [of "[]" h h' "depth + 1" q] 4(4) by (simp add: array_of_def)
    ultimately show ?case by (elim wp_mono fueled_mono) auto
  qed (use fail in auto)
  have obj: "wp (open_container (depth + 1) p CHR ''}'' builtin_new_object (parse_pairs f (depth + 1))) ?Q h"
    if p: "p \<noteq> []" "hd p = CHR ''{''"
  proof (rule wp_open_container [OF builtin_new_object_def p(1)], goal_cases)
    case (3 w q h')
    with object_empty [OF 3(2), of "MCP_JSON_MAX_DEPTH - (depth + 1)"] show ?case
      using p by (auto simp: parse_post_def Suc_diff_Suc intro!: exI [of _ "CHR ''{'' # w @ ''}''"])
  next
    case (4 w q h')
    have "parse_post (MCP_JSON_MAX_DEPTH - depth) p h r h''"
      if "pairs_post (MCP_JSON_MAX_DEPTH - (depth + 1)) q [] h r h''" for r h''
      using that 4(1,3) p object [OF json_members_ws [OF _ 4(2)]]
      by (force simp: pairs_post_def parse_post_def Suc_diff_Suc simp flip: fail_post_def split: option.splits)
    moreover have "length q < length p" using 4(3) by (metis length_Cons length_append less_Suc_eq_le le_add2)
    moreover have "wp (parse_pairs f (depth + 1) q (JObject [] 0))
        (fueled f (2 * length q + 2) (pairs_post (MCP_JSON_MAX_DEPTH - (depth + 1)) q [] h)) h'"
      using IHp [of "[]" h h' "depth + 1" q] 4(4) by (simp add: object_of_def)
    ultimately show ?case by (elim wp_mono fueled_mono) auto
  qed (use fail in auto)
  have scalar: "wp (parse_scalar p) (\<lambda>r. ?Q (Some r)) h" if "p \<noteq> []"
    by (rule wp_mono [OF parse_scalar_sound [OF that]]) simp
  show ?thesis using arr obj scalar fail [of h] by (auto simp del: fueled_simps)
qed

lemma parse_sound_all:
  fixes h :: "'z heap_scheme"
  shows "wp (parse_value f depth p) (fueled f (2 * length p + 1) (parse_post (MCP_JSON_MAX_DEPTH - depth) p h)) h"
    and "steps (blocks (array_of vs)) h0 h \<Longrightarrow> wp (parse_items f depth p (array_of vs))
      (fueled f (2 * length p + 2) (items_post (MCP_JSON_MAX_DEPTH - depth) p vs h0)) h"
    and "steps (blocks (object_of kvs)) h0 h \<Longrightarrow> wp (parse_pairs f depth p (object_of kvs))
      (fueled f (2 * length p + 2) (pairs_post (MCP_JSON_MAX_DEPTH - depth) p kvs h0)) h"
proof (induction f arbitrary: depth p h vs h0 kvs)
  case 0
  {
    case 1 show ?case by simp
  next
    case 2 then show ?case by simp
  next
    case 3 then show ?case by simp
  }
next
  case (Suc f)
  {
    case 1
    show ?case by (rule value_step [OF Suc(2,3)])
  next
    case 2
    then show ?case by (intro items_step Suc(1,2))
  next
    case 3
    then show ?case by (intro pairs_step Suc(1,3))
  }
qed

section \<open>Every text of the grammar is read\<close>

lemma grow_append_complete:
  "gb_ok b \<Longrightarrow> gb_inv b \<Longrightarrow> script h = [] \<Longrightarrow>
   wp (grow_append b x) (\<lambda>b' h'. gb_ok b' \<and> gb_inv b' \<and> gb_data b' = gb_data b @ x \<and> script h' = []) h"
  by (rule wp_grow_append) (auto simp: steps_def)

lemma string_loop_complete:
  "json_chars s t \<Longrightarrow> gb_ok b \<Longrightarrow> gb_inv b \<Longrightarrow> script h = [] \<Longrightarrow>
   wp (string_loop (s @ CHR 0x22 # q) b)
     (\<lambda>r h'. snd r = Some q \<and> gb_ok (fst r) \<and> gb_inv (fst r) \<and> gb_data (fst r) = gb_data b @ t \<and> script h' = []) h"
proof (induction "length s" arbitrary: s t b h rule: less_induct)
  case less
  show ?case
  proof (cases "s = []")
    case True
    with less.prems(1) have "t = []" by (auto elim: json_chars.cases)
    with True less.prems show ?thesis by (subst string_loop.simps) simp
  next
    case False
    with less.prems(1) obtain x s' t' where s: "json_chars s' t'" "t = x @ t'" "hd s \<noteq> CHR 0x22"
      "\<And>q. string_item (s @ q) = Some (x, s' @ q)" "length s' < length s" by (rule json_chars_Cons_cases) blast
    have "wp (grow_append b x) (\<lambda>b'. wp (if hd (s @ CHR 0x22 # q) = CHR 0x5C \<and> \<not> gb_ok b' then ret (b', None)
        else string_loop (s' @ CHR 0x22 # q) b')
        (\<lambda>r h'. snd r = Some q \<and> gb_ok (fst r) \<and> gb_inv (fst r) \<and> gb_data (fst r) = gb_data b @ t \<and> script h' = [])) h"
    proof (rule wp_mono [OF grow_append_complete [OF less.prems(2-4)]], goal_cases)
      case (1 b' h')
      then show ?case using less.hyps [OF s(5,1), of b' h'] s(2) by auto
    qed
    with False s(3,4) show ?thesis by (subst string_loop.simps) simp
  qed
qed

lemma parse_string_raw_complete:
  assumes "json_string k t"
  shows "yields (parse_string_raw (k @ q)) (Some (t, q))"
proof (rule yieldsI)
  fix h :: "'z heap_scheme"
  assume h: "script h = []"
  from assms obtain b where b: "k = CHR 0x22 # b @ [CHR 0x22]" "json_chars b t" "utf8_valid t"
    by (auto simp: json_string_def)
  have "gb_cap x = 0 \<Longrightarrow> gb_inv x \<Longrightarrow> gb_data x = []" for x by (simp add: gb_inv_def)
  then show "wp (parse_string_raw (k @ q)) (\<lambda>r h'. r = Some (t, q) \<and> script h' = []) h"
    unfolding parse_string_raw_def wp_bind b(1)
    using b(3) by (auto intro!: wp_mono [OF string_loop_complete [OF b(2) _ _ h]] simp: h split: prod.splits)
qed

lemma parse_number_complete:
  assumes "json_number s" and "strtod s = (x, [])" and "isfinite x" and "number_stop q"
  shows "yields (parse_number (s @ q)) (Some (JNumber x, q))"
proof -
  have "yields (builtin_new_number x \<bind> (\<lambda>v. ret (with_pos q v))) (Some (JNumber x, q))"
    using assms(3) by (intro yields_bind [OF yields_new_number]) (auto simp: with_pos_def intro: yields_ret)
  then show ?thesis
    using assms(2,3) scan_number_complete [OF assms(1,4)]
    by (auto simp: parse_number_def intro!: yields_bind [OF yields_xmalloc] yields_bind [OF yields_xfree])
qed

lemma json_number_hd:
  "json_number s \<Longrightarrow> s \<noteq> [] \<and> (hd s = CHR ''-'' \<or> is_digit (hd s))"
  by (auto simp: json_number_def json_int_def list_all_iff hd_append)

lemma json_text_nonempty: "json_text d s v \<Longrightarrow> s \<noteq> []"
  by (erule json_text.cases) (auto simp: json_string_def dest: json_number_hd)

lemma json_text_not_ws: "json_text d s v \<Longrightarrow> \<not> is_ws (hd s)"
  by (erule json_text.cases) (auto simp: json_string_def is_ws_def is_digit_def dest!: json_number_hd)

lemma json_text_hd: "json_text d s v \<Longrightarrow> hd s \<noteq> CHR '']''"
  by (erule json_text.cases) (auto simp: json_string_def is_digit_def dest!: json_number_hd)

lemma number_stop_ws: "ws w \<Longrightarrow> w \<noteq> [] \<or> number_stop r \<Longrightarrow> number_stop (w @ r)"
  by (cases w) (auto simp: number_stop_def ws_def is_ws_def is_digit_def)

lemma number_stop_char: "c \<in> {CHR '','', CHR '']'', CHR ''}''} \<Longrightarrow> number_stop (c # r)"
  by (auto simp: number_stop_def is_digit_def)

lemma parse_scalar_complete:
  shows "yields (parse_scalar (''null'' @ q)) (Some (JNull, q))"
    and "yields (parse_scalar (''true'' @ q)) (Some (JBool True, q))"
    and "yields (parse_scalar (''false'' @ q)) (Some (JBool False, q))"
  by (auto simp: parse_scalar_def parse_lit_def match_lit_def with_pos_def
      intro!: yields_ret yields_bind [OF yields_new(1)] yields_bind [OF yields_new(2)])

lemma parse_scalar_string:
  assumes "json_string k t"
  shows "yields (parse_scalar (k @ q)) (Some (JString (cstr t), q))"
proof -
  from assms have k: "k \<noteq> []" "hd k = CHR 0x22" and t: "wf_text (cstr t)"
    by (auto simp: json_string_def wf_text_cstr)
  have "yields (do { v \<leftarrow> builtin_new_string_n (Some (cstr t)); xfree True; ret (with_pos q v) })
      (Some (JString (cstr t), q))"
    by (rule yields_bind [OF yields_new_string_n [OF t]], rule yields_bind [OF yields_xfree])
       (simp add: with_pos_def yields_ret)
  then show ?thesis
    using k by (auto simp: parse_scalar_def intro!: yields_bind [OF parse_string_raw_complete [OF assms]])
qed

lemma parse_scalar_number:
  assumes "json_number s" and "strtod s = (x, [])" and "isfinite x" and "number_stop q"
  shows "yields (parse_scalar (s @ q)) (Some (JNumber x, q))"
  using parse_number_complete [OF assms] json_number_hd [OF assms(1)]
  by (auto simp: parse_scalar_def is_digit_def)

text \<open>The completeness statements for values, elements and members.\<close>

definition reads_value :: "'z itself \<Rightarrow> nat \<Rightarrow> string \<Rightarrow> json \<Rightarrow> bool" where
  "reads_value _ d s v \<longleftrightarrow>
     (\<forall>f depth q. 2 * length (s @ q) + 1 \<le> f \<longrightarrow> depth + d \<le> MCP_JSON_MAX_DEPTH \<longrightarrow> number_stop q \<longrightarrow>
        yields (parse_value f depth (s @ q) :: ('z heap_scheme, _) state) (Some (Some (v, q))))"

definition reads_items :: "'z itself \<Rightarrow> nat \<Rightarrow> string \<Rightarrow> json list \<Rightarrow> bool" where
  "reads_items _ d s us \<longleftrightarrow>
     (\<forall>f depth q vs. 2 * length (s @ CHR '']'' # q) + 2 \<le> f \<longrightarrow> depth + d \<le> MCP_JSON_MAX_DEPTH \<longrightarrow>
        yields (parse_items f depth (s @ CHR '']'' # q) (array_of vs) :: ('z heap_scheme, _) state)
          (Some (Some (array_of (vs @ us), q))))"

definition reads_pairs :: "'z itself \<Rightarrow> nat \<Rightarrow> string \<Rightarrow> (string \<times> json) list \<Rightarrow> bool" where
  "reads_pairs _ d s us \<longleftrightarrow>
     (\<forall>f depth q kvs. 2 * length (s @ CHR ''}'' # q) + 2 \<le> f \<longrightarrow> depth + d \<le> MCP_JSON_MAX_DEPTH \<longrightarrow>
        yields (parse_pairs f depth (s @ CHR ''}'' # q) (object_of kvs) :: ('z heap_scheme, _) state)
          (Some (Some (object_of (kvs @ us), q))))"

lemma reads_scalar:
  assumes "\<And>q. number_stop q \<Longrightarrow> yields (parse_scalar (s @ q) :: ('z heap_scheme, _) state) (Some (v, q))"
    and "s \<noteq> []" and "hd s \<notin> {CHR ''['', CHR ''{''}"
  shows "reads_value TYPE('z) d s v"
  unfolding reads_value_def
proof (intro allI impI)
  fix f depth q
  assume "2 * length (s @ q) + 1 \<le> f" and "number_stop q"
  then obtain f' where "f = Suc f'" by (cases f) auto
  with assms \<open>number_stop q\<close> show "yields (parse_value f depth (s @ q) :: ('z heap_scheme, _) state) (Some (Some (v, q)))"
    by (auto intro!: yields_bind [OF assms(1)] yields_ret)
qed

lemma open_container_complete:
  assumes mk: "yields mk (Some v)" and depth: "depth \<le> MCP_JSON_MAX_DEPTH"
  shows "ws w \<Longrightarrow> \<not> is_ws c \<Longrightarrow> yields (open_container depth (x # w @ c # q) c mk loop) (Some (Some (v, q)))"
    and "skip_ws p \<noteq> [] \<Longrightarrow> hd (skip_ws p) \<noteq> c \<Longrightarrow> yields (loop (skip_ws p) v) r \<Longrightarrow>
      yields (open_container depth (x # p) c mk loop) r"
  using depth
  by (auto simp: open_container_def skip_ws_stop Let_def intro!: yields_bind [OF mk] yields_ret)

lemma next_entry_complete:
  assumes "ws w"
  shows "yields (again q v) r \<Longrightarrow> yields (next_entry c (w @ CHR '','' # q) v again) r"
    and "\<not> is_ws c \<Longrightarrow> c \<noteq> CHR '','' \<Longrightarrow> yields (next_entry c (w @ c # q) v again) (Some (Some (v, q)))"
  using assms by (auto simp: next_entry_def skip_ws_stop is_ws_def intro: yields_ret)

lemma append_entry_complete:
  "yields (next_entry CHR '']'' q (array_of (vs @ [v])) again) r \<Longrightarrow> yields (append_entry (array_of vs) v q again) r"
  unfolding append_entry_def by (rule yields_bind [OF yields_array_append]) (simp_all add: array_of_snoc)

lemma set_entry_complete:
  "utf8_valid (cstr key) \<Longrightarrow> yields (next_entry CHR ''}'' q (object_of (kvs @ [(cstr key, v)])) again) r \<Longrightarrow>
   yields (set_entry (object_of kvs) key v q again) r"
  unfolding set_entry_def
  by (rule yields_bind [OF yields_object_set], simp, simp, rule yields_bind [OF yields_xfree]) (simp add: object_of_snoc)

lemma parse_key_complete:
  assumes "ws w" and "json_string k t" and "ws w1"
  shows "yields (parse_key (w @ k @ w1 @ CHR '':'' # q) obj) (Some (t, skip_ws q))"
proof -
  from assms(2) have k: "k \<noteq> []" "hd k = CHR 0x22" by (auto simp: json_string_def)
  then have "skip_ws (w @ k @ w1 @ CHR '':'' # q) = k @ w1 @ CHR '':'' # q"
    using assms(1) by (simp add: skip_ws_stop is_ws_def)
  with k assms(3) show ?thesis
    by (auto simp: parse_key_def Let_def skip_ws_stop is_ws_def
        intro!: yields_bind [OF parse_string_raw_complete [OF assms(2)]] yields_ret)
qed

lemma skip_ws_text: "json_text d s v \<Longrightarrow> ws w \<Longrightarrow> skip_ws (w @ s @ q) = s @ q"
  using json_text_nonempty [of d s v] json_text_not_ws [of d s v] by (simp add: skip_ws_stop)

lemma items_complete_step:
  assumes w: "ws w" and v: "json_text d s v" "reads_value TYPE('z) d s v" and w': "ws w'"
    and fuel: "2 * length (w @ s @ w' @ r) + 2 \<le> f" and depth: "depth + d \<le> MCP_JSON_MAX_DEPTH"
    and stop: "number_stop r"
    and cont: "\<And>f'. f = Suc f' \<Longrightarrow> yields (next_entry CHR '']'' (w' @ r) (array_of (vs @ [v])) (parse_items f' depth)
      :: ('z heap_scheme, _) state) x"
  shows "yields (parse_items f depth (w @ s @ w' @ r) (array_of vs) :: ('z heap_scheme, _) state) x"
proof -
  obtain f' where f: "f = Suc f'" using fuel by (cases f) auto
  have "number_stop (w' @ r)" using number_stop_ws [OF w'] stop by auto
  then have "yields (parse_value f' depth (skip_ws (w @ s @ w' @ r)) :: ('z heap_scheme, _) state) (Some (Some (v, w' @ r)))"
    using v(2) fuel depth f unfolding skip_ws_text [OF v(1) w] reads_value_def by auto
  then show ?thesis
    unfolding f parse_items.simps by (rule yields_bind) (simp add: append_entry_complete cont [OF f])
qed

lemma pairs_complete_step:
  assumes w: "ws w" and k: "json_string k t" "ws w1" "ws w2" and v: "json_text d s v" "reads_value TYPE('z) d s v" and w': "ws w'"
    and fuel: "2 * length (w @ k @ w1 @ CHR '':'' # w2 @ s @ w' @ r) + 2 \<le> f" and depth: "depth + d \<le> MCP_JSON_MAX_DEPTH"
    and stop: "number_stop r"
    and cont: "\<And>f'. f = Suc f' \<Longrightarrow> yields (next_entry CHR ''}'' (w' @ r) (object_of (kvs @ [(cstr t, v)])) (parse_pairs f' depth)
      :: ('z heap_scheme, _) state) x"
  shows "yields (parse_pairs f depth (w @ k @ w1 @ CHR '':'' # w2 @ s @ w' @ r) (object_of kvs) :: ('z heap_scheme, _) state) x"
proof -
  obtain f' where f: "f = Suc f'" using fuel by (cases f) auto
  have "number_stop (w' @ r)" using number_stop_ws [OF w'] stop by auto
  then have val: "yields (parse_value f' depth (skip_ws (w2 @ s @ w' @ r)) :: ('z heap_scheme, _) state) (Some (Some (v, w' @ r)))"
    using v(2) fuel depth f unfolding skip_ws_text [OF v(1) k(3)] reads_value_def by auto
  have key: "utf8_valid (cstr t)" using k(1) wf_text_cstr [of t] by (auto simp: json_string_def wf_text_def)
  show ?thesis
    unfolding f parse_pairs.simps
    apply (rule yields_bind [OF parse_key_complete [OF w k(1,2)]])
    apply (simp del: parse_value.simps)
    apply (rule yields_bind [OF val])
    apply (simp add: set_entry_complete [OF key] cont [OF f])
    done
qed

lemma json_elems_start: "json_elems d s vs \<Longrightarrow> skip_ws (s @ r) \<noteq> [] \<and> hd (skip_ws (s @ r)) \<noteq> CHR '']''"
proof (erule json_elems.cases, goal_cases)
  case (1 w d s' v w')
  then show ?case using skip_ws_text [OF 1(5,4), of "w' @ r"] json_text_nonempty [OF 1(5)] json_text_hd [OF 1(5)] by simp
next
  case (2 w d s' v w' r' vs')
  then show ?case using skip_ws_text [OF 2(5,4), of "w' @ CHR '','' # r' @ r"] json_text_nonempty [OF 2(5)]
      json_text_hd [OF 2(5)] by simp
qed

lemma json_members_start: "json_members d s kvs \<Longrightarrow> skip_ws (s @ r) \<noteq> [] \<and> hd (skip_ws (s @ r)) \<noteq> CHR ''}''"
  by (erule json_members.cases) (auto simp: json_string_def skip_ws_stop is_ws_def)

lemma parse_items_skip: "parse_items f depth (skip_ws p) arr = parse_items f depth p arr"
  by (cases f) simp_all

lemma parse_pairs_skip: "parse_pairs f depth (skip_ws p) obj = parse_pairs f depth p obj"
  by (cases f) (simp_all add: parse_key_def)

lemma reads_valueD:
  "reads_value TYPE('z) d s v \<Longrightarrow> 2 * length (s @ q) + 1 \<le> f \<Longrightarrow> depth + d \<le> MCP_JSON_MAX_DEPTH \<Longrightarrow>
   number_stop q \<Longrightarrow>
   yields (parse_value f depth (s @ q) :: ('z heap_scheme, _) state) (Some (Some (v, q)))"
  by (auto simp only: reads_value_def)

lemma reads_itemsD:
  "reads_items TYPE('z) d s us \<Longrightarrow> 2 * length (s @ CHR '']'' # q) + 2 \<le> f \<Longrightarrow> depth + d \<le> MCP_JSON_MAX_DEPTH \<Longrightarrow>
   u = array_of (vs @ us) \<Longrightarrow>
   yields (parse_items f depth (s @ CHR '']'' # q) (array_of vs) :: ('z heap_scheme, _) state) (Some (Some (u, q)))"
  by (auto simp: reads_items_def)

lemma reads_pairsD:
  "reads_pairs TYPE('z) d s us \<Longrightarrow> 2 * length (s @ CHR ''}'' # q) + 2 \<le> f \<Longrightarrow> depth + d \<le> MCP_JSON_MAX_DEPTH \<Longrightarrow>
   u = object_of (kvs @ us) \<Longrightarrow>
   yields (parse_pairs f depth (s @ CHR ''}'' # q) (object_of kvs) :: ('z heap_scheme, _) state) (Some (Some (u, q)))"
  by (auto simp: reads_pairs_def)

lemma reads_array:
  assumes "json_elems d s vs" and "reads_items TYPE('z) d s vs"
  shows "reads_value TYPE('z) (Suc d) (CHR ''['' # s @ '']'') (array_of vs)"
  unfolding reads_value_def
proof (intro allI impI)
  fix f depth q
  assume f: "2 * length ((CHR ''['' # s @ '']'') @ q) + 1 \<le> f" and d: "depth + Suc d \<le> MCP_JSON_MAX_DEPTH"
  then obtain f' where f': "f = Suc f'" by (cases f) auto
  have "yields (parse_items f' (depth + 1) (s @ CHR '']'' # q) (array_of []) :: ('z heap_scheme, _) state)
      (Some (Some (array_of ([] @ vs), q)))"
    by (rule reads_itemsD [OF assms(2)]) (use f d f' in simp_all)
  then have "yields (open_container (depth + 1) (CHR ''['' # s @ CHR '']'' # q) CHR '']'' builtin_new_array
      (parse_items f' (depth + 1)) :: ('z heap_scheme, _) state) (Some (Some (array_of vs, q)))"
    using json_elems_start [OF assms(1), of "CHR '']'' # q"] d
    by (intro open_container_complete(2) [OF yields_new(3)]) (auto simp: parse_items_skip array_of_def)
  with f' show "yields (parse_value f depth ((CHR ''['' # s @ '']'') @ q) :: ('z heap_scheme, _) state)
      (Some (Some (array_of vs, q)))" by simp
qed

lemma reads_object:
  assumes "json_members d s kvs" and "reads_pairs TYPE('z) d s kvs"
  shows "reads_value TYPE('z) (Suc d) (CHR ''{'' # s @ ''}'') (object_of kvs)"
  unfolding reads_value_def
proof (intro allI impI)
  fix f depth q
  assume f: "2 * length ((CHR ''{'' # s @ ''}'') @ q) + 1 \<le> f" and d: "depth + Suc d \<le> MCP_JSON_MAX_DEPTH"
  then obtain f' where f': "f = Suc f'" by (cases f) auto
  have "yields (parse_pairs f' (depth + 1) (s @ CHR ''}'' # q) (object_of []) :: ('z heap_scheme, _) state)
      (Some (Some (object_of ([] @ kvs), q)))"
    by (rule reads_pairsD [OF assms(2)]) (use f d f' in simp_all)
  then have "yields (open_container (depth + 1) (CHR ''{'' # s @ CHR ''}'' # q) CHR ''}'' builtin_new_object
      (parse_pairs f' (depth + 1)) :: ('z heap_scheme, _) state) (Some (Some (object_of kvs, q)))"
    using json_members_start [OF assms(1), of "CHR ''}'' # q"] d
    by (intro open_container_complete(2) [OF yields_new(4)]) (auto simp: parse_pairs_skip object_of_def)
  with f' show "yields (parse_value f depth ((CHR ''{'' # s @ ''}'') @ q) :: ('z heap_scheme, _) state)
      (Some (Some (object_of kvs, q)))" by simp
qed

lemma reads_empty:
  assumes "ws w"
  shows "reads_value TYPE('z) (Suc d) (CHR ''['' # w @ '']'') (JArray [] 0)"
    and "reads_value TYPE('z) (Suc d) (CHR ''{'' # w @ ''}'') (JObject [] 0)"
proof -
  have "yields (parse_value f depth ((CHR ''['' # w @ '']'') @ q) :: ('z heap_scheme, _) state) (Some (Some (JArray [] 0, q)))"
    and "yields (parse_value f depth ((CHR ''{'' # w @ ''}'') @ q) :: ('z heap_scheme, _) state) (Some (Some (JObject [] 0, q)))"
    if "2 * length ((CHR ''['' # w @ '']'') @ q) + 1 \<le> f" "depth + Suc d \<le> MCP_JSON_MAX_DEPTH" for f depth q
    using that assms
    by (cases f; auto intro!: open_container_complete(1) yields_new simp: is_ws_def)+
  then show "reads_value TYPE('z) (Suc d) (CHR ''['' # w @ '']'') (JArray [] 0)"
    and "reads_value TYPE('z) (Suc d) (CHR ''{'' # w @ ''}'') (JObject [] 0)"
    unfolding reads_value_def by simp_all
qed

lemma json_text_complete:
  "json_text d s v \<Longrightarrow> reads_value TYPE('z) d s v"
  "json_elems d s us \<Longrightarrow> reads_items TYPE('z) d s us"
  "json_members d s kvs \<Longrightarrow> reads_pairs TYPE('z) d s kvs"
proof (induction rule: json_text_json_elems_json_members.inducts)
  case (number s x d)
  then show ?case
    using json_number_hd [OF number(1)] by (intro reads_scalar parse_scalar_number) (auto simp: is_digit_def)
next
  case (string s t d)
  then show ?case by (intro reads_scalar parse_scalar_string) (auto simp: json_string_def)
next
  case (elem w d s v w')
  then show ?case unfolding reads_items_def
    by (auto intro!: items_complete_step [where w = w and w' = w' and r = "CHR '']'' # _"] next_entry_complete(2)
        simp: number_stop_char is_ws_def)
next
  case (elems w d s v w' r vs)
  then show ?case unfolding reads_items_def [where s = "w @ s @ w' @ CHR '','' # r"]
    by (auto intro!: items_complete_step [where w = w and w' = w' and r = "CHR '','' # r @ CHR '']'' # _"]
        next_entry_complete(1) reads_itemsD simp: number_stop_char)
next
  case (member w k t w1 w2 d s v w')
  then show ?case unfolding reads_pairs_def
    by (auto intro!: pairs_complete_step [where w = w and w' = w' and r = "CHR ''}'' # _"] next_entry_complete(2)
        simp: number_stop_char is_ws_def)
next
  case (members w k t w1 w2 d s v w' r kvs)
  then show ?case unfolding reads_pairs_def [where us = "_ # _"]
    by (auto intro!: pairs_complete_step [where w = w and w' = w' and r = "CHR '','' # r @ CHR ''}'' # _"]
        next_entry_complete(1) reads_pairsD simp: number_stop_char)
qed (auto intro!: reads_scalar parse_scalar_complete [simplified] reads_array reads_object reads_empty)

section \<open>The whole parse\<close>

lemma parse_value_enough_fuel:
  "wp (parse_value (parse_fuel text) 0 (skip_ws text))
     (\<lambda>r h'. \<exists>x. r = Some x \<and> parse_post MCP_JSON_MAX_DEPTH (skip_ws text) h x h') h"
proof (rule wp_mono [OF parse_sound_all(1)], goal_cases)
  case (1 r h')
  have "length (skip_ws text) \<le> length text" by (simp add: skip_ws_def length_dropWhile_le)
  with 1 show ?case by (cases r) (auto simp: parse_fuel_def)
qed

lemma json_documentI: "json_text d s v \<Longrightarrow> ws w \<Longrightarrow> ws w' \<Longrightarrow> json_document d (w @ s @ w') v"
  by (auto simp: json_document_def)

lemma builtin_parse_sound:
  "wp (builtin_parse (Some text)) (\<lambda>r h'. case r of
       None \<Rightarrow> fail_post h h'
     | Some v \<Rightarrow> steps (blocks v) h h' \<and> utf8_valid text \<and> json_document MCP_JSON_MAX_DEPTH text v) h"
proof (cases "utf8_valid text")
  case False
  then show ?thesis by (auto simp: builtin_parse_def fail_post_def)
next
  case True
  obtain w where w: "text = w @ skip_ws text" "ws w" by (rule skip_ws_split)
  show ?thesis
    using True unfolding builtin_parse_def option.case
    apply (simp only: not_True_eq_False if_False wp_bind [of "parse_value _ _ _"])
    apply (rule wp_mono [OF parse_value_enough_fuel])
    subgoal premises p for r h'
    proof -
      have "json_document MCP_JSON_MAX_DEPTH text v" if "skip_ws text = s @ q" "json_text MCP_JSON_MAX_DEPTH s v" "ws q" for s q v
        using json_documentI [OF that(2) w(2) that(3)] w(1) that(1) by simp
      with p show ?thesis
        by (auto simp: parse_post_def fail_post_def skip_ws_all_iff steps_def split: option.splits)
    qed
    done
qed

lemma builtin_parse_complete:
  assumes "utf8_valid text" and "json_document MCP_JSON_MAX_DEPTH text v"
  shows "yields (builtin_parse (Some text)) (Some v)"
proof -
  from assms(2) obtain w s w' where d: "text = w @ s @ w'" "ws w" "ws w'" "json_text MCP_JSON_MAX_DEPTH s v"
    by (auto simp: json_document_def)
  have skip: "skip_ws text = s @ w'" using skip_ws_text [OF d(4,2)] d(1) by simp
  have "number_stop w'" using number_stop_ws [OF d(3), of "[]"] by (auto simp: number_stop_def)
  then have "yields (parse_value (parse_fuel text) 0 (s @ w')) (Some (Some (v, w')))"
    using d(1) by (intro reads_valueD [OF json_text_complete(1) [OF d(4)]]) (simp_all add: parse_fuel_def)
  then show ?thesis
    using assms(1) skip skip_ws_all [OF d(3)] by (auto simp: builtin_parse_def intro!: yields_bind yields_ret)
qed

section \<open>Properties of the parser\<close>

text \<open>
  C1: the parser accepts exactly the JSON grammar. When no allocation fails, \<open>builtin_parse\<close>
  returns the value \<open>v\<close> if and only if the bytes are valid UTF-8 and form a JSON document
  with value \<open>v\<close>, nested at most \<open>MCP_JSON_MAX_DEPTH\<close> deep.
\<close>

theorem builtin_parse_accepts:
  "fst (run_state (builtin_parse (Some text)) \<lparr>live = n, script = []\<rparr>) = Some v \<longleftrightarrow>
   utf8_valid text \<and> json_document MCP_JSON_MAX_DEPTH text v"
proof
  assume "fst (run_state (builtin_parse (Some text)) \<lparr>live = n, script = []\<rparr>) = Some v"
  then show "utf8_valid text \<and> json_document MCP_JSON_MAX_DEPTH text v"
    using builtin_parse_sound [of "text" "\<lparr>live = n, script = []\<rparr>"] by (simp add: wp_run_state)
next
  assume "utf8_valid text \<and> json_document MCP_JSON_MAX_DEPTH text v"
  then show "fst (run_state (builtin_parse (Some text)) \<lparr>live = n, script = []\<rparr>) = Some v"
    by (intro yields_unique builtin_parse_complete) simp_all
qed

text \<open>
  C8: ownership. For any behaviour of the allocator, a parsed value is a well-formed tree of
  bounded depth and exactly its blocks have been allocated, and a failed parse leaves no
  block behind. When no allocation fails, the number of live blocks is exact also on a
  malformed text.
\<close>

theorem builtin_parse_ownership:
  "(case run_state (builtin_parse (Some text)) h of
      (Some v, h') \<Rightarrow> wf_json v \<and> json_depth v \<le> MCP_JSON_MAX_DEPTH \<and> live h' = live h + blocks v
    | (None, h') \<Rightarrow> live h' \<le> live h) \<and>
   live (snd (run_state (builtin_parse (Some text)) \<lparr>live = n, script = []\<rparr>)) =
     n + blocks_opt (fst (run_state (builtin_parse (Some text)) \<lparr>live = n, script = []\<rparr>))"
proof (rule conjI)
  have "json_document d text v \<Longrightarrow> wf_json v \<and> json_depth v \<le> d" for d v
    by (auto simp: json_document_def dest: json_text_wf_depth(1))
  then show "case run_state (builtin_parse (Some text)) h of
      (Some v, h') \<Rightarrow> wf_json v \<and> json_depth v \<le> MCP_JSON_MAX_DEPTH \<and> live h' = live h + blocks v
    | (None, h') \<Rightarrow> live h' \<le> live h"
    using builtin_parse_sound [of "text" h]
    by (auto simp: wp_run_state fail_post_def steps_def split: option.splits prod.splits)
  show "live (snd (run_state (builtin_parse (Some text)) \<lparr>live = n, script = []\<rparr>)) =
     n + blocks_opt (fst (run_state (builtin_parse (Some text)) \<lparr>live = n, script = []\<rparr>))"
    using builtin_parse_sound [of "text" "\<lparr>live = n, script = []\<rparr>"]
    by (auto simp: wp_run_state fail_post_def steps_def split: option.splits)
qed

text \<open>
  C23: the recursion of the parser ends within the fuel \<open>builtin_parse\<close> gives it, for every
  text and every behaviour of the allocator.
\<close>

theorem parse_value_terminates:
  "fst (run_state (parse_value (parse_fuel text) 0 (skip_ws text)) h) \<noteq> None"
  using parse_value_enough_fuel [of "text" h] by (auto simp: wp_run_state)

text \<open>
  The growable buffer. After every append, whether or not it could grow, the buffer has
  room for its text and the terminating NUL, and a successful append adds exactly the bytes
  given.
\<close>

lemma grow_append_in_bounds:
  assumes "gb_inv b" and "run_state (grow_append b s) h = (b', h')"
  shows "gb_inv b' \<and> (if gb_ok b' then gb_data b' = gb_data b @ s else gb_data b' = gb_data b)"
proof -
  have "wp (grow_append b s) (\<lambda>b' h'. gb_inv b' \<and>
      (if gb_ok b' then gb_data b' = gb_data b @ s else gb_data b' = gb_data b)) h"
    by (rule wp_grow_append [OF assms(1)]) (use assms(1) in \<open>auto simp: gb_inv_def\<close>)
  then show ?thesis unfolding wp_run_state assms(2) fst_conv snd_conv .
qed

end
