(* ===== verification/Json_Serializer.thy ===== *)
theory Json_Serializer
  imports Json_Parser
begin

text \<open>
  The serializer of src/json/builtin.c (\<open>ser_string\<close>, \<open>ser_value\<close>, \<open>builtin_serialize\<close>) over
  the growable buffer, a pure printing function it is shown to compute, and the round
  trip: what is serialized is a text of the grammar, and parsing it gives the tree back.
\<close>

section \<open>Serialization\<close>

definition k_hex :: string where
  "k_hex = ''0123456789abcdef''"

text \<open>The bytes appended for one byte of a string.\<close>

definition esc_char :: "char \<Rightarrow> string" where
  "esc_char c =
     (if c = CHR 0x22 then [CHR 0x5C, CHR 0x22]
      else if c = CHR 0x5C then [CHR 0x5C, CHR 0x5C]
      else if c = CHR 0x08 then [CHR 0x5C, CHR ''b'']
      else if c = CHR 0x0C then [CHR 0x5C, CHR ''f'']
      else if c = CHR 0x0A then [CHR 0x5C, CHR ''n'']
      else if c = CHR 0x0D then [CHR 0x5C, CHR ''r'']
      else if c = CHR 0x09 then [CHR 0x5C, CHR ''t'']
      else if code c < 0x20 then
        [CHR 0x5C, CHR ''u'', CHR ''0'', CHR ''0'', k_hex ! (code c div 16), k_hex ! (code c mod 16)]
      else [c])"

text \<open>The second component of the result says whether the loop returned early.\<close>

fun ser_chars :: "string \<Rightarrow> growbuf \<Rightarrow> ('z heap_scheme, growbuf \<times> bool) state" where
  "ser_chars [] b = ret (b, False)"
| "ser_chars (c # s) b = do {
     b \<leftarrow> grow_append b (esc_char c);
     (if \<not> gb_ok b then ret (b, True) else ser_chars s b)
   }"

definition ser_string :: "growbuf \<Rightarrow> string \<Rightarrow> ('z heap_scheme, growbuf) state" where
  "ser_string b s = do {
     b \<leftarrow> grow_append b [CHR 0x22];
     r \<leftarrow> ser_chars s b;
     (if snd r then ret (fst r) else grow_append (fst r) [CHR 0x22])
   }"

text \<open>\<open>snprintf\<close> into \<open>char nb[32]\<close> with the format \<open>%.17g\<close>.\<close>

definition number_text :: "double \<Rightarrow> string" where
  "number_text d = take 31 (fmt_g 17 d)"

fun ser_value :: "json \<Rightarrow> growbuf \<Rightarrow> ('z heap_scheme, growbuf) state"
and ser_items :: "bool \<Rightarrow> json list \<Rightarrow> growbuf \<Rightarrow> ('z heap_scheme, growbuf) state"
and ser_members :: "bool \<Rightarrow> (string \<times> json) list \<Rightarrow> growbuf \<Rightarrow> ('z heap_scheme, growbuf) state" where
  "ser_value JNull b = (if \<not> gb_ok b then ret b else grow_append b ''null'')"
| "ser_value (JBool x) b = (if \<not> gb_ok b then ret b else grow_append b (if x then ''true'' else ''false''))"
| "ser_value (JNumber d) b = (if \<not> gb_ok b then ret b else grow_append b (number_text d))"
| "ser_value (JString s) b = (if \<not> gb_ok b then ret b else ser_string b s)"
| "ser_value (JArray xs cap) b =
     (if \<not> gb_ok b then ret b
      else do {
        b \<leftarrow> grow_append b ''['';
        b \<leftarrow> ser_items True xs b;
        grow_append b '']''
      })"
| "ser_value (JObject ms cap) b =
     (if \<not> gb_ok b then ret b
      else do {
        b \<leftarrow> grow_append b ''{'';
        b \<leftarrow> ser_members True ms b;
        grow_append b ''}''
      })"
| "ser_items first [] b = ret b"
| "ser_items first (x # xs) b = do {
     b \<leftarrow> (if \<not> first then grow_append b '','' else ret b);
     b \<leftarrow> ser_value x b;
     ser_items False xs b
   }"
| "ser_members first [] b = ret b"
| "ser_members first ((k, v) # ms) b = do {
     b \<leftarrow> (if \<not> first then grow_append b '','' else ret b);
     b \<leftarrow> ser_string b k;
     b \<leftarrow> grow_append b '':'';
     b \<leftarrow> ser_value v b;
     ser_members False ms b
   }"

text \<open>The result is the text, in one allocated block.\<close>

definition builtin_serialize :: "json option \<Rightarrow> ('z heap_scheme, string option) state" where
  "builtin_serialize value =
     (case value of
        None \<Rightarrow> ret None
      | Some v \<Rightarrow> do {
          b \<leftarrow> ser_value v empty_buf;
          (if \<not> gb_ok b then do { xfree (gb_cap b \<noteq> 0); ret None }
           else if gb_cap b = 0 then do {
             ok \<leftarrow> xmalloc;
             ret (if ok then Some [] else None)
           }
           else ret (Some (gb_data b)))
        })"

section \<open>Printing\<close>

definition print_string :: "string \<Rightarrow> string" where
  "print_string s = CHR 0x22 # concat (map esc_char s) @ [CHR 0x22]"

fun print_json :: "json \<Rightarrow> string"
and print_items :: "bool \<Rightarrow> json list \<Rightarrow> string"
and print_members :: "bool \<Rightarrow> (string \<times> json) list \<Rightarrow> string" where
  "print_json JNull = ''null''"
| "print_json (JBool x) = (if x then ''true'' else ''false'')"
| "print_json (JNumber d) = number_text d"
| "print_json (JString s) = print_string s"
| "print_json (JArray xs cap) = ''['' @ print_items True xs @ '']''"
| "print_json (JObject ms cap) = ''{'' @ print_members True ms @ ''}''"
| "print_items first [] = []"
| "print_items first (x # xs) = (if first then [] else '','') @ print_json x @ print_items False xs"
| "print_members first [] = []"
| "print_members first ((k, v) # ms) =
     (if first then [] else '','') @ print_string k @ '':'' @ print_json v @ print_members False ms"

text \<open>\<open>appends x b h b' h'\<close>: the buffer took the text \<open>x\<close>, or failed.\<close>

definition appends :: "string \<Rightarrow> growbuf \<Rightarrow> 'z heap_scheme \<Rightarrow> growbuf \<Rightarrow> 'z heap_scheme \<Rightarrow> bool" where
  "appends x b h b' h' \<longleftrightarrow>
     gb_inv b' \<and> steps (gb_blocks b' - gb_blocks b) h h' \<and>
     (gb_ok b' \<longrightarrow> gb_ok b \<and> gb_data b' = gb_data b @ x) \<and>
     (gb_ok b \<and> script h = [] \<longrightarrow> gb_ok b')"

lemma appends_trans: "appends x b h b1 h1 \<Longrightarrow> appends y b1 h1 b2 h2 \<Longrightarrow> appends (x @ y) b h b2 h2"
proof -
  assume a: "appends x b h b1 h1" "appends y b1 h1 b2 h2"
  then have "steps (gb_blocks b1 - gb_blocks b) h h1" "steps (gb_blocks b2 - gb_blocks b1) h1 h2"
    unfolding appends_def by blast+
  then have s: "steps (gb_blocks b2 - gb_blocks b) h h2" by (rule steps_trans) simp
  have "script h = [] \<Longrightarrow> script h1 = []" using a(1) unfolding appends_def steps_def by blast
  with a s show ?thesis unfolding appends_def by (metis append_assoc)
qed

lemma appends_failed: "gb_inv b \<Longrightarrow> \<not> gb_ok b \<Longrightarrow> appends x b h b h"
  by (simp add: appends_def)

lemma appends_Nil: "gb_inv b \<Longrightarrow> appends [] b h b h"
  by (simp add: appends_def)

lemma wp_appends_bind:
  assumes "wp m (appends x b h) h"
    and "\<And>b' h'. gb_inv b' \<Longrightarrow> wp (f b') (appends y b' h') h'"
  shows "wp (m \<bind> f) (appends (x @ y) b h) h"
  unfolding wp_bind
proof (rule wp_mono [OF assms(1)], goal_cases)
  case (1 b1 h1)
  then have "gb_inv b1" by (simp add: appends_def)
  show ?case by (rule wp_mono [OF assms(2) [OF \<open>gb_inv b1\<close>]]) (rule appends_trans [OF 1])
qed

lemma grow_append_appends: "gb_inv b \<Longrightarrow> wp (grow_append b x) (appends x b h) h"
  by (rule wp_grow_append) (auto simp: appends_def gb_inv_def gb_blocks_def)

lemma ser_chars_appends:
  "gb_inv b \<Longrightarrow> wp (ser_chars s b)
     (\<lambda>r h'. appends (concat (map esc_char s)) b h (fst r) h' \<and> (snd r \<longrightarrow> \<not> gb_ok (fst r))) h"
proof (induction s arbitrary: b h)
  case (Cons c s)
  show ?case unfolding ser_chars.simps wp_bind
  proof (rule wp_mono [OF grow_append_appends [OF Cons.prems]], goal_cases)
    case (1 b1 h1)
    then have "gb_inv b1" by (simp add: appends_def)
    show ?case
    proof (cases "gb_ok b1")
      case True
      have "wp (ser_chars s b1) (\<lambda>r h'. appends (concat (map esc_char (c # s))) b h (fst r) h' \<and>
          (snd r \<longrightarrow> \<not> gb_ok (fst r))) h1"
        by (rule wp_mono [OF Cons.IH [OF \<open>gb_inv b1\<close>]]) (auto intro: appends_trans [OF 1])
      with True show ?thesis by simp
    qed (use 1 in \<open>simp add: appends_def\<close>)
  qed
qed (simp add: appends_Nil)

lemma ser_string_appends: "gb_inv b \<Longrightarrow> wp (ser_string b s) (appends (print_string s) b h) h"
proof -
  assume b: "gb_inv b"
  have "wp (do { r \<leftarrow> ser_chars s b; (if snd r then ret (fst r) else grow_append (fst r) [CHR 0x22]) })
      (appends (concat (map esc_char s) @ [CHR 0x22]) b h) h" if "gb_inv b" for b and h :: "'z heap_scheme"
    unfolding wp_bind
  proof (rule wp_mono [OF ser_chars_appends [OF that]], goal_cases)
    case (1 r h1)
    then have "gb_inv (fst r)" by (simp add: appends_def)
    have "wp (grow_append (fst r) [CHR 0x22]) (appends (concat (map esc_char s) @ [CHR 0x22]) b h) h1"
      by (rule wp_mono [OF grow_append_appends [OF \<open>gb_inv (fst r)\<close>]]) (use 1 appends_trans in blast)
    with 1 show ?case by (auto simp: appends_def)
  qed
  from wp_appends_bind [OF grow_append_appends [OF b, of "[CHR 0x22]"] this] show ?thesis
    by (simp add: ser_string_def print_string_def)
qed

lemma separator_appends:
  "gb_inv b \<Longrightarrow> wp (if \<not> first then grow_append b '','' else ret b) (appends (if first then [] else '','') b h) h"
  by (simp add: grow_append_appends appends_Nil)

lemma ser_value_appends:
  fixes h :: "'z heap_scheme"
  shows "gb_inv b \<Longrightarrow> wp (ser_value v b) (appends (print_json v) b h) h"
    and "gb_inv b1 \<Longrightarrow> wp (ser_items first xs b1) (appends (print_items first xs) b1 h) h"
    and "gb_inv b2 \<Longrightarrow> wp (ser_members first' ms b2) (appends (print_members first' ms) b2 h) h"
proof (induction v b and first xs b1 and first' ms b2 arbitrary: h and h and h
    rule: ser_value_ser_items_ser_members.induct)
  case (5 xs cap b)
  have "wp (grow_append b ''['' \<bind> (\<lambda>b. ser_items True xs b \<bind> (\<lambda>b. grow_append b '']'')))
      (appends (''['' @ print_items True xs @ '']'') b h) h" if "gb_ok b"
    by (rule wp_appends_bind [OF grow_append_appends], fact, rule wp_appends_bind [OF 5(1) grow_append_appends])
       (use that in simp_all)
  then show ?case using 5(2) unfolding ser_value.simps print_json.simps by (simp add: appends_failed del: wp_bind)
next
  case (6 ms cap b)
  have "wp (grow_append b ''{'' \<bind> (\<lambda>b. ser_members True ms b \<bind> (\<lambda>b. grow_append b ''}'')))
      (appends (''{'' @ print_members True ms @ ''}'') b h) h" if "gb_ok b"
    by (rule wp_appends_bind [OF grow_append_appends], fact, rule wp_appends_bind [OF 6(1) grow_append_appends])
       (use that in simp_all)
  then show ?case using 6(2) unfolding ser_value.simps print_json.simps by (simp add: appends_failed del: wp_bind)
next
  case (8 first x xs b)
  show ?case unfolding ser_items.simps print_items.simps
    by (rule wp_appends_bind [OF separator_appends [OF 8(3)]], rule wp_appends_bind [OF 8(1) 8(2)])
next
  case (10 first k v ms b)
  show ?case unfolding ser_members.simps print_members.simps
    by (rule wp_appends_bind [OF separator_appends [OF 10(3)]], rule wp_appends_bind [OF ser_string_appends],
        assumption, rule wp_appends_bind [OF grow_append_appends], assumption, rule wp_appends_bind [OF 10(1) 10(2)])
next
  case (1 b)
  then show ?case by (cases "gb_ok b") (simp_all add: appends_failed grow_append_appends)
next
  case (2 x b)
  then show ?case by (cases "gb_ok b") (simp_all add: appends_failed grow_append_appends)
next
  case (3 d b)
  then show ?case by (cases "gb_ok b") (simp_all add: appends_failed grow_append_appends)
next
  case (4 s b)
  then show ?case by (cases "gb_ok b") (simp_all add: appends_failed ser_string_appends)
next
  case (7 first b)
  then show ?case by (simp add: appends_Nil)
next
  case (9 first b)
  then show ?case by (simp add: appends_Nil)
qed

lemma builtin_serialize_spec:
  "wp (builtin_serialize (Some v)) (\<lambda>r h'. case r of
       None \<Rightarrow> steps 0 h h' \<and> script h \<noteq> []
     | Some s \<Rightarrow> s = print_json v \<and> steps 1 h h') h"
proof -
  let ?Q = "\<lambda>r h'. case r of None \<Rightarrow> steps 0 h h' \<and> script h \<noteq> [] | Some s \<Rightarrow> s = print_json v \<and> steps 1 h h'"
  have "wp (ser_value v empty_buf) (appends (print_json v) empty_buf h) h"
    by (rule ser_value_appends) simp
  then show ?thesis unfolding builtin_serialize_def option.case wp_bind [of "ser_value _ _"]
  proof (rule wp_mono, goal_cases)
    case (1 b h1)
    then have s: "steps (gb_blocks b) h h1" and inv: "gb_inv b" and bad: "\<not> gb_ok b \<Longrightarrow> script h \<noteq> []"
      and ok: "gb_ok b \<Longrightarrow> gb_data b = print_json v" unfolding appends_def by auto
    consider "\<not> gb_ok b" | "gb_ok b" "gb_cap b = 0" | "gb_ok b" "gb_cap b \<noteq> 0" by blast
    then show ?case
    proof cases
      case 1
      with s bad show ?thesis by (auto simp: steps_def gb_blocks_def)
    next
      case 2
      with inv ok have "print_json v = []" by (simp add: gb_inv_def)
      with 2 s have "wp xmalloc (\<lambda>ok. ?Q (if ok then Some [] else None)) h1"
        by (intro wp_xmalloc) (auto simp: gb_blocks_def steps_def)
      with 2 show ?thesis by simp
    next
      case 3
      with s ok show ?thesis by (simp add: gb_blocks_def)
    qed
  qed
qed

lemma builtin_serialize_yields: "yields (builtin_serialize (Some v)) (Some (print_json v))"
  by (rule yieldsI, rule wp_mono [OF builtin_serialize_spec]) (auto simp: steps_def split: option.splits)

section \<open>What is printed is a text of the grammar\<close>

lemma number_text_eq: "canonical d \<Longrightarrow> isfinite d \<Longrightarrow> number_text d = fmt_g 17 d"
  using fmt_g_17_length [of d] by (simp add: number_text_def)

lemma json_numberI:
  "g \<in> {'''', ''-''} \<Longrightarrow> json_int i \<Longrightarrow> json_frac f \<Longrightarrow> json_exp e \<Longrightarrow> json_number (g @ i @ f @ e)"
  unfolding json_number_def by blast

lemma json_exp_text: "json_exp (exp_text xo)"
proof (cases xo)
  case (Some X)
  obtain xs where xs: "exponent_chars X = CHR ''e'' # (if X < 0 then CHR ''-'' else CHR ''+'') # xs"
    "list_all is_digit xs" "xs \<noteq> []" "digits_val 0 xs = nat \<bar>X\<bar>" by (rule exponent_chars_eq)
  have "json_exp (CHR ''e'' # (if X < 0 then ''-'' else ''+'') @ xs)"
    by (rule json_expI) (use xs in simp_all)
  with xs(1) Some show ?thesis by (simp add: exp_text_def split: if_splits)
qed (simp add: exp_text_def json_exp_def)

lemma json_number_num_text:
  assumes "num_shape ip fp"
  shows "json_number (num_text neg ip fp xo)"
proof -
  define f where "f = (if fp = [] then [] else CHR ''.'' # fp)"
  have "num_text neg ip fp xo = (if neg then ''-'' else '''') @ ip @ f @ exp_text xo"
    by (simp add: num_text_def with_point_def f_def)
  moreover have "json_number ((if neg then ''-'' else '''') @ ip @ f @ exp_text xo)"
    using assms by (intro json_numberI json_exp_text) (auto simp: f_def json_frac_def json_int_def num_shape_def)
  ultimately show ?thesis by simp
qed

lemma print_number:
  assumes "canonical d" and "isfinite d"
  shows "json_number (number_text d)" and "strtod (number_text d) = (d, [])"
proof -
  obtain s m e where d: "d = Finite s m e" using assms(2) by (cases d) auto
  obtain ip fp xo where "fmt_g 17 d = num_text s ip fp xo" "num_shape ip fp"
    unfolding d by (rule fmt_g_text [of 17 s m e]) simp_all
  then show "json_number (number_text d)"
    using json_number_num_text number_text_eq [OF assms] by simp
  show "strtod (number_text d) = (d, [])"
    using strtod_fmt_g_17 assms number_text_eq [OF assms] by simp
qed

lemma hex_k_hex: "n < 16 \<Longrightarrow> hex4_digit (k_hex ! n) = Some n"
proof -
  have "list_all (\<lambda>n. hex4_digit (k_hex ! n) = Some n) [0..<16]" by (simp add: k_hex_def hex4_digit_def upt_rec)
  then show "n < 16 \<Longrightarrow> ?thesis" by (simp add: list_all_iff)
qed

lemma esc_char_cases:
  obtains (plain) "esc_char c = [c]" "c \<noteq> CHR 0x22" "c \<noteq> CHR 0x5C" "0x20 \<le> code c"
  | (simple) e where "esc_char c = [CHR 0x5C, e]" "simple_escape e = Some c"
  | (unicode) "esc_char c = [CHR 0x5C, CHR ''u'', CHR ''0'', CHR ''0'', k_hex ! (code c div 16), k_hex ! (code c mod 16)]"
      "code c < 0x20"
proof (cases "c \<in> {CHR 0x22, CHR 0x5C, CHR 0x08, CHR 0x0C, CHR 0x0A, CHR 0x0D, CHR 0x09}")
  case True
  then have "esc_char c = [CHR 0x5C, esc_char c ! 1] \<and> simple_escape (esc_char c ! 1) = Some c"
    unfolding insert_iff empty_iff by (elim disjE) (simp_all add: esc_char_def simple_escape_def)
  then show thesis using simple by blast
next
  case False
  then show thesis using plain unicode by (simp add: esc_char_def) (meson not_less)
qed

lemma json_chars_esc:
  "CHR 0x00 \<notin> set s \<Longrightarrow> json_chars (concat (map esc_char s)) s"
proof (induction s)
  case (Cons c s)
  then have IH: "json_chars (concat (map esc_char s)) s" by simp
  show ?case
  proof (cases c rule: esc_char_cases)
    case plain
    with json_chars.unescaped [OF _ _ _ IH, of c] show ?thesis by simp
  next
    case (simple e)
    with json_chars.simple [OF _ IH, of e c] show ?thesis by simp
  next
    case unicode
    let ?h = "[CHR ''0'', CHR ''0'', k_hex ! (code c div 16), k_hex ! (code c mod 16)]"
    have "hex4_digit CHR ''0'' = Some 0" by (simp add: hex4_digit_def)
    then have "hex4 ?h (code c)"
      using hex_k_hex [of "code c div 16"] hex_k_hex [of "code c mod 16"] unicode(2)
      unfolding hex4_def by (intro exI [of _ 0] exI [of _ "code c div 16"] exI [of _ "code c mod 16"]) simp
    from json_chars.unicode [OF this _ IH] unicode(2)
    have "json_chars (CHR 0x5C # CHR ''u'' # ?h @ concat (map esc_char s)) (utf8_encode (code c) @ s)" by simp
    moreover have "utf8_encode (code c) = [c]" using unicode(2) by (simp add: utf8_encode_def)
    ultimately show ?thesis using unicode(1) by simp
  qed
qed (simp add: json_chars.empty)

lemma json_string_print: "wf_text s \<Longrightarrow> json_string (print_string s) s"
  by (auto simp: json_string_def print_string_def wf_text_def intro: json_chars_esc)

lemma cstr_wf [simp]: "wf_text s \<Longrightarrow> cstr s = s"
  by (auto simp: cstr_def wf_text_def takeWhile_eq_all_conv)

section \<open>Round trip\<close>

lemma print_items_False: "xs \<noteq> [] \<Longrightarrow> print_items False xs = CHR '','' # print_items True xs"
  by (cases xs) simp_all

lemma print_members_False: "ms \<noteq> [] \<Longrightarrow> print_members False ms = CHR '','' # print_members True ms"
  by (cases ms) auto

lemma json_elems_print:
  "xs \<noteq> [] \<Longrightarrow> \<forall>x \<in> set xs. json_text d (print_json x) (recap x) \<Longrightarrow>
   json_elems d (print_items True xs) (map recap xs)"
proof (induction xs)
  case (Cons x xs)
  then show ?case
    using elem [of "[]" d "print_json x" "recap x" "[]"]
      elems [of "[]" d "print_json x" "recap x" "[]" "print_items True xs" "map recap xs"]
    by (cases "xs = []") (simp_all add: print_items_False)
qed simp

lemma json_members_print:
  "ms \<noteq> [] \<Longrightarrow> \<forall>m \<in> set ms. wf_text (fst m) \<and> json_text d (print_json (snd m)) (recap (snd m)) \<Longrightarrow>
   json_members d (print_members True ms) (map (\<lambda>m. (fst m, recap (snd m))) ms)"
proof (induction ms)
  case (Cons m ms)
  obtain k v where m: "m = (k, v)" by (cases m)
  with Cons.prems have k: "wf_text k" "json_string (print_string k) k" by (simp_all add: json_string_print)
  from Cons m show ?case
    using member [OF _ k(2), of "[]" "[]" "[]" d "print_json v" "recap v" "[]"]
      members [OF _ k(2), of "[]" "[]" "[]" d "print_json v" "recap v" "[]" "print_members True ms"
        "map (\<lambda>m. (fst m, recap (snd m))) ms"] k(1)
    by (cases "ms = []") (simp_all add: print_members_False)
qed simp

lemma object_of_distinct: "distinct (map fst kvs) \<Longrightarrow> object_of kvs = JObject kvs (cap_for (length kvs))"
proof (induction kvs rule: rev_induct)
  case (snoc kv kvs)
  then show ?case by (cases kv) (simp add: object_of_snoc lookup_member_None)
qed (simp add: object_of_def)

lemma json_text_print:
  "wf_json v \<Longrightarrow> json_depth v \<le> d \<Longrightarrow> json_text d (print_json v) (recap v)"
proof (induction v arbitrary: d)
  case (JNumber x)
  then show ?case using print_number [of x] number by simp
next
  case (JString s)
  then show ?case using json_text_json_elems_json_members.string [OF json_string_print [of s]] by simp
next
  case (JArray xs cap)
  from JArray.prems(2) obtain d' where d: "d = Suc d'" by (cases d) simp_all
  with JArray have "\<forall>x \<in> set xs. json_text d' (print_json x) (recap x)"
    by (auto simp: depth_le simp del: json_depth.simps)
  then show ?case
    using array [OF json_elems_print] array_empty [of "[]" d'] by (cases "xs = []") (simp_all add: d array_of_eq)
next
  case (JObject ms cap)
  from JObject.prems(2) obtain d' where d: "d = Suc d'" by (cases d) simp_all
  have "json_text d' (print_json (snd m)) (recap (snd m))" if "m \<in> set ms" for m
    using JObject.prems d that by (intro JObject.IH [of m]) (auto simp: depth_le snds.simps simp del: json_depth.simps)
  moreover have "distinct (map fst (map (\<lambda>m. (fst m, recap (snd m))) ms))"
    using JObject.prems by (simp add: comp_def)
  from object_of_distinct [OF this] have "object_of (map (\<lambda>m. (fst m, recap (snd m))) ms) = recap (JObject ms cap)"
    by simp
  ultimately show ?case
    using object [OF json_members_print [of ms d']] object_empty [of "[]" d'] JObject.prems(1)
    by (cases "ms = []") (simp_all add: d)
qed (auto intro: null true false)

lemma esc_ascii: "code c < 0x80 \<Longrightarrow> list_all (\<lambda>c. code c < 0x80) (esc_char c)"
proof (cases c rule: esc_char_cases)
  case unicode
  have "list_all (\<lambda>n. code (k_hex ! n) < 0x80) [0..<16]" by (simp add: k_hex_def upt_rec)
  then have "n < 16 \<Longrightarrow> code (k_hex ! n) < 0x80" for n by (simp add: list_all_iff)
  with unicode show ?thesis by simp
qed (auto simp: simple_escape_def split: if_splits)

lemma esc_high: "0x80 \<le> code c \<Longrightarrow> esc_char c = [c]"
proof (cases c rule: esc_char_cases)
  case (simple e)
  assume "0x80 \<le> code c"
  moreover from simple(2) have "code c < 0x80" by (auto simp: simple_escape_def split: if_splits)
  ultimately show ?thesis by simp
qed simp_all

lemma utf8_valid_esc: "utf8_valid s \<Longrightarrow> utf8_valid (concat (map esc_char s))"
proof -
  assume "utf8_valid s"
  then obtain cps where "\<forall>cp \<in> set cps. scalar cp" and s: "s = concat (map utf8_encode cps)"
    using utf8_loop_decodes by (auto simp: utf8_valid_def)
  then show ?thesis unfolding s
  proof (induction cps)
    case (Cons cp cps)
    have "utf8_valid (concat (map esc_char (utf8_encode cp)))"
    proof (cases "cp < 0x80")
      case True
      then have "utf8_encode cp = [char_of cp]" "list_all (\<lambda>c. code c < 0x80) (esc_char (char_of cp))"
        by (simp add: utf8_encode_def) (rule esc_ascii, use True in simp)
      then show ?thesis using utf8_valid_ascii by simp
    next
      case False
      have "esc_char c = [c]" if "c \<in> set (utf8_encode cp)" for c
        by (rule esc_high, rule utf8_encode_high [OF _ _ that]) (use False Cons.prems in simp_all)
      moreover have "\<forall>c \<in> set xs. esc_char c = [c] \<Longrightarrow> concat (map esc_char xs) = xs" for xs
        by (induction xs) auto
      ultimately have "concat (map esc_char (utf8_encode cp)) = utf8_encode cp" by blast
      then show ?thesis using utf8_loop_encode [of cp "[]"] Cons.prems by (simp add: utf8_valid_def utf8_loop.simps)
    qed
    from utf8_valid_append [OF this, of "concat (map esc_char (concat (map utf8_encode cps)))"] Cons
    show ?case by simp
  qed simp
qed

lemma utf8_valid_print_string: "wf_text s \<Longrightarrow> utf8_valid (print_string s @ r) = utf8_valid r"
proof -
  assume "wf_text s"
  then have e: "utf8_valid (concat (map esc_char s))" by (simp add: wf_text_def utf8_valid_esc)
  show ?thesis
    using utf8_valid_append [OF e, of "CHR 0x22 # r"] by (simp add: print_string_def utf8_valid_ascii_Cons)
qed

lemma num_text_ascii: "num_shape ip fp \<Longrightarrow> list_all (\<lambda>c. code c < 0x80) (num_text neg ip fp xo)"
proof -
  assume "num_shape ip fp"
  moreover have "is_digit c \<Longrightarrow> code c < 0x80" for c by (simp add: is_digit_def)
  moreover have "list_all (\<lambda>c. code c < 0x80) (exp_text xo)"
    using digit_chars_digits by (auto simp: exp_text_def exponent_chars_def list_all_iff is_digit_def split: option.splits)
       fastforce+
  ultimately show ?thesis by (auto simp: num_text_def num_shape_def with_point_def list_all_iff)
qed

lemma utf8_valid_print_number: "isfinite d \<Longrightarrow> canonical d \<Longrightarrow> utf8_valid (number_text d)"
proof -
  assume d: "isfinite d" "canonical d"
  obtain s m e where f: "d = Finite s m e" using d(1) by (cases d) auto
  obtain ip fp xo where "fmt_g 17 d = num_text s ip fp xo" "num_shape ip fp"
    unfolding f by (rule fmt_g_text [of 17 s m e]) simp_all
  then show ?thesis using num_text_ascii number_text_eq d utf8_valid_ascii by simp
qed

lemma utf8_valid_print:
  shows "wf_json v \<Longrightarrow> utf8_valid (print_json v)"
    and "\<forall>x \<in> set xs. wf_json x \<Longrightarrow> utf8_valid (print_items first xs)"
    and "\<forall>m \<in> set ms. wf_text (fst m) \<and> wf_json (snd m) \<Longrightarrow> utf8_valid (print_members first' ms)"
proof (induction v and first xs and first' ms rule: print_json_print_items_print_members.induct)
  case (4 s)
  then show ?case using utf8_valid_print_string [of s "[]"] by simp
qed (auto simp: utf8_valid_ascii_Cons utf8_valid_append utf8_valid_print_number utf8_valid_print_string)

lemma serialize_parse:
  assumes "wf_json v" and "json_depth v \<le> MCP_JSON_MAX_DEPTH"
  shows "yields (do { s \<leftarrow> builtin_serialize (Some v); builtin_parse s }) (Some (recap v))"
proof (rule yields_bind [OF builtin_serialize_yields], rule builtin_parse_complete)
  show "utf8_valid (print_json v)" using assms(1) by (rule utf8_valid_print)
  show "json_document MCP_JSON_MAX_DEPTH (print_json v) (recap v)"
    using json_documentI [OF json_text_print [OF assms], of "[]" "[]"] by simp
qed

section \<open>Properties of the serializer\<close>

text \<open>
  C3: round trip. Serializing a well-formed tree of admissible depth and parsing the text
  gives the tree back, with containers of the capacity they grow to. Numbers come back
  bit for bit, strings with all their escapes, members in their order.
\<close>

theorem serialize_parse_roundtrip:
  assumes "wf_json v" and "json_depth v \<le> MCP_JSON_MAX_DEPTH"
  shows "fst (run_state (do { s \<leftarrow> builtin_serialize (Some v); builtin_parse s }) \<lparr>live = n, script = []\<rparr>) =
    Some (recap v)"
  by (rule yields_unique [OF serialize_parse [OF assms]]) simp

theorem serialize_parse_roundtrip_witness:
  "fst (run_state (do {
       s \<leftarrow> builtin_serialize (Some (JObject [(''k'', JArray [JString [CHR 0x0A, CHR 0x22], JBool True] 2)] 1));
       builtin_parse s
     }) \<lparr>live = 9, script = []\<rparr>) =
   Some (JObject [(''k'', JArray [JString [CHR 0x0A, CHR 0x22], JBool True] 4)] 4)"
proof -
  have "wf_json (JObject [(''k'', JArray [JString [CHR 0x0A, CHR 0x22], JBool True] 2)] 1)"
    by (simp add: wf_text_def utf8_valid_ascii)
  from serialize_parse_roundtrip [OF this, of 9] show ?thesis
    by (simp add: MCP_JSON_MAX_DEPTH_def next_cap_def numeral_eq_Suc)
qed

text \<open>
  The serializer for any behaviour of the allocator. Its text is the printed form of the
  tree, in one block; it returns NULL only when an allocation failed, with nothing left
  allocated.
\<close>

lemma builtin_serialize_correct:
  "case run_state (builtin_serialize (Some v)) h of
     (Some s, h') \<Rightarrow> s = print_json v \<and> live h' = live h + 1
   | (None, h') \<Rightarrow> script h \<noteq> [] \<and> live h' = live h"
  using builtin_serialize_spec [of v h]
  by (auto simp: wp_run_state steps_def split: option.splits prod.splits)

text \<open>
  Numbers. The text \<open>%.17g\<close> gives for a finite binary64 number fits the 32-byte buffer
  of \<open>ser_value\<close>, so that nothing is cut off, and \<open>strtod\<close> reads the same number back from
  it with nothing left over.
\<close>

lemma number_text_roundtrip:
  assumes "canonical d" and "isfinite d"
  shows "length (fmt_g 17 d) < 32 \<and> number_text d = fmt_g 17 d \<and> strtod (number_text d) = (d, [])"
  using fmt_g_17_length [OF assms] number_text_eq [OF assms] print_number(2) [OF assms] by simp

end
