(* ===== verification/Json_Build.thy ===== *)
theory Json_Build
  imports Json_Serializer
begin

text \<open>
  The steps by which the protocol layer assembles objects, with their contracts. A builder
  makes a value and hands it to \<open>mcp_json_object_set_take\<close>, which owns it from then on; when
  that fails it drops the object and returns NULL, or goes on without the member. The
  contracts hold for any behaviour of the allocator and for objects of any size: a result
  owns exactly its blocks, and nothing is leaked on failure.
\<close>

section \<open>Results that may be NULL\<close>

definition opt_bind ::
  "('s, 'a option) state \<Rightarrow> ('a \<Rightarrow> ('s, 'b option) state) \<Rightarrow> ('s, 'b option) state" where
  "opt_bind m f = do { r \<leftarrow> m; (case r of None \<Rightarrow> ret None | Some x \<Rightarrow> f x) }"

lemma wp_opt_bind: "wp (opt_bind m f) Q = wp m (\<lambda>r. case r of None \<Rightarrow> Q None | Some x \<Rightarrow> wp (f x) Q)"
  unfolding opt_bind_def wp_bind wp_case_option wp_return ..

lemma yields_opt_bind: "yields m (Some x) \<Longrightarrow> yields (f x) y \<Longrightarrow> yields (opt_bind m f) y"
  unfolding opt_bind_def by (erule yields_bind) simp

text \<open>\<open>drops n h h'\<close>: at least \<open>n\<close> blocks were freed, exactly \<open>n\<close> if no allocation failed.\<close>

definition drops :: "int \<Rightarrow> 'z heap_scheme \<Rightarrow> 'z heap_scheme \<Rightarrow> bool" where
  "drops n h h' \<longleftrightarrow> live h' \<le> live h - n \<and> heap.more h' = heap.more h \<and>
     (script h = [] \<longrightarrow> script h' = [] \<and> live h' = live h - n)"

lemma steps_drops: "steps m h h' \<Longrightarrow> m \<le> - n \<Longrightarrow> script h \<noteq> [] \<or> m = - n \<Longrightarrow> drops n h h'"
  by (auto simp: steps_def drops_def)

lemma drops_after: "steps m h h1 \<Longrightarrow> drops n h1 h2 \<Longrightarrow> k = n - m \<Longrightarrow> drops k h h2"
  by (auto simp: steps_def drops_def)

lemma drops_free [simp]: "drops n h (h'\<lparr>live := live h' - m\<rparr>) \<longleftrightarrow> drops (n - m) h h'"
  by (auto simp: drops_def)

section \<open>Making a value\<close>

text \<open>The outcome of a builder that owns \<open>n\<close> blocks and makes them into \<open>v\<close>: on NULL they are gone.\<close>

definition build_post :: "bool \<Rightarrow> int \<Rightarrow> json \<Rightarrow> 'z heap_scheme \<Rightarrow> json option \<Rightarrow> 'z heap_scheme \<Rightarrow> bool" where
  "build_post good n v h r h' \<longleftrightarrow>
     (case r of
        None \<Rightarrow> (\<not> good \<or> script h \<noteq> []) \<and> drops n h h'
      | Some w \<Rightarrow> w = v \<and> good \<and> steps (blocks v - n) h h')"

definition makes :: "bool \<Rightarrow> json \<Rightarrow> ('z heap_scheme, json option) state \<Rightarrow> bool" where
  "makes good v mk \<longleftrightarrow> (\<forall>h. wp mk (build_post good 0 v h) h)"

lemma wp_build_post:
  assumes "wp m (build_post good n v h) h"
    and "\<And>h'. good \<Longrightarrow> steps (blocks v - n) h h' \<Longrightarrow> Q (Some v) h'"
    and "\<And>h'. \<not> good \<or> script h \<noteq> [] \<Longrightarrow> drops n h h' \<Longrightarrow> Q None h'"
  shows "wp m Q h"
  using assms(1) by (rule wp_mono) (use assms(2,3) in \<open>auto simp: build_post_def split: option.splits\<close>)

lemma wp_makes:
  assumes "makes good v mk"
    and "\<And>h'. good \<Longrightarrow> steps (blocks v) h h' \<Longrightarrow> Q (Some v) h'"
    and "\<And>h'. \<not> good \<or> script h \<noteq> [] \<Longrightarrow> drops 0 h h' \<Longrightarrow> Q None h'"
  shows "wp mk Q h"
  using assms(1) [unfolded makes_def, THEN spec] by (rule wp_build_post) (use assms(2,3) in simp_all)

lemma creates_makes: "creates good v mk \<Longrightarrow> makes good v mk"
  unfolding makes_def by (intro allI, erule wp_creates) (auto simp: build_post_def drops_def steps_def)

lemma makes_yields: "makes good v mk \<Longrightarrow> good \<Longrightarrow> yields mk (Some v)"
  by (rule yieldsI, erule wp_makes) (auto simp: steps_def)

lemma makes_clone: "wf_json v \<Longrightarrow> makes True (recap v) (mcp_json_clone (Some v))"
  unfolding makes_def by (intro allI, rule wp_mono [OF mcp_json_clone_builds])
     (auto simp: builds_def build_post_def intro: steps_drops split: option.splits)

lemmas makes_string = creates_makes [OF creates_string_new]
  and makes_number = creates_makes [OF creates_number_new]
  and makes_leaf = creates_leaf [THEN creates_makes]

section \<open>Adding a member\<close>

text \<open>\<open>if ((v = mk) == NULL || set_take(obj, key, v) != MCP_OK) { destroy(obj); return NULL; }\<close>\<close>

definition put_or_drop ::
  "json \<Rightarrow> string \<Rightarrow> ('z heap_scheme, json option) state \<Rightarrow> ('z heap_scheme, json option) state" where
  "put_or_drop obj key mk = do {
     v \<leftarrow> mk;
     (case v of
        None \<Rightarrow> do { mcp_json_destroy (Some obj); ret None }
      | Some _ \<Rightarrow> do {
          r \<leftarrow> mcp_json_object_set_take (Some obj) (Some key) v;
          (if fst r \<noteq> MCP_OK then do { mcp_json_destroy (snd r); ret None } else ret (snd r))
        })
   }"

text \<open>\<open>set_take(obj, key, mk)\<close> with the status ignored.\<close>

definition put_or_skip ::
  "json \<Rightarrow> string \<Rightarrow> ('z heap_scheme, json option) state \<Rightarrow> ('z heap_scheme, json) state" where
  "put_or_skip obj key mk = do {
     v \<leftarrow> mk;
     r \<leftarrow> mcp_json_object_set_take (Some obj) (Some key) v;
     ret (case snd r of None \<Rightarrow> obj | Some obj' \<Rightarrow> obj')
   }"

text \<open>\<open>mcp_json_object_set_take\<close> on any object: on failure the value is destroyed.\<close>

lemma wp_set_take:
  assumes obj: "is_object obj" and key: "utf8_valid key"
    and ok: "\<And>h'. steps (blocks (object_put obj key val) - blocks obj - blocks val) h h' \<Longrightarrow>
      Q (MCP_OK, Some (object_put obj key val)) h'"
    and fail: "\<And>obj' h'. script h \<noteq> [] \<Longrightarrow> is_object obj' \<Longrightarrow>
      drops (blocks obj + blocks val) h (h'\<lparr>live := live h' - blocks obj'\<rparr>) \<Longrightarrow> Q (MCP_ERR_NOMEM, Some obj') h'"
  shows "wp (mcp_json_object_set_take (Some obj) (Some key) (Some val)) Q h"
  unfolding mcp_json_object_set_take_def wp_bind
proof (rule wp_builtin_object_set [OF obj], goal_cases)
  case (1 h')
  then show ?case using ok by simp
next
  case (3 ms cap cap' h' n)
  then have "script h \<noteq> []" "steps n h h'" by auto
  moreover have "n \<le> blocks (JObject ms cap') - blocks obj" using 3 by auto
  ultimately show ?case
    by (auto intro!: fail simp: drops_def steps_def is_object_def)
qed (use key in simp)

lemma wp_put_or_drop:
  assumes mk: "makes good v mk" and obj: "is_object obj" and key: "utf8_valid key"
    and ok: "\<And>h'. good \<Longrightarrow> steps (blocks (object_put obj key v) - blocks obj) h h' \<Longrightarrow>
      Q (Some (object_put obj key v)) h'"
    and fail: "\<And>h'. \<not> good \<or> script h \<noteq> [] \<Longrightarrow> drops (blocks obj) h h' \<Longrightarrow> Q None h'"
  shows "wp (put_or_drop obj key mk) Q h"
  unfolding put_or_drop_def wp_bind
proof (rule wp_makes [OF mk], goal_cases)
  case (1 h1)
  show ?case unfolding option.case wp_bind
  proof (rule wp_set_take [OF obj key], goal_cases)
    case (1 h2)
    then show ?case using \<open>good\<close> \<open>steps _ h h1\<close> by (auto intro!: ok simp: steps_def)
  next
    case (2 obj' h2)
    then show ?case
      using \<open>steps _ h h1\<close> by (auto intro!: fail simp: drops_def steps_def)
  qed
next
  case (2 h1)
  then show ?case by (auto intro!: fail simp: drops_def)
qed

lemma yields_set_take:
  "is_object obj \<Longrightarrow> utf8_valid key \<Longrightarrow>
   yields (mcp_json_object_set_take (Some obj) (Some key) (Some v)) (MCP_OK, Some (object_put obj key v))"
  unfolding mcp_json_object_set_take_def by (rule yields_bind [OF yields_object_set]) (simp_all add: yields_ret)

lemma object_put_twice: "object_put (object_put obj k v) k w = object_put obj k w"
proof (cases obj)
  case (JObject ms cap)
  have "lookup_member (replace_member ms k v) k \<noteq> None \<and> replace_member (replace_member ms k v) k w = replace_member ms k w"
    if "lookup_member ms k \<noteq> None"
    using that by (induction ms) (auto split: if_splits)
  moreover have "lookup_member (ms @ [(k, v)]) k \<noteq> None \<and> replace_member (ms @ [(k, v)]) k w = ms @ [(k, w)]"
    if "lookup_member ms k = None"
    using that by (induction ms) (auto split: if_splits)
  ultimately show ?thesis by (auto simp: JObject)
qed simp_all

lemma yields_put_or_drop [yields_rules]:
  "yields mk (Some v) \<Longrightarrow> is_object obj \<Longrightarrow> utf8_valid key \<Longrightarrow>
   yields (put_or_drop obj key mk) (Some (object_put obj key v))"
  unfolding put_or_drop_def mcp_json_object_set_take_def
  by (auto intro!: yields_bind yields_object_set yields_ret)

lemma yields_put_or_skip [yields_rules]:
  "yields mk (Some v) \<Longrightarrow> is_object obj \<Longrightarrow> utf8_valid key \<Longrightarrow>
   yields (put_or_skip obj key mk) (object_put obj key v)"
  unfolding put_or_skip_def mcp_json_object_set_take_def
  by (auto intro!: yields_bind yields_object_set yields_ret)

text \<open>The contract of a builder as a whole: \<open>fills good obj obj' m\<close> says that \<open>m\<close>, which owns \<open>obj\<close>,
  turns it into \<open>obj'\<close> or drops it.\<close>

definition fills :: "bool \<Rightarrow> json \<Rightarrow> json \<Rightarrow> ('z heap_scheme, json option) state \<Rightarrow> bool" where
  "fills good obj obj' m \<longleftrightarrow> (\<forall>h. wp m (build_post good (blocks obj) obj' h) h)"

lemma fills_ret: "fills True obj obj (ret (Some obj))"
  by (simp add: fills_def build_post_def)

lemma fills_put:
  "makes good v mk \<Longrightarrow> is_object obj \<Longrightarrow> utf8_valid key \<Longrightarrow>
   fills good obj (object_put obj key v) (put_or_drop obj key mk)"
  unfolding fills_def by (intro allI, erule wp_put_or_drop) (auto simp: build_post_def)

lemma fills_bind:
  assumes m: "fills good obj obj1 m" and f: "fills good' obj1 obj2 (f obj1)"
  shows "fills (good \<and> good') obj obj2 (opt_bind m f)"
  unfolding fills_def wp_opt_bind
proof (intro allI, rule wp_build_post [OF m [unfolded fills_def, THEN spec]], goal_cases)
  case (1 h h1)
  show ?case unfolding option.case
    by (rule wp_build_post [OF f [unfolded fills_def, THEN spec]])
       (use 1 in \<open>auto simp: build_post_def steps_def drops_def\<close>)
qed (simp add: build_post_def)

lemma makes_from_object:
  assumes "fills good (JObject [] 0) v (f (JObject [] 0))"
  shows "makes good v (opt_bind mcp_json_object_new f)"
  unfolding makes_def wp_opt_bind
proof (intro allI, rule wp_new_object, goal_cases)
  case (1 h h1)
  show ?case unfolding option.case
    by (rule wp_build_post [OF assms [unfolded fills_def, THEN spec]])
       (use 1 in \<open>auto simp: build_post_def steps_def drops_def\<close>)
qed (simp add: build_post_def drops_def steps_def)

section \<open>Optional members\<close>

text \<open>A member that is added only when \<open>b\<close> holds.\<close>

definition put_when ::
  "bool \<Rightarrow> string \<Rightarrow> ('z heap_scheme, json option) state \<Rightarrow> json \<Rightarrow> ('z heap_scheme, json option) state" where
  "put_when b key mk obj = (if b then put_or_drop obj key mk else ret (Some obj))"

definition put_if :: "bool \<Rightarrow> string \<Rightarrow> json \<Rightarrow> json \<Rightarrow> json" where
  "put_if b key v obj = (if b then object_put obj key v else obj)"

lemma is_object_JObject [simp]: "is_object (JObject ms cap)"
  by (simp add: is_object_def)

lemma is_object_put_if [simp]: "is_object (put_if b key v obj) = is_object obj"
  by (cases obj) (auto simp: put_if_def is_object_def)

lemma fills_when:
  assumes "b \<Longrightarrow> makes good v mk" and "is_object obj" and "utf8_valid key"
  shows "fills (b \<longrightarrow> good) obj (put_if b key v obj) (put_when b key mk obj)"
  using fills_put [OF assms(1) assms(2,3)] fills_ret [of obj] by (auto simp: put_if_def put_when_def)


lemma get_put_if:
  "is_object obj \<Longrightarrow> utf8_valid k \<Longrightarrow> builtin_object_get (Some (put_if b key v obj)) k =
     (if b \<and> k = key then Some v else builtin_object_get (Some obj) k)"
  by (auto simp: put_if_def object_get_put)

end
