(* ===== verification/Message.thy ===== *)
theory Message
  imports Json_Serializer
begin

text \<open>
  The JSON-RPC envelope of src/protocol/message.c: parsing and classifying a message, its
  accessors, the builders of requests, notifications and responses with their ownership
  rules, and the mapping between status codes and RPC error codes. A \<open>mcp_message_t\<close> is a
  record with the document it owns.
\<close>

section \<open>Envelopes\<close>

record mcp_message =
  dom :: json

datatype msg_kind = MCP_MSG_INVALID | MCP_MSG_REQUEST | MCP_MSG_NOTIFICATION | MCP_MSG_RESPONSE

datatype id_type = MCP_ID_NONE | MCP_ID_STRING | MCP_ID_NUMBER

definition MCP_PROTOCOL_MAX_MESSAGE_BYTES :: nat where
  "MCP_PROTOCOL_MAX_MESSAGE_BYTES = 4 * 1024 * 1024"

definition wrap :: "json \<Rightarrow> ('z heap_scheme, mcp_message option) state" where
  "wrap d = do { msg \<leftarrow> xmalloc; ret (if msg then Some \<lparr>dom = d\<rparr> else None) }"

definition get_key :: "mcp_message option \<Rightarrow> string \<Rightarrow> json option" where
  "get_key msg key = (case msg of None \<Rightarrow> None | Some m \<Rightarrow> mcp_json_object_get (Some (dom m)) key)"

definition classify :: "json \<Rightarrow> msg_kind" where
  "classify d =
     (case mcp_json_object_get (Some d) ''method'' of
        Some method \<Rightarrow>
          if mcp_json_string_value (Some method) = None then MCP_MSG_INVALID
          else if mcp_json_object_has (Some d) ''id'' then MCP_MSG_REQUEST
          else MCP_MSG_NOTIFICATION
      | None \<Rightarrow>
          if mcp_json_object_has (Some d) ''result'' \<or> mcp_json_object_has (Some d) ''error''
          then MCP_MSG_RESPONSE
          else MCP_MSG_INVALID)"

definition mcp_message_parse :: "string option \<Rightarrow> ('z heap_scheme, mcp_message option) state" where
  "mcp_message_parse t =
     (if t = None \<or> MCP_PROTOCOL_MAX_MESSAGE_BYTES < length (the t) then ret None
      else do {
        d \<leftarrow> builtin_parse t;
        (case d of
           None \<Rightarrow> ret None
         | Some v \<Rightarrow>
             if mcp_json_type d \<noteq> MCP_JSON_OBJECT then do { mcp_json_destroy d; ret None }
             else do {
               msg \<leftarrow> wrap v;
               (case msg of None \<Rightarrow> do { mcp_json_destroy d; ret None } | Some m \<Rightarrow> ret (Some m))
             })
      })"

definition mcp_message_destroy :: "mcp_message option \<Rightarrow> ('z heap_scheme, unit) state" where
  "mcp_message_destroy msg =
     (case msg of
        None \<Rightarrow> ret ()
      | Some m \<Rightarrow> do { mcp_json_destroy (Some (dom m)); xfree True })"

definition mcp_message_kind :: "mcp_message option \<Rightarrow> msg_kind" where
  "mcp_message_kind msg = (case msg of None \<Rightarrow> MCP_MSG_INVALID | Some m \<Rightarrow> classify (dom m))"

definition mcp_message_jsonrpc :: "mcp_message option \<Rightarrow> string option" where
  "mcp_message_jsonrpc msg = mcp_json_string_value (get_key msg ''jsonrpc'')"

definition mcp_message_method :: "mcp_message option \<Rightarrow> string option" where
  "mcp_message_method msg = mcp_json_string_value (get_key msg ''method'')"

definition mcp_message_params :: "mcp_message option \<Rightarrow> json option" where
  "mcp_message_params msg = get_key msg ''params''"

definition mcp_message_id_type :: "mcp_message option \<Rightarrow> id_type" where
  "mcp_message_id_type msg =
     (case get_key msg ''id'' of
        None \<Rightarrow> MCP_ID_NONE
      | Some v \<Rightarrow>
          (case mcp_json_type (Some v) of
             MCP_JSON_STRING \<Rightarrow> MCP_ID_STRING
           | MCP_JSON_NUMBER \<Rightarrow> MCP_ID_NUMBER
           | _ \<Rightarrow> MCP_ID_NONE))"

definition mcp_message_id_string :: "mcp_message option \<Rightarrow> string option" where
  "mcp_message_id_string msg = mcp_json_string_value (get_key msg ''id'')"

definition mcp_message_id_number :: "mcp_message option \<Rightarrow> double option" where
  "mcp_message_id_number msg = mcp_json_number_value (get_key msg ''id'')"

definition mcp_message_result :: "mcp_message option \<Rightarrow> json option" where
  "mcp_message_result msg = get_key msg ''result''"

definition error_obj :: "mcp_message option \<Rightarrow> json option" where
  "error_obj msg =
     (case get_key msg ''error'' of
        None \<Rightarrow> None
      | Some err \<Rightarrow> if mcp_json_type (Some err) \<noteq> MCP_JSON_OBJECT then None else Some err)"

text \<open>The cast \<open>(int)d\<close> truncates; outside the range of \<open>int\<close> C leaves it undefined.\<close>

definition mcp_message_error_code :: "mcp_message option \<Rightarrow> int option" where
  "mcp_message_error_code msg =
     (let cv = (case error_obj msg of None \<Rightarrow> None | Some err \<Rightarrow> mcp_json_object_get (Some err) ''code'')
      in map_option double_trunc (mcp_json_number_value cv))"

definition mcp_message_error_text :: "mcp_message option \<Rightarrow> string option" where
  "mcp_message_error_text msg =
     (let t = (case error_obj msg of None \<Rightarrow> None | Some err \<Rightarrow> mcp_json_object_get (Some err) ''message'')
      in mcp_json_string_value t)"

definition mcp_message_meta :: "mcp_message option \<Rightarrow> json option" where
  "mcp_message_meta msg =
     (case get_key msg ''_meta'' of
        None \<Rightarrow> None
      | Some v \<Rightarrow> if mcp_json_type (Some v) \<noteq> MCP_JSON_OBJECT then None else Some v)"

definition mcp_message_serialize :: "mcp_message option \<Rightarrow> ('z heap_scheme, string option) state" where
  "mcp_message_serialize msg =
     (case msg of None \<Rightarrow> ret None | Some m \<Rightarrow> builtin_serialize (Some (dom m)))"

section \<open>Builders\<close>

definition new_envelope :: "('z heap_scheme, json option) state" where
  "new_envelope = do {
     d \<leftarrow> mcp_json_object_new;
     (case d of
        None \<Rightarrow> ret None
      | Some _ \<Rightarrow> do {
          v \<leftarrow> mcp_json_string_new (Some ''2.0'');
          (case v of
             None \<Rightarrow> do { mcp_json_destroy d; ret None }
           | Some _ \<Rightarrow> do {
               r \<leftarrow> mcp_json_object_set d (Some ''jsonrpc'') v;
               (if fst r \<noteq> MCP_OK then do { mcp_json_destroy v; mcp_json_destroy (snd r); ret None }
                else ret (snd r))
             })
        })
   }"

definition set_owned ::
  "json option \<Rightarrow> string \<Rightarrow> json option \<Rightarrow> ('z heap_scheme, mcp_status \<times> json option) state" where
  "set_owned d key val = (if val = None then ret (MCP_OK, d) else mcp_json_object_set d (Some key) val)"

definition finish_with ::
  "json \<Rightarrow> string \<Rightarrow> json option \<Rightarrow> ('z heap_scheme, mcp_message option) state" where
  "finish_with d key val = do {
     msg \<leftarrow> wrap d;
     (case msg of
        None \<Rightarrow> do { mcp_json_destroy (Some d); ret None }
      | Some m \<Rightarrow> do {
          r \<leftarrow> set_owned (Some (dom m)) key val;
          (if fst r \<noteq> MCP_OK then do { mcp_message_destroy (map_option (\<lambda>d. \<lparr>dom = d\<rparr>) (snd r)); ret None }
           else ret (map_option (\<lambda>d. \<lparr>dom = d\<rparr>) (snd r)))
        })
   }"

text \<open>The common rest of the two request builders, from the test for NULL on.\<close>

definition request_attach ::
  "json option \<Rightarrow> json option \<Rightarrow> json option \<Rightarrow> json option \<Rightarrow> ('z heap_scheme, mcp_message option) state" where
  "request_attach d idv mv params =
     (if d = None \<or> idv = None \<or> mv = None then do {
        mcp_json_destroy idv; mcp_json_destroy mv; mcp_json_destroy d; ret None
      }
      else do {
        r \<leftarrow> mcp_json_object_set d (Some ''id'') idv;
        (if fst r \<noteq> MCP_OK then do {
           mcp_json_destroy idv; mcp_json_destroy mv; mcp_json_destroy (snd r); ret None
         }
         else do {
           r \<leftarrow> mcp_json_object_set (snd r) (Some ''method'') mv;
           (if fst r \<noteq> MCP_OK then do { mcp_json_destroy mv; mcp_json_destroy (snd r); ret None }
            else (case snd r of None \<Rightarrow> ret None | Some d \<Rightarrow> finish_with d ''params'' params))
         })
      })"

definition mcp_request_new_string_id ::
  "string option \<Rightarrow> string option \<Rightarrow> json option \<Rightarrow> ('z heap_scheme, mcp_message option) state" where
  "mcp_request_new_string_id i method params =
     (if i = None \<or> method = None then ret None
      else do {
        d \<leftarrow> new_envelope;
        idv \<leftarrow> (if d \<noteq> None then mcp_json_string_new i else ret None);
        mv \<leftarrow> (if idv \<noteq> None then mcp_json_string_new method else ret None);
        request_attach d idv mv params
      })"

definition mcp_request_new_number_id ::
  "double \<Rightarrow> string option \<Rightarrow> json option \<Rightarrow> ('z heap_scheme, mcp_message option) state" where
  "mcp_request_new_number_id i method params =
     (if method = None then ret None
      else do {
        d \<leftarrow> new_envelope;
        idv \<leftarrow> (if d \<noteq> None then mcp_json_number_new i else ret None);
        mv \<leftarrow> (if idv \<noteq> None then mcp_json_string_new method else ret None);
        request_attach d idv mv params
      })"

text \<open>The common rest of the notification builder and of the result builders: attach one
  value under one key, then the caller's value.\<close>

definition attach_finish ::
  "json option \<Rightarrow> string \<Rightarrow> json option \<Rightarrow> string \<Rightarrow> json option \<Rightarrow> ('z heap_scheme, mcp_message option) state" where
  "attach_finish d key v key' val =
     (if d = None \<or> v = None then do { mcp_json_destroy v; mcp_json_destroy d; ret None }
      else do {
        r \<leftarrow> mcp_json_object_set d (Some key) v;
        (if fst r \<noteq> MCP_OK then do { mcp_json_destroy v; mcp_json_destroy (snd r); ret None }
         else (case snd r of None \<Rightarrow> ret None | Some d \<Rightarrow> finish_with d key' val))
      })"

definition mcp_notification_new ::
  "string option \<Rightarrow> json option \<Rightarrow> ('z heap_scheme, mcp_message option) state" where
  "mcp_notification_new method params =
     (if method = None then ret None
      else do {
        d \<leftarrow> new_envelope;
        mv \<leftarrow> (if d \<noteq> None then mcp_json_string_new method else ret None);
        attach_finish d ''method'' mv ''params'' params
      })"

definition copy_id :: "mcp_message option \<Rightarrow> ('z heap_scheme, json option) state" where
  "copy_id req =
     (if req = None then builtin_new_null
      else (case mcp_message_id_type req of
          MCP_ID_STRING \<Rightarrow> mcp_json_string_new (mcp_message_id_string req)
        | MCP_ID_NUMBER \<Rightarrow>
            (case mcp_message_id_number req of
               None \<Rightarrow> ret None
             | Some d \<Rightarrow> mcp_json_number_new d)
        | MCP_ID_NONE \<Rightarrow> builtin_new_null))"

definition mcp_response_ok_new ::
  "mcp_message option \<Rightarrow> json option \<Rightarrow> ('z heap_scheme, mcp_message option) state" where
  "mcp_response_ok_new req result =
     (if req = None then ret None
      else do {
        d \<leftarrow> new_envelope;
        idv \<leftarrow> (if d \<noteq> None then copy_id req else ret None);
        attach_finish d ''id'' idv ''result'' result
      })"

definition mcp_response_ok_string_id_new ::
  "string option \<Rightarrow> json option \<Rightarrow> ('z heap_scheme, mcp_message option) state" where
  "mcp_response_ok_string_id_new i result =
     (if i = None then ret None
      else do {
        d \<leftarrow> new_envelope;
        idv \<leftarrow> (if d \<noteq> None then mcp_json_string_new i else ret None);
        attach_finish d ''id'' idv ''result'' result
      })"

definition mcp_response_ok_number_id_new ::
  "double \<Rightarrow> json option \<Rightarrow> ('z heap_scheme, mcp_message option) state" where
  "mcp_response_ok_number_id_new i result = do {
     d \<leftarrow> new_envelope;
     idv \<leftarrow> (if d \<noteq> None then mcp_json_number_new i else ret None);
     attach_finish d ''id'' idv ''result'' result
   }"

text \<open>The steps of \<open>mcp_response_err_new\<close> after the allocations, last step first: attaching the
  error object to the wrapped message, adding the caller's data, filling the error object.\<close>

definition err_attach :: "json \<Rightarrow> json \<Rightarrow> ('z heap_scheme, mcp_message option) state" where
  "err_attach d err = do {
     r \<leftarrow> mcp_json_object_set (Some d) (Some ''error'') (Some err);
     (if fst r \<noteq> MCP_OK then do {
        mcp_json_destroy (Some err);
        mcp_message_destroy (map_option (\<lambda>d. \<lparr>dom = d\<rparr>) (snd r));
        ret None
      }
      else ret (map_option (\<lambda>d. \<lparr>dom = d\<rparr>) (snd r)))
   }"

definition err_finish ::
  "json \<Rightarrow> json \<Rightarrow> json option \<Rightarrow> ('z heap_scheme, mcp_message option) state" where
  "err_finish d err data = do {
     msg \<leftarrow> wrap d;
     (case msg of
        None \<Rightarrow> do { mcp_json_destroy (Some err); mcp_json_destroy (Some d); ret None }
      | Some m \<Rightarrow> do {
          r \<leftarrow> set_owned (Some err) ''data'' data;
          (if fst r \<noteq> MCP_OK then do {
             mcp_json_destroy (snd r); mcp_message_destroy (Some m); ret None
           }
           else (case snd r of None \<Rightarrow> ret None | Some err \<Rightarrow> err_attach (dom m) err))
        })
   }"

definition err_fill ::
  "json option \<Rightarrow> json option \<Rightarrow> json option \<Rightarrow> json option \<Rightarrow> json option \<Rightarrow> json option \<Rightarrow>
   ('z heap_scheme, mcp_message option) state" where
  "err_fill d idv err codev msgv data = do {
     r \<leftarrow> mcp_json_object_set d (Some ''id'') idv;
     (if fst r \<noteq> MCP_OK then do {
        mcp_json_destroy idv; mcp_json_destroy codev; mcp_json_destroy msgv; mcp_json_destroy err;
        mcp_json_destroy (snd r); ret None
      }
      else do {
        e \<leftarrow> mcp_json_object_set err (Some ''code'') codev;
        (if fst e \<noteq> MCP_OK then do {
           mcp_json_destroy codev; mcp_json_destroy msgv; mcp_json_destroy (snd e);
           mcp_json_destroy (snd r); ret None
         }
         else do {
           e \<leftarrow> mcp_json_object_set (snd e) (Some ''message'') msgv;
           (if fst e \<noteq> MCP_OK then do {
              mcp_json_destroy msgv; mcp_json_destroy (snd e); mcp_json_destroy (snd r); ret None
            }
            else (case (snd r, snd e) of
                (Some d, Some err) \<Rightarrow> err_finish d err data
              | _ \<Rightarrow> ret None))
         })
      })
   }"

definition mcp_response_err_new ::
  "mcp_message option \<Rightarrow> int \<Rightarrow> string option \<Rightarrow> json option \<Rightarrow> ('z heap_scheme, mcp_message option) state" where
  "mcp_response_err_new req_or_null rpc_code message data =
     (if message = None then ret None
      else do {
        d \<leftarrow> new_envelope;
        idv \<leftarrow> (if d \<noteq> None then copy_id req_or_null else ret None);
        err \<leftarrow> (if idv \<noteq> None then mcp_json_object_new else ret None);
        codev \<leftarrow> (if err \<noteq> None then mcp_json_number_new (double_of_int rpc_code) else ret None);
        msgv \<leftarrow> (if codev \<noteq> None then mcp_json_string_new message else ret None);
        (if d = None \<or> idv = None \<or> err = None \<or> codev = None \<or> msgv = None then do {
           mcp_json_destroy idv; mcp_json_destroy err; mcp_json_destroy codev; mcp_json_destroy msgv;
           mcp_json_destroy d; ret None
         }
         else err_fill d idv err codev msgv data)
      })"

definition mcp_result_inject_result_type ::
  "json option \<Rightarrow> ('z heap_scheme, mcp_status \<times> json option) state" where
  "mcp_result_inject_result_type result =
     (if result = None \<or> mcp_json_type result \<noteq> MCP_JSON_OBJECT then ret (MCP_ERR_INVALID_ARGUMENT, result)
      else do {
        s \<leftarrow> mcp_json_string_new (Some ''complete'');
        (case s of
           None \<Rightarrow> ret (MCP_ERR_NOMEM, result)
         | Some _ \<Rightarrow> do {
             r \<leftarrow> mcp_json_object_set_take result (Some ''resultType'') s;
             ret (if fst r \<noteq> MCP_OK then MCP_ERR_NOMEM else MCP_OK, snd r)
           })
      })"

definition mcp_result_inject_meta ::
  "json option \<Rightarrow> json option \<Rightarrow> ('z heap_scheme, mcp_status \<times> json option) state" where
  "mcp_result_inject_meta result meta =
     (if result = None \<or> mcp_json_type result \<noteq> MCP_JSON_OBJECT then ret (MCP_ERR_INVALID_ARGUMENT, result)
      else if meta = None then ret (MCP_ERR_INVALID_ARGUMENT, result)
      else do {
        r \<leftarrow> mcp_json_object_set_take result (Some ''_meta'') meta;
        ret (if fst r \<noteq> MCP_OK then MCP_ERR_NOMEM else MCP_OK, snd r)
      })"

section \<open>RPC error codes\<close>

abbreviation MCP_RPC_PARSE_ERROR :: int where "MCP_RPC_PARSE_ERROR \<equiv> -32700"
abbreviation MCP_RPC_INVALID_REQUEST :: int where "MCP_RPC_INVALID_REQUEST \<equiv> -32600"
abbreviation MCP_RPC_METHOD_NOT_FOUND :: int where "MCP_RPC_METHOD_NOT_FOUND \<equiv> -32601"
abbreviation MCP_RPC_INVALID_PARAMS :: int where "MCP_RPC_INVALID_PARAMS \<equiv> -32602"
abbreviation MCP_RPC_INTERNAL_ERROR :: int where "MCP_RPC_INTERNAL_ERROR \<equiv> -32603"
abbreviation MCP_RPC_HEADER_MISMATCH :: int where "MCP_RPC_HEADER_MISMATCH \<equiv> -32020"
abbreviation MCP_RPC_MISSING_REQUIRED_CLIENT_CAPABILITY :: int where
  "MCP_RPC_MISSING_REQUIRED_CLIENT_CAPABILITY \<equiv> -32021"
abbreviation MCP_RPC_UNSUPPORTED_PROTOCOL_VERSION :: int where
  "MCP_RPC_UNSUPPORTED_PROTOCOL_VERSION \<equiv> -32022"

definition mcp_status_to_rpc_code :: "mcp_status \<Rightarrow> int" where
  "mcp_status_to_rpc_code status =
     (case status of
        MCP_OK \<Rightarrow> 0
      | MCP_ERR_INVALID_ARGUMENT \<Rightarrow> MCP_RPC_INVALID_PARAMS
      | MCP_ERR_NOT_FOUND \<Rightarrow> MCP_RPC_METHOD_NOT_FOUND
      | MCP_ERR_PROTOCOL \<Rightarrow> MCP_RPC_INVALID_REQUEST
      | _ \<Rightarrow> MCP_RPC_INTERNAL_ERROR)"

definition mcp_rpc_code_to_status :: "int \<Rightarrow> mcp_status" where
  "mcp_rpc_code_to_status rpc_code =
     (if rpc_code = 0 then MCP_OK
      else if rpc_code = MCP_RPC_INVALID_PARAMS then MCP_ERR_INVALID_ARGUMENT
      else if rpc_code = MCP_RPC_METHOD_NOT_FOUND then MCP_ERR_NOT_FOUND
      else if rpc_code = MCP_RPC_INVALID_REQUEST \<or> rpc_code = MCP_RPC_PARSE_ERROR \<or>
        rpc_code = MCP_RPC_HEADER_MISMATCH then MCP_ERR_PROTOCOL
      else if rpc_code = MCP_RPC_MISSING_REQUIRED_CLIENT_CAPABILITY \<or>
        rpc_code = MCP_RPC_UNSUPPORTED_PROTOCOL_VERSION then MCP_ERR_UNSUPPORTED
      else MCP_ERR_PROTOCOL)"

section \<open>What the builders build\<close>

definition put_opt :: "json \<Rightarrow> string \<Rightarrow> json option \<Rightarrow> json" where
  "put_opt d key val = (case val of None \<Rightarrow> d | Some v \<Rightarrow> object_put d key v)"

definition envelope :: "(string \<times> json) list \<Rightarrow> json" where
  "envelope ms = JObject ((''jsonrpc'', JString ''2.0'') # ms) 4"

text \<open>The outcome of a builder given the caller's value \<open>val\<close>: a message that owns it, or NULL
  with the number of live blocks unchanged; NULL only if \<open>good\<close> fails or the allocator
  does.\<close>

definition msg_post ::
  "bool \<Rightarrow> json \<Rightarrow> json option \<Rightarrow> 'z heap_scheme \<Rightarrow> mcp_message option \<Rightarrow> 'z heap_scheme \<Rightarrow> bool" where
  "msg_post good D val h r h' \<longleftrightarrow>
     (case r of
        None \<Rightarrow> steps 0 h h' \<and> (\<not> good \<or> script h \<noteq> [])
      | Some m \<Rightarrow> m = \<lparr>dom = D\<rparr> \<and> good \<and> steps (1 + blocks D - blocks_opt val) h h')"

lemma utf8_ascii_keys [simp]:
  "utf8_valid ''jsonrpc''" "utf8_valid ''id''" "utf8_valid ''method''" "utf8_valid ''params''"
  "utf8_valid ''result''" "utf8_valid ''error''" "utf8_valid ''code''" "utf8_valid ''message''"
  "utf8_valid ''data''" "utf8_valid ''2.0''" "utf8_valid ''_meta''" "utf8_valid ''resultType''"
  "utf8_valid ''complete''"
  by (simp_all add: utf8_valid_ascii)

lemma cstr_2_0 [simp]: "cstr ''2.0'' = ''2.0''" "wf_text ''2.0''"
  by (simp_all add: cstr_def wf_text_def)

lemma creates_envelope: "creates True (envelope []) new_envelope"
proof (rule createsI)
  fix h :: "'z heap_scheme" and Q
  assume ok: "\<And>h'. True \<Longrightarrow> steps (blocks (envelope [])) h h' \<Longrightarrow> Q (Some (envelope [])) h'"
    and fail: "\<And>h'. \<not> True \<or> script h \<noteq> [] \<Longrightarrow> steps 0 h h' \<Longrightarrow> Q None h'"
  show "wp new_envelope Q h" unfolding new_envelope_def wp_bind [of builtin_new_object]
  proof (rule wp_new_object, goal_cases)
    case (1 h1)
    show ?case unfolding option.case wp_bind [of "mcp_json_string_new _"]
    proof (rule wp_creates [OF creates_string_new], goal_cases)
      case (1 h2)
      show ?case unfolding option.case wp_bind [of "builtin_object_set _ _ _"] cstr_2_0
      proof (rule wp_object_set_small, goal_cases)
        case (4 h3)
        then show ?case using 1 \<open>steps 1 h h1\<close> ok [of h3] by (simp add: steps_def envelope_def next_cap_def)
      next
        case (5 cap' h3)
        then show ?case using 1 \<open>steps 1 h h1\<close> by (auto simp: steps_def intro!: fail)
      qed simp_all
    next
      case (2 h2)
      then show ?case using \<open>steps 1 h h1\<close> by (auto simp: steps_def intro!: fail)
    qed
  qed (use fail in simp)
qed

lemma wp_finish_with:
  assumes d: "d = JObject ms cap" "length ms < cap" "lookup_member ms key = None" "utf8_valid key"
    and ok: "\<And>h'. steps (1 + blocks (put_opt d key val) - blocks d - blocks_opt val) h h' \<Longrightarrow>
      Q (Some \<lparr>dom = put_opt d key val\<rparr>) h'"
    and fail: "\<And>h'. script h \<noteq> [] \<Longrightarrow> steps (- blocks d) h h' \<Longrightarrow> Q None h'"
  shows "wp (finish_with d key val) Q h"
  unfolding finish_with_def wrap_def wp_bind wp_return
proof (rule wp_xmalloc, goal_cases)
  case (1 b h1)
  show ?case
  proof (cases b)
    case True
    have "wp (set_owned (Some d) key val) (\<lambda>r. wp (if fst r \<noteq> MCP_OK
        then do { mcp_message_destroy (map_option (\<lambda>d. \<lparr>dom = d\<rparr>) (snd r)); ret None }
        else ret (map_option (\<lambda>d. \<lparr>dom = d\<rparr>) (snd r))) Q) h1"
    proof (cases val)
      case None
      then show ?thesis using 1 True ok [of h1] by (simp add: set_owned_def put_opt_def)
    next
      case (Some v)
      show ?thesis unfolding Some set_owned_def d(1)
        apply (simp only: option.distinct if_False)
        apply (rule wp_object_set_small)
        using 1 True d
            apply (simp_all add: mcp_message_destroy_def)
        subgoal for h2 using ok [of h2] by (simp add: Some put_opt_def steps_def)
        subgoal for cap' h2 by (auto simp: steps_def intro!: fail)
        done
    qed
    with True show ?thesis by simp
  next
    case False
    with 1 show ?thesis by (auto simp: steps_def intro!: fail)
  qed
qed

lemma wp_attach_finish:
  assumes keys: "''jsonrpc'' \<noteq> key" "''jsonrpc'' \<noteq> key'" "key \<noteq> key'" "utf8_valid key" "utf8_valid key'"
    and ok: "\<And>h'. steps (1 + blocks (put_opt (envelope [(key, v)]) key' val) - blocks (envelope [])
        - blocks v - blocks_opt val) h h' \<Longrightarrow> Q (Some \<lparr>dom = put_opt (envelope [(key, v)]) key' val\<rparr>) h'"
    and fail: "\<And>h'. script h \<noteq> [] \<Longrightarrow> steps (- blocks (envelope []) - blocks v) h h' \<Longrightarrow> Q None h'"
  shows "wp (attach_finish (Some (envelope [])) key (Some v) key' val) Q h"
  unfolding attach_finish_def envelope_def wp_bind [of "builtin_object_set _ _ _"] some_none simp_thms if_False
proof (rule wp_object_set_small, goal_cases)
  case (4 h1)
  have "wp (finish_with (envelope [(key, v)]) key' val) Q h1"
  proof (rule wp_finish_with [OF envelope_def], goal_cases)
    case (4 h2)
    show ?case by (rule ok) (use 4 \<open>steps _ h h1\<close> keys in \<open>simp add: steps_def envelope_def\<close>)
  next
    case (5 h2)
    show ?case
      by (rule fail) (use 5 \<open>steps _ h h1\<close> keys in \<open>auto simp: steps_def envelope_def\<close>)
  qed (use keys in simp_all)
  then show ?case using keys by (simp add: envelope_def)
next
  case (5 cap' h1)
  then show ?case by (auto intro!: fail simp: steps_def envelope_def)
qed (use keys in simp_all)


lemma wp_request_attach:
  defines "D i m \<equiv> put_opt (envelope [(''id'', i), (''method'', m)]) ''params''"
  assumes ok: "\<And>h'. steps (1 + blocks (D i m params) - blocks (envelope []) - blocks i - blocks m
        - blocks_opt params) h h' \<Longrightarrow> Q (Some \<lparr>dom = D i m params\<rparr>) h'"
    and fail: "\<And>h'. script h \<noteq> [] \<Longrightarrow> steps (- blocks (envelope []) - blocks i - blocks m) h h' \<Longrightarrow> Q None h'"
  shows "wp (request_attach (Some (envelope [])) (Some i) (Some m) params) Q h"
  unfolding request_attach_def envelope_def wp_bind [of "builtin_object_set _ _ _"] some_none simp_thms if_False
proof (rule wp_object_set_small, goal_cases)
  case (4 h1)
  have "wp (builtin_object_set (Some (envelope [(''id'', i)])) (Some ''method'') (Some m)) (\<lambda>r. wp
     (if fst r \<noteq> MCP_OK then do { mcp_json_destroy (Some m); mcp_json_destroy (snd r); ret None }
      else (case snd r of None \<Rightarrow> ret None | Some d \<Rightarrow> finish_with d ''params'' params)) Q) h1"
    unfolding envelope_def
  proof (rule wp_object_set_small, goal_cases)
    case (4 h2)
    have "wp (finish_with (envelope [(''id'', i), (''method'', m)]) ''params'' params) Q h2"
    proof (rule wp_finish_with [OF envelope_def], goal_cases)
      case (4 h3)
      show ?case
        by (rule ok [unfolded D_def]) (use 4 \<open>steps _ h1 h2\<close> \<open>steps _ h h1\<close> in \<open>simp add: steps_def envelope_def\<close>)
    next
      case (5 h3)
      show ?case
        by (rule fail) (use 5 \<open>steps _ h1 h2\<close> \<open>steps _ h h1\<close> in \<open>auto simp: steps_def envelope_def\<close>)
    qed simp_all
    then show ?case by (simp add: envelope_def)
  next
    case (5 cap' h2)
    with \<open>steps _ h h1\<close> show ?case by (auto intro!: fail simp: steps_def envelope_def)
  qed simp_all
  then show ?case by (simp add: envelope_def)
next
  case (5 cap' h1)
  then show ?case by (auto intro!: fail simp: steps_def envelope_def)
qed simp_all

text \<open>The two shapes of the builders: the envelope, one or two values of its own, the caller's
  value.\<close>

lemma wp_build_one:
  assumes mk: "creates good v mk"
    and keys: "''jsonrpc'' \<noteq> key" "''jsonrpc'' \<noteq> key'" "key \<noteq> key'" "utf8_valid key" "utf8_valid key'"
  shows "wp (do {
      d \<leftarrow> new_envelope;
      w \<leftarrow> (if d \<noteq> None then mk else ret None);
      attach_finish d key w key' val
    }) (msg_post good (put_opt (envelope [(key, v)]) key' val) val h) h"
  unfolding wp_bind
proof (rule wp_creates [OF creates_envelope], goal_cases)
  case (1 h1)
  show ?case unfolding some_none simp_thms if_True
  proof (rule wp_creates [OF mk], goal_cases)
    case (1 h2)
    show ?case
      by (rule wp_attach_finish [OF keys])
        (use 1 \<open>steps _ h h1\<close> in \<open>auto simp: msg_post_def steps_def\<close>)
  next
    case (2 h2)
    with \<open>steps _ h h1\<close> show ?case by (auto simp: attach_finish_def msg_post_def steps_def)
  qed
qed (simp add: attach_finish_def msg_post_def)

lemma wp_build_request:
  assumes mk: "creates good i mk"
  shows "wp (do {
      d \<leftarrow> new_envelope;
      idv \<leftarrow> (if d \<noteq> None then mk else ret None);
      mv \<leftarrow> (if idv \<noteq> None then mcp_json_string_new (Some method) else ret None);
      request_attach d idv mv params
    }) (msg_post (good \<and> wf_text (cstr method))
          (put_opt (envelope [(''id'', i), (''method'', JString (cstr method))]) ''params'' params) params h) h"
  unfolding wp_bind
proof (rule wp_creates [OF creates_envelope], goal_cases)
  case (1 h1)
  show ?case unfolding some_none simp_thms if_True
  proof (rule wp_creates [OF mk], goal_cases)
    case (1 h2)
    show ?case unfolding some_none simp_thms if_True
    proof (rule wp_creates [OF creates_string_new], goal_cases)
      case (1 h3)
      show ?case
        by (rule wp_request_attach)
          (use 1 \<open>good\<close> \<open>steps _ h1 h2\<close> \<open>steps _ h h1\<close> in \<open>auto simp: msg_post_def steps_def\<close>)
    next
      case (2 h3)
      with \<open>steps _ h1 h2\<close> \<open>steps _ h h1\<close> show ?case by (auto simp: request_attach_def msg_post_def steps_def)
    qed
  next
    case (2 h2)
    with \<open>steps _ h h1\<close> show ?case by (auto simp: request_attach_def msg_post_def steps_def)
  qed
qed (simp add: request_attach_def msg_post_def)

lemma wp_request_new_string_id:
  "wp (mcp_request_new_string_id (Some i) (Some method) params)
     (msg_post (wf_text (cstr i) \<and> wf_text (cstr method))
        (put_opt (envelope [(''id'', JString (cstr i)), (''method'', JString (cstr method))]) ''params'' params)
        params h) h"
  unfolding mcp_request_new_string_id_def some_none simp_thms if_False
  by (rule wp_build_request [OF creates_string_new])

lemma wp_request_new_number_id:
  "wp (mcp_request_new_number_id x (Some method) params)
     (msg_post (isfinite x \<and> wf_text (cstr method))
        (put_opt (envelope [(''id'', JNumber x), (''method'', JString (cstr method))]) ''params'' params)
        params h) h"
  unfolding mcp_request_new_number_id_def some_none simp_thms if_False
  by (rule wp_build_request [OF creates_number_new])

lemma wp_notification_new:
  "wp (mcp_notification_new (Some method) params)
     (msg_post (wf_text (cstr method))
        (put_opt (envelope [(''method'', JString (cstr method))]) ''params'' params) params h) h"
  unfolding mcp_notification_new_def some_none simp_thms if_False
  by (rule wp_build_one [OF creates_string_new]) simp_all

lemma wp_response_ok_string_id_new:
  "wp (mcp_response_ok_string_id_new (Some i) result)
     (msg_post (wf_text (cstr i)) (put_opt (envelope [(''id'', JString (cstr i))]) ''result'' result) result h) h"
  unfolding mcp_response_ok_string_id_new_def some_none simp_thms if_False
  by (rule wp_build_one [OF creates_string_new]) simp_all

lemma wp_response_ok_number_id_new:
  "wp (mcp_response_ok_number_id_new x result)
     (msg_post (isfinite x) (put_opt (envelope [(''id'', JNumber x)]) ''result'' result) result h) h"
  unfolding mcp_response_ok_number_id_new_def some_none simp_thms if_False
  by (rule wp_build_one [OF creates_number_new]) simp_all


section \<open>Replies carry the id of the request\<close>

lemmas value_access = builtin_type_of_def builtin_get_string_def builtin_get_number_def builtin_get_bool_def

definition reply_id :: "mcp_message option \<Rightarrow> json" where
  "reply_id req =
     (case get_key req ''id'' of
        Some (JString s) \<Rightarrow> JString s
      | Some (JNumber x) \<Rightarrow> JNumber x
      | _ \<Rightarrow> JNull)"

lemma wf_object_get: "wf_json v \<Longrightarrow> builtin_object_get (Some v) k = Some w \<Longrightarrow> wf_json w"
  by (cases v) (auto simp: builtin_object_get_def split: if_splits dest!: lookup_member_SomeD)

lemma creates_wf:
  "wf_text s \<Longrightarrow> creates True (JString s) (mcp_json_string_new (Some s))"
  "isfinite x \<Longrightarrow> creates True (JNumber x) (builtin_new_number x)"
  using creates_string_new [of s] creates_number_new [of x] by simp_all

lemma creates_copy_id:
  assumes "\<And>m. req = Some m \<Longrightarrow> wf_json (dom m)"
  shows "creates True (reply_id req) (copy_id req)"
proof (cases "get_key req ''id''")
  case None
  then show ?thesis
    by (simp add: copy_id_def reply_id_def mcp_message_id_type_def creates_leaf)
next
  case (Some v)
  then obtain m where req: "req = Some m" by (auto simp: get_key_def split: option.splits)
  have "wf_json v" using Some assms [OF req] by (auto simp: get_key_def req intro: wf_object_get)
  then show ?thesis
    using Some
    by (cases v) (auto simp: req copy_id_def reply_id_def mcp_message_id_type_def mcp_message_id_string_def
        mcp_message_id_number_def
        value_access creates_leaf creates_wf)
qed

lemma wp_response_ok_new:
  assumes "wf_json (dom req)"
  shows "wp (mcp_response_ok_new (Some req) result)
     (msg_post True (put_opt (envelope [(''id'', reply_id (Some req))]) ''result'' result) result h) h"
  unfolding mcp_response_ok_new_def some_none simp_thms if_False
  by (rule wp_build_one [OF creates_copy_id]) (use assms in simp_all)


text \<open>An error response: the caller's \<open>data\<close> is consumed as soon as it is a member of the error
  object, so NULL may come with or without it destroyed.\<close>

definition error_body :: "int \<Rightarrow> string \<Rightarrow> json option \<Rightarrow> json" where
  "error_body rpc_code message data =
     put_opt (JObject [(''code'', JNumber (double_of_int rpc_code)), (''message'', JString message)] 4) ''data'' data"

definition err_post ::
  "bool \<Rightarrow> json \<Rightarrow> json option \<Rightarrow> 'z heap_scheme \<Rightarrow> mcp_message option \<Rightarrow> 'z heap_scheme \<Rightarrow> bool" where
  "err_post good D data h r h' \<longleftrightarrow>
     (case r of
        None \<Rightarrow> (steps 0 h h' \<or> steps (- blocks_opt data) h h') \<and> (\<not> good \<or> script h \<noteq> [])
      | Some m \<Rightarrow> m = \<lparr>dom = D\<rparr> \<and> good \<and> steps (1 + blocks D - blocks_opt data) h h')"

lemma wp_err_attach:
  assumes ok: "\<And>h'. steps (blocks (envelope [(''id'', i), (''error'', e)]) - blocks (envelope [(''id'', i)]) - blocks e) h h' \<Longrightarrow>
      Q (Some \<lparr>dom = envelope [(''id'', i), (''error'', e)]\<rparr>) h'"
    and fail: "\<And>h'. script h \<noteq> [] \<Longrightarrow> steps (- 1 - blocks (envelope [(''id'', i)]) - blocks e) h h' \<Longrightarrow> Q None h'"
  shows "wp (err_attach (envelope [(''id'', i)]) e) Q h"
  unfolding err_attach_def wp_bind [of "builtin_object_set _ _ _"] envelope_def
proof (rule wp_object_set_small, goal_cases)
  case (4 h1)
  then show ?case using ok [of h1] by (simp add: envelope_def)
next
  case (5 cap' h1)
  then show ?case by (auto intro!: fail simp: mcp_message_destroy_def steps_def envelope_def)
qed simp_all

lemma wp_err_finish:
  fixes h :: "'z heap_scheme" and i c m :: json and data :: "json option"
  defines "d \<equiv> envelope [(''id'', i)]" and "err \<equiv> JObject [(''code'', c), (''message'', m)] 4"
  defines "D \<equiv> envelope [(''id'', i), (''error'', put_opt err ''data'' data)]"
  assumes ok: "\<And>h'. steps (1 + blocks D - blocks d - blocks err - blocks_opt data) h h' \<Longrightarrow> Q (Some \<lparr>dom = D\<rparr>) h'"
    and fail: "\<And>n h'. script h \<noteq> [] \<Longrightarrow> n = 0 \<or> n = blocks_opt data \<Longrightarrow>
      steps (- blocks d - blocks err - n) h h' \<Longrightarrow> Q None h'"
  shows "wp (err_finish d err data) Q h"
  unfolding err_finish_def wrap_def wp_bind wp_return
proof (rule wp_xmalloc, goal_cases)
  case (1 b h1)
  show ?case
  proof (cases b)
    case True
    have attach: "wp (err_attach d e) Q h2"
      if e: "e = put_opt err ''data'' data" and s2: "steps (blocks e - blocks err - blocks_opt data) h1 h2"
      for e and h2 :: "'z heap_scheme"
      unfolding d_def
      apply (rule wp_err_attach)
      subgoal for h3
        using s2 1 True e ok [of h3] by (simp add: steps_def D_def d_def)
      subgoal for h3
        using s2 1 True e fail [of "blocks_opt data" h3] by (auto simp: steps_def d_def)
      done
    have "wp (set_owned (Some err) ''data'' data) (\<lambda>r. wp
       (if fst r \<noteq> MCP_OK then do {
           mcp_json_destroy (snd r); mcp_message_destroy (Some \<lparr>dom = d\<rparr>); ret None
         }
         else (case snd r of None \<Rightarrow> ret None | Some err \<Rightarrow> err_attach (dom \<lparr>dom = d\<rparr>) err)) Q) h1"
    proof (cases data)
      case None
      then show ?thesis using attach [of err h1] by (simp add: set_owned_def put_opt_def)
    next
      case (Some v)
      show ?thesis unfolding Some set_owned_def err_def some_none if_False
      proof (rule wp_object_set_small, goal_cases)
        case (4 h2)
        then show ?case using attach [of "put_opt err ''data'' data" h2] by (simp add: err_def Some put_opt_def)
      next
        case (5 cap' h2)
        then show ?case using 1 True fail [of 0] by (auto simp: mcp_message_destroy_def steps_def err_def)
      qed simp_all
    qed
    with True show ?thesis by simp
  next
    case False
    with 1 show ?thesis using fail [of 0] by (auto simp: steps_def)
  qed
qed


lemma wp_err_fill:
  fixes h :: "'z heap_scheme" and i c m :: json and data :: "json option"
  defines "e \<equiv> JObject [(''code'', c), (''message'', m)] 4"
  defines "D \<equiv> envelope [(''id'', i), (''error'', put_opt e ''data'' data)]"
    and "own \<equiv> blocks (envelope []) + blocks i + 1 + blocks c + blocks m"
  assumes ok: "\<And>h'. steps (1 + blocks D - own - blocks_opt data) h h' \<Longrightarrow> Q (Some \<lparr>dom = D\<rparr>) h'"
    and fail: "\<And>n h'. script h \<noteq> [] \<Longrightarrow> n = 0 \<or> n = blocks_opt data \<Longrightarrow> steps (- own - n) h h' \<Longrightarrow> Q None h'"
  shows "wp (err_fill (Some (envelope [])) (Some i) (Some (JObject [] 0)) (Some c) (Some m) data) Q h"
  unfolding err_fill_def envelope_def wp_bind [of "builtin_object_set _ _ _"]
proof (rule wp_object_set_small, goal_cases)
  case (4 h1)
  show ?case unfolding fst_conv snd_conv simp_thms if_False wp_bind [of "builtin_object_set _ _ _"]
  proof (rule wp_object_set_small, goal_cases)
    case (4 h2)
    have "object_put (JObject [] 0) ''code'' c = JObject [(''code'', c)] 4" by (simp add: next_cap_def)
    note code = this
    show ?case unfolding fst_conv snd_conv simp_thms if_False wp_bind [of "builtin_object_set _ _ _"] code
    proof (rule wp_object_set_small, goal_cases)
      case (4 h3)
      have "wp (err_finish (envelope [(''id'', i)]) e data) Q h3"
        unfolding e_def
        apply (rule wp_err_finish)
        subgoal for h4
          using 4 \<open>steps _ h h1\<close> \<open>steps _ h1 h2\<close> ok [of h4]
          by (simp add: steps_def D_def own_def envelope_def e_def next_cap_def)
        subgoal for n h4
          using 4 \<open>steps _ h h1\<close> \<open>steps _ h1 h2\<close> fail [of n h4]
          by (auto simp: steps_def own_def envelope_def next_cap_def)
        done
      then show ?case by (simp add: envelope_def e_def)
    next
      case (5 cap' h3)
      then show ?case using \<open>steps _ h h1\<close> \<open>steps _ h1 h2\<close> fail [of 0]
        by (auto simp: steps_def own_def envelope_def next_cap_def)
    qed simp_all
  next
    case (5 cap' h2)
    then show ?case using \<open>steps _ h h1\<close> fail [of 0] by (auto simp: steps_def own_def envelope_def)
  qed simp_all
next
  case (5 cap' h1)
  then show ?case using fail [of 0] by (auto simp: steps_def own_def envelope_def)
qed simp_all


lemma wp_response_err_new:
  assumes wf: "\<And>m. req = Some m \<Longrightarrow> wf_json (dom m)" and code: "\<bar>rpc_code\<bar> \<le> 2 ^ 31"
  shows "wp (mcp_response_err_new req rpc_code (Some message) data)
     (err_post (wf_text (cstr message))
        (envelope [(''id'', reply_id req), (''error'', error_body rpc_code (cstr message) data)]) data h) h"
  unfolding mcp_response_err_new_def wp_bind some_none if_False
proof (rule wp_creates [OF creates_envelope], goal_cases)
  case (1 h1)
  note s1 = \<open>steps _ h h1\<close>
  show ?case unfolding some_none simp_thms if_True
  proof (rule wp_creates [OF creates_copy_id [OF wf]], goal_cases)
    case (2 h2)
    note s2 = \<open>steps _ h1 h2\<close>
    show ?case unfolding some_none simp_thms if_True
    proof (rule wp_creates [OF creates_leaf(4)], goal_cases)
      case (1 h3)
      note s3 = \<open>steps _ h2 h3\<close>
      have fin: "isfinite (double_of_int rpc_code)" by (rule double_of_int_exact) (use code in simp)
      show ?case unfolding some_none simp_thms if_True
      proof (rule wp_creates [OF creates_wf(2) [OF fin]], goal_cases)
        case (1 h4)
        note s4 = \<open>steps _ h3 h4\<close>
        show ?case unfolding some_none simp_thms if_True
        proof (rule wp_creates [OF creates_string_new], goal_cases)
          case (1 h5)
          show ?case unfolding some_none simp_thms if_False
            by (rule wp_err_fill)
              (use 1 s1 s2 s3 s4 in \<open>auto simp: err_post_def steps_def error_body_def\<close>)
        qed (use s1 s2 s3 s4 in \<open>auto simp: err_post_def steps_def\<close>)
      qed (use s1 s2 s3 in \<open>auto simp: err_post_def steps_def\<close>)
    qed (use s1 s2 in \<open>auto simp: err_post_def steps_def\<close>)
  qed (use s1 in \<open>auto simp: err_post_def steps_def\<close>)
qed (simp add: err_post_def)


section \<open>Messages over the wire\<close>

lemma yields_msg:
  assumes "\<And>h. wp m (msg_post True D val h) h"
  shows "yields m (Some \<lparr>dom = D\<rparr>)"
  by (rule yieldsI, rule wp_mono [OF assms]) (auto simp: msg_post_def steps_def split: option.splits)

lemma message_wire:
  assumes "wf_json D" and "is_object D" and "json_depth D \<le> MCP_JSON_MAX_DEPTH"
    and "length (print_json D) \<le> MCP_PROTOCOL_MAX_MESSAGE_BYTES"
  shows "yields (do { s \<leftarrow> mcp_message_serialize (Some \<lparr>dom = D\<rparr>); mcp_message_parse s })
     (Some \<lparr>dom = recap D\<rparr>)"
proof -
  have obj: "builtin_type_of (Some (recap D)) = MCP_JSON_OBJECT"
    using assms(2) by (cases D) (auto simp: is_object_def builtin_type_of_def)
  have "yields (do { d \<leftarrow> builtin_parse (Some (print_json D)); ret d }) (Some (recap D))"
    using builtin_parse_complete [OF utf8_valid_print(1) [OF assms(1)]]
      json_documentI [OF json_text_print [OF assms(1,3)], of "[]" "[]"] by simp
  then have "yields (builtin_parse (Some (print_json D))) (Some (recap D))" by simp
  note yields_bind [OF this, intro!]
  show ?thesis
    unfolding mcp_message_serialize_def mcp_message_parse_def wrap_def option.case
    apply (rule yields_bind [OF builtin_serialize_yields])
    using assms(4) obj by (auto intro!: yields_bind [OF yields_xmalloc] yields_rules)
qed

lemma lookup_recap:
  "lookup_member (map (\<lambda>m. (fst m, recap (snd m))) ms) k = map_option recap (lookup_member ms k)"
  by (induction ms k rule: lookup_member.induct) auto

lemma get_recap: "builtin_object_get (Some (recap d)) k = map_option recap (builtin_object_get (Some d) k)"
  by (cases d) (auto simp: builtin_object_get_def lookup_recap)

lemma get_key_recap: "get_key (Some \<lparr>dom = recap d\<rparr>) k = map_option recap (get_key (Some \<lparr>dom = d\<rparr>) k)"
  by (simp add: get_key_def get_recap)

lemma recap_leaf:
  "builtin_get_string (map_option recap v) = builtin_get_string v"
  "builtin_get_number (map_option recap v) = builtin_get_number v"
  "builtin_type_of (map_option recap v) = builtin_type_of v"
  by (cases v; (cases "the v")?; simp add: value_access)+

lemma classify_recap: "classify (recap d) = classify d"
  unfolding classify_def builtin_object_has_def get_recap
  using recap_leaf(1) [of "builtin_object_get (Some d) ''method''"]
  by (auto split: option.splits)

lemma get_key_put_opt:
  assumes "is_object d" and "utf8_valid k" and "builtin_object_get (Some d) key = None" and "utf8_valid key"
  shows "get_key (Some \<lparr>dom = put_opt d key val\<rparr>) k = (if k = key then val else get_key (Some \<lparr>dom = d\<rparr>) k)"
  using assms by (auto simp: get_key_def put_opt_def object_get_put split: option.splits)

lemma get_envelope:
  "utf8_valid k \<Longrightarrow> builtin_object_get (Some (envelope ms)) k =
     (if k = ''jsonrpc'' then Some (JString ''2.0'') else lookup_member ms k)"
  by (simp add: builtin_object_get_def envelope_def)


lemma wf_envelope:
  "wf_json (envelope ms) \<longleftrightarrow> length ms < 4 \<and> distinct (''jsonrpc'' # map fst ms) \<and>
     (\<forall>m \<in> set ms. wf_text (fst m) \<and> wf_json (snd m))"
  by (auto simp: envelope_def wf_text_def)

lemma wf_put_opt: "wf_json d \<Longrightarrow> (\<forall>v. val = Some v \<longrightarrow> wf_json v) \<Longrightarrow> wf_text key \<Longrightarrow> wf_json (put_opt d key val)"
  by (auto simp: put_opt_def split: option.splits)

lemma depth_put_opt:
  assumes "is_object d" and "0 < json_depth d" and "json_depth d \<le> n" and "\<forall>v. val = Some v \<longrightarrow> json_depth v < n"
    and "builtin_object_get (Some d) key = None" and "utf8_valid key"
  shows "json_depth (put_opt d key val) \<le> n"
  using assms by (cases d; cases val) (auto simp: put_opt_def is_object_def builtin_object_get_def Suc_le_eq)

lemma is_object_put_opt [simp]: "is_object (put_opt d key val) = is_object d"
  by (cases d; cases val) (auto simp: put_opt_def is_object_def)







lemma get_error_body:
  "utf8_valid k \<Longrightarrow> builtin_object_get (Some (error_body c m data)) k =
     (if k = ''code'' then Some (JNumber (double_of_int c)) else if k = ''message'' then Some (JString m)
      else if k = ''data'' then data else None)"
  by (auto simp: error_body_def put_opt_def object_get_put is_object_def builtin_object_get_def split: option.splits)

lemma error_body_tag: "builtin_type_of (Some (error_body c m data)) = MCP_JSON_OBJECT"
  by (simp add: error_body_def put_opt_def value_access split: option.splits)

lemma error_envelope_view:
  fixes i :: json and rpc_code :: int and t :: string and data :: "json option"
  defines "m \<equiv> \<lparr>dom = envelope [(''id'', i), (''error'', error_body rpc_code t data)]\<rparr>"
  assumes "- (2 ^ 31) \<le> rpc_code" and "rpc_code < 2 ^ 31"
  shows "mcp_message_kind (Some m) = MCP_MSG_RESPONSE" and "get_key (Some m) ''id'' = Some i"
    and "mcp_message_error_code (Some m) = Some rpc_code" and "mcp_message_error_text (Some m) = Some t"
proof -
  let ?D = "envelope [(''id'', i), (''error'', error_body rpc_code t data)]"
  have trunc: "double_trunc (double_of_int rpc_code) = rpc_code" by (rule double_of_int_exact) (use assms in simp)
  have key: "get_key (Some m) k = builtin_object_get (Some ?D) k" for k by (simp add: get_key_def m_def)
  have err: "error_obj (Some m) = Some (error_body rpc_code t data)"
    by (simp add: error_obj_def key get_envelope error_body_tag)
  show "mcp_message_kind (Some m) = MCP_MSG_RESPONSE"
    by (simp add: mcp_message_kind_def classify_def builtin_object_has_def get_envelope m_def)
  show "get_key (Some m) ''id'' = Some i" by (simp add: key get_envelope)
  show "mcp_message_error_code (Some m) = Some rpc_code"
    by (simp add: mcp_message_error_code_def err get_error_body builtin_get_number_def trunc)
  show "mcp_message_error_text (Some m) = Some t"
    by (simp add: mcp_message_error_text_def err get_error_body builtin_get_string_def)
qed



text \<open>
  C25: reading a message. When no allocation fails, \<open>mcp_message_parse\<close> returns a message if and
  only if the text is at most \<open>MCP_PROTOCOL_MAX_MESSAGE_BYTES\<close> long, valid UTF-8 and a JSON document
  whose value is an object; the message holds that value. In every case exactly its blocks
  are left allocated.
\<close>

theorem mcp_message_parse_correct:
  "case run_state (mcp_message_parse (Some t)) \<lparr>live = n, script = []\<rparr> of (r, h') \<Rightarrow>
     (\<forall>d. r = Some \<lparr>dom = d\<rparr> \<longleftrightarrow>
        length t \<le> MCP_PROTOCOL_MAX_MESSAGE_BYTES \<and> utf8_valid t \<and> json_document MCP_JSON_MAX_DEPTH t d \<and> is_object d) \<and>
     live h' = n + (case r of None \<Rightarrow> 0 | Some m \<Rightarrow> 1 + blocks (dom m))"
proof -
  let ?h = "\<lparr>live = n, script = []\<rparr>"
  obtain v h1 where p: "run_state (builtin_parse (Some t)) ?h = (v, h1)" by (metis surj_pair)
  have iff: "v = Some d \<longleftrightarrow> utf8_valid t \<and> json_document MCP_JSON_MAX_DEPTH t d" for d
    using builtin_parse_sound [of t ?h] yields_unique [OF builtin_parse_complete [of t d], of ?h] p
    by (auto simp: wp_run_state)
  have h1: "live h1 = n + blocks_opt v" "script h1 = []"
    using builtin_parse_sound [of t ?h] p by (auto simp: wp_run_state fail_post_def steps_def split: option.splits)
  have "wp (mcp_message_parse (Some t)) (\<lambda>r h'. (\<forall>d. r = Some \<lparr>dom = d\<rparr> \<longleftrightarrow>
        length t \<le> MCP_PROTOCOL_MAX_MESSAGE_BYTES \<and> v = Some d \<and> is_object d) \<and>
     live h' = n + (case r of None \<Rightarrow> 0 | Some m \<Rightarrow> 1 + blocks (dom m))) ?h"
  proof (cases "length t \<le> MCP_PROTOCOL_MAX_MESSAGE_BYTES")
    case True
    with h1 p show ?thesis
      unfolding mcp_message_parse_def wrap_def
      by (cases v) (auto simp: wp_run_state [of "builtin_parse (Some t)"] wp_xmalloc_ok is_object_def value_access)
  qed (auto simp: mcp_message_parse_def)
  then show ?thesis unfolding iff by (simp add: wp_run_state case_prod_beta)
qed

end
