(* ===== verification/Initialize.thy ===== *)
theory Initialize
  imports Message
begin

text \<open>
  The initialize handshake (\<open>src/src/protocol/initialize.c\<close>): the builders of the parameters and
  of the result, the check of received parameters, and the negotiation of the protocol
  version.
\<close>

definition MCP_PROTOCOL_VERSION_LATEST :: string where
  "MCP_PROTOCOL_VERSION_LATEST = ''2025-06-18''"

definition k_supported :: "string list" where
  "k_supported = [MCP_PROTOCOL_VERSION_LATEST, ''2024-11-05'']"

definition info_block :: "string option \<Rightarrow> string option \<Rightarrow> ('z heap_scheme, json option) state" where
  "info_block name version = do {
     info \<leftarrow> mcp_json_object_new;
     n \<leftarrow> (if info \<noteq> None then mcp_json_string_new name else ret None);
     v \<leftarrow> (if n \<noteq> None then mcp_json_string_new version else ret None);
     (case (info, n, v) of
        (Some info, Some n, Some v) \<Rightarrow> set_members info [(''name'', n), (''version'', v)]
      | _ \<Rightarrow> do { mcp_json_destroy info; mcp_json_destroy n; mcp_json_destroy v; ret None })
   }"

text \<open>The parameters and the result have the same three members but for the key of the last.\<close>

definition handshake_object ::
  "string \<Rightarrow> string option \<Rightarrow> string option \<Rightarrow> string option \<Rightarrow> ('z heap_scheme, json option) state" where
  "handshake_object info_key protocol_version name version = do {
     params \<leftarrow> mcp_json_object_new;
     pv \<leftarrow> (if params \<noteq> None then mcp_json_string_new protocol_version else ret None);
     caps \<leftarrow> (if pv \<noteq> None then mcp_json_object_new else ret None);
     ci \<leftarrow> (if caps \<noteq> None then info_block name version else ret None);
     (case (params, pv, caps, ci) of
        (Some params, Some pv, Some caps, Some ci) \<Rightarrow>
          set_members params [(''protocolVersion'', pv), (''capabilities'', caps), (info_key, ci)]
      | _ \<Rightarrow> do {
          mcp_json_destroy params; mcp_json_destroy pv; mcp_json_destroy caps; mcp_json_destroy ci;
          ret None
        })
   }"

definition mcp_initialize_params_new_v ::
  "string option \<Rightarrow> string option \<Rightarrow> string option \<Rightarrow> ('z heap_scheme, json option) state" where
  "mcp_initialize_params_new_v protocol_version client_name client_version =
     (if protocol_version = None \<or> client_name = None \<or> client_version = None then ret None
      else handshake_object ''clientInfo'' protocol_version client_name client_version)"

definition mcp_initialize_params_new ::
  "string option \<Rightarrow> string option \<Rightarrow> ('z heap_scheme, json option) state" where
  "mcp_initialize_params_new client_name client_version =
     mcp_initialize_params_new_v (Some MCP_PROTOCOL_VERSION_LATEST) client_name client_version"

definition require_string_field :: "json option \<Rightarrow> string \<Rightarrow> mcp_status" where
  "require_string_field obj key =
     (let f = mcp_json_object_get obj key
      in if f = None \<or> mcp_json_string_value f = None then MCP_ERR_INVALID_ARGUMENT else MCP_OK)"

definition mcp_initialize_params_validate :: "json option \<Rightarrow> mcp_status" where
  "mcp_initialize_params_validate params =
     (if params = None \<or> mcp_json_type params \<noteq> MCP_JSON_OBJECT then MCP_ERR_INVALID_ARGUMENT
      else if require_string_field params ''protocolVersion'' \<noteq> MCP_OK then MCP_ERR_INVALID_ARGUMENT
      else
        let caps = mcp_json_object_get params ''capabilities''
        in if caps = None \<or> mcp_json_type caps \<noteq> MCP_JSON_OBJECT then MCP_ERR_INVALID_ARGUMENT
        else
          let ci = mcp_json_object_get params ''clientInfo''
          in if ci = None \<or> mcp_json_type ci \<noteq> MCP_JSON_OBJECT then MCP_ERR_INVALID_ARGUMENT
          else if require_string_field ci ''name'' \<noteq> MCP_OK \<or> require_string_field ci ''version'' \<noteq> MCP_OK
          then MCP_ERR_INVALID_ARGUMENT
          else MCP_OK)"

definition mcp_protocol_negotiate :: "string option \<Rightarrow> string option" where
  "mcp_protocol_negotiate client_version =
     (case client_version of None \<Rightarrow> None | Some v \<Rightarrow> find (\<lambda>s. v = s) k_supported)"

definition mcp_initialize_result_new ::
  "string option \<Rightarrow> string option \<Rightarrow> ('z heap_scheme, json option) state" where
  "mcp_initialize_result_new server_name server_version =
     (if server_name = None \<or> server_version = None then ret None
      else handshake_object ''serverInfo'' (Some MCP_PROTOCOL_VERSION_LATEST) server_name server_version)"

definition mcp_initialized_notification_new :: "('z heap_scheme, mcp_message option) state" where
  "mcp_initialized_notification_new = mcp_notification_new (Some ''notifications/initialized'') None"

section \<open>What the builders build\<close>

definition info_json :: "string \<Rightarrow> string \<Rightarrow> json" where
  "info_json name version = JObject [(''name'', JString (cstr name)), (''version'', JString (cstr version))] 4"

definition handshake_json :: "string \<Rightarrow> string \<Rightarrow> string \<Rightarrow> string \<Rightarrow> json" where
  "handshake_json key pv name version =
     JObject [(''protocolVersion'', JString (cstr pv)), (''capabilities'', JObject [] 0), (key, info_json name version)] 4"

lemma creates_info_block:
  "creates (wf_text (cstr name) \<and> wf_text (cstr version)) (info_json name version) (info_block (Some name) (Some version))"
  unfolding creates_def info_block_def wp_bind
  apply (intro allI)
  apply (rule wp_creates [OF creates_leaf(4)]; (simp only: vc_simps)?)
   apply (rule wp_creates [OF creates_string_new]; (simp only: vc_simps)?)
    apply (rule wp_creates [OF creates_string_new]; (simp only: vc_simps)?)
     apply (rule wp_set_members)
  by (auto simp: steps_def info_json_def utf8_valid_ascii)

lemma creates_handshake:
  assumes "utf8_valid key" and "key \<noteq> ''protocolVersion''" and "key \<noteq> ''capabilities''"
  shows "creates (wf_text (cstr pv) \<and> wf_text (cstr name) \<and> wf_text (cstr version)) (handshake_json key pv name version)
     (handshake_object key (Some pv) (Some name) (Some version))"
  unfolding creates_def handshake_object_def wp_bind
  apply (intro allI)
  apply (rule wp_creates [OF creates_leaf(4)]; (simp only: vc_simps)?)
   apply (rule wp_creates [OF creates_string_new]; (simp only: vc_simps)?)
    apply (rule wp_creates [OF creates_leaf(4)]; (simp only: vc_simps)?)
     apply (rule wp_creates [OF creates_info_block]; (simp only: vc_simps)?)
      apply (rule wp_set_members)
  using assms by (auto simp: steps_def handshake_json_def utf8_valid_ascii)


lemma handshake_valid:
  "mcp_initialize_params_validate (Some (handshake_json ''clientInfo'' pv name version)) = MCP_OK"
  by (simp add: mcp_initialize_params_validate_def require_string_field_def handshake_json_def info_json_def
      builtin_object_get_def value_access utf8_valid_ascii)




end
