(* ===== verification/Store.thy ===== *)
theory Store
  imports Mcp_Prelude
begin

text \<open>
  The growable arrays of the library. Every table of the code (ids, tasks, skills, sessions)
  is an array with a length and a capacity that doubles when it is full. The growth step
  is modelled once here, with the interface that the tables keyed by a name or an id
  offer to their clients: adding a key that is present fails, adding a fresh one makes it
  present, and a failed allocation changes nothing.
\<close>

section \<open>Growing an array\<close>

text \<open>The capacity after making room for one more entry, or \<open>None\<close> when \<open>realloc\<close> fails.\<close>

definition grow_array :: "nat \<Rightarrow> nat \<Rightarrow> nat \<Rightarrow> ('z heap_scheme, nat option) state" where
  "grow_array init len cap =
     (if len = cap then do {
        ok \<leftarrow> xrealloc (cap \<noteq> 0);
        ret (if ok then Some (if cap = 0 then init else cap * 2) else None)
      }
      else ret (Some cap))"

definition array_blocks :: "nat \<Rightarrow> int" where
  "array_blocks cap = (if cap = 0 then 0 else 1)"

lemma wp_grow_array:
  assumes "len \<le> cap" and "0 < init"
    and "\<And>cap' h'. len < cap' \<Longrightarrow> cap \<le> cap' \<Longrightarrow> steps (array_blocks cap' - array_blocks cap) h h' \<Longrightarrow>
      Q (Some cap') h'"
    and "\<And>h'. script h \<noteq> [] \<Longrightarrow> steps 0 h h' \<Longrightarrow> Q None h'"
  shows "wp (grow_array init len cap) Q h"
proof (cases "len = cap")
  case True
  have "wp (xrealloc (cap \<noteq> 0)) (\<lambda>ok. Q (if ok then Some (if cap = 0 then init else cap * 2) else None)) h"
    apply (rule wp_xrealloc)
    subgoal for ok h'
      using True assms(2) assms(3) [of "if cap = 0 then init else cap * 2" h'] assms(4) [of h']
      by (auto simp: array_blocks_def split: if_splits)
    done
  with True show ?thesis by (simp add: grow_array_def)
next
  case False
  with assms(1) assms(3) [of cap h] show ?thesis by (simp add: grow_array_def)
qed

section \<open>Searching an array\<close>

text \<open>The loops that return the first entry with a property.\<close>

fun first_index :: "('a \<Rightarrow> bool) \<Rightarrow> 'a list \<Rightarrow> nat option" where
  "first_index P [] = None"
| "first_index P (x # xs) = (if P x then Some 0 else map_option Suc (first_index P xs))"

lemma first_index_None: "first_index P xs = None \<longleftrightarrow> (\<forall>x \<in> set xs. \<not> P x)"
  by (induction xs) auto

lemma first_index_SomeD: "first_index P xs = Some i \<Longrightarrow> i < length xs \<and> P (xs ! i)"
  by (induction xs arbitrary: i) (auto split: if_splits)

text \<open>An array read as a map from the keys of its entries.\<close>

definition table_of :: "('a \<Rightarrow> 'k) \<Rightarrow> 'a list \<Rightarrow> 'k \<Rightarrow> 'a option" where
  "table_of key xs = map_of (map (\<lambda>x. (key x, x)) xs)"

lemma table_of_first_index:
  "map_option (\<lambda>i. xs ! i) (first_index (\<lambda>x. key x = k) xs) = table_of key xs k"
  by (induction xs) (auto simp: table_of_def option.map_comp comp_def)

lemma table_of_append:
  "key x \<notin> key ` set xs \<Longrightarrow> table_of key (xs @ [x]) = (table_of key xs)(key x \<mapsto> x)"
  by (induction xs) (auto simp: table_of_def fun_upd_twist)

lemma table_of_update:
  "distinct (map key xs) \<Longrightarrow> i < length xs \<Longrightarrow> key y = key (xs ! i) \<Longrightarrow>
   table_of key (xs[i := y]) = (table_of key xs)(key y \<mapsto> y)"
proof (induction xs arbitrary: i)
  case (Cons x xs)
  show ?case
  proof (cases i)
    case (Suc j)
    with Cons.prems have "key y \<noteq> key x" by (auto simp: image_iff) (metis nth_mem)
    with Suc Cons show ?thesis by (auto simp: table_of_def fun_upd_twist)
  qed (use Cons.prems in \<open>simp add: table_of_def fun_eq_iff\<close>)
qed simp

lemma keys_update: "i < length xs \<Longrightarrow> key y = key (xs ! i) \<Longrightarrow> map key (xs[i := y]) = map key xs"
  by (metis list_update_id map_update nth_map)

lemma table_of_SomeD: "table_of key xs k = Some x \<Longrightarrow> x \<in> set xs \<and> key x = k"
  by (auto simp: table_of_def dest!: map_of_SomeD)

lemma table_of_None: "table_of key xs k = None \<longleftrightarrow> k \<notin> key ` set xs"
  by (auto simp: table_of_def map_of_eq_None_iff image_iff)

section \<open>Tables with keys\<close>

text \<open>Adding a list of entries one after the other, with the status of each.\<close>

fun add_all ::
  "('a \<Rightarrow> 's \<Rightarrow> ('z heap_scheme, mcp_status \<times> 's) state) \<Rightarrow> 'a list \<Rightarrow> 's \<Rightarrow>
   ('z heap_scheme, mcp_status list \<times> 's) state" where
  "add_all add [] s = ret ([], s)"
| "add_all add (a # as) s = do {
     r \<leftarrow> add a s;
     rs \<leftarrow> add_all add as (snd r);
     ret (fst r # fst rs, snd rs)
   }"

text \<open>What a table promises: \<open>entries\<close> reads it as a finite map.\<close>

locale keyed_store =
  fixes invar :: "'s \<Rightarrow> bool" and entries :: "'s \<Rightarrow> 'k \<Rightarrow> 'v option"
    and add :: "'a \<Rightarrow> 's \<Rightarrow> ('z heap_scheme, mcp_status \<times> 's) state"
    and key :: "'a \<Rightarrow> 'k" and entry :: "'a \<Rightarrow> 'v" and admissible :: "'a \<Rightarrow> bool"
  assumes add_present: "invar s \<Longrightarrow> admissible a \<Longrightarrow> entries s (key a) \<noteq> None \<Longrightarrow>
      add a s = ret (MCP_ERR_ALREADY_EXISTS, s)"
    and add_fresh: "invar s \<Longrightarrow> admissible a \<Longrightarrow> entries s (key a) = None \<Longrightarrow>
      wp (add a s) (\<lambda>r h'. invar (snd r) \<and> (script h = [] \<longrightarrow> script h' = []) \<and>
        (if fst r = MCP_OK then entries (snd r) = (entries s)(key a \<mapsto> entry a)
         else fst r = MCP_ERR_NOMEM \<and> script h \<noteq> [] \<and> entries (snd r) = entries s)) h"
begin

lemma add_result:
  assumes "invar s" and "admissible a"
  shows "wp (add a s) (\<lambda>r h'. invar (snd r) \<and> (script h = [] \<longrightarrow> script h' = []) \<and>
     fst r \<in> {MCP_OK, MCP_ERR_ALREADY_EXISTS, MCP_ERR_NOMEM} \<and>
     (fst r = MCP_ERR_ALREADY_EXISTS \<longleftrightarrow> entries s (key a) \<noteq> None) \<and>
     entries (snd r) = (if fst r = MCP_OK then (entries s)(key a \<mapsto> entry a) else entries s)) h"
proof (cases "entries s (key a)")
  case None
  show ?thesis by (rule wp_mono [OF add_fresh [OF assms None]]) (auto simp: None split: if_splits)
next
  case (Some v)
  then show ?thesis using add_present [OF assms] assms(1) by simp
qed

text \<open>No table ever loses or changes an entry by an addition.\<close>

lemma add_all_keeps:
  assumes "invar s" and "\<forall>a \<in> set as. admissible a"
  shows "wp (add_all add as s) (\<lambda>r h'. invar (snd r) \<and> entries s \<subseteq>\<^sub>m entries (snd r) \<and> length (fst r) = length as) h"
  using assms
proof (induction as arbitrary: s h)
  case (Cons a as s h)
  show ?case unfolding add_all.simps wp_bind wp_return
  proof (rule wp_mono [OF add_result])
    fix r and h1 :: "'z heap_scheme"
    assume r: "invar (snd r) \<and> (script h = [] \<longrightarrow> script h1 = []) \<and>
       fst r \<in> {MCP_OK, MCP_ERR_ALREADY_EXISTS, MCP_ERR_NOMEM} \<and>
       (fst r = MCP_ERR_ALREADY_EXISTS \<longleftrightarrow> entries s (key a) \<noteq> None) \<and>
       entries (snd r) = (if fst r = MCP_OK then (entries s)(key a \<mapsto> entry a) else entries s)"
    have step: "entries s \<subseteq>\<^sub>m entries (snd r)"
      using r by (cases "entries s (key a)") (auto simp: map_le_def)
    show "wp (add_all add as (snd r)) (\<lambda>rs h'. invar (snd (fst r # fst rs, snd rs)) \<and>
        entries s \<subseteq>\<^sub>m entries (snd (fst r # fst rs, snd rs)) \<and> length (fst (fst r # fst rs, snd rs)) = length (a # as)) h1"
      by (rule wp_mono [OF Cons.IH]) (use r step Cons.prems in \<open>auto intro: map_le_trans\<close>)
  qed (use Cons.prems in simp_all)
qed simp

text \<open>With no failing allocation, exactly the entries with a fresh key are accepted.\<close>

lemma add_all_accepts:
  assumes "invar s" and "\<forall>a \<in> set as. admissible a" and "script h = []"
  shows "wp (add_all add as s) (\<lambda>r h'. invar (snd r) \<and>
     (\<forall>i < length as. fst r ! i = (if entries s (key (as ! i)) \<noteq> None \<or> key (as ! i) \<in> (\<lambda>a. key a) ` set (take i as)
        then MCP_ERR_ALREADY_EXISTS else MCP_OK)) \<and>
     dom (entries (snd r)) = dom (entries s) \<union> key ` set as) h"
  using assms
proof (induction as arbitrary: s h)
  case (Cons a as s h)
  show ?case unfolding add_all.simps wp_bind wp_return
  proof (cases "entries s (key a)")
    case None
    show "wp (add a s) (\<lambda>r. wp (add_all add as (snd r)) (\<lambda>rs h'. invar (snd (fst r # fst rs, snd rs)) \<and>
     (\<forall>i < length (a # as). fst (fst r # fst rs, snd rs) ! i =
        (if entries s (key ((a # as) ! i)) \<noteq> None \<or> key ((a # as) ! i) \<in> (\<lambda>a. key a) ` set (take i (a # as))
        then MCP_ERR_ALREADY_EXISTS else MCP_OK)) \<and>
     dom (entries (snd (fst r # fst rs, snd rs))) = dom (entries s) \<union> key ` set (a # as))) h"
    proof (rule wp_mono [OF add_fresh [OF _ _ None, of h]], goal_cases)
      case (3 r h1)
      then have r: "invar (snd r)" "fst r = MCP_OK" "script h1 = []" "entries (snd r) = (entries s)(key a \<mapsto> entry a)"
        using Cons.prems(3) by (auto split: if_splits)
      show ?case
        by (rule wp_mono [OF Cons.IH]) (use r Cons.prems None in \<open>auto simp: nth_Cons' less_Suc_eq_0_disj take_Cons'\<close>)
    qed (use Cons.prems in simp_all)
  next
    case (Some v)
    then have "add a s = ret (MCP_ERR_ALREADY_EXISTS, s)" using Cons.prems by (intro add_present) auto
    then show "wp (add a s) (\<lambda>r. wp (add_all add as (snd r)) (\<lambda>rs h'. invar (snd (fst r # fst rs, snd rs)) \<and>
     (\<forall>i < length (a # as). fst (fst r # fst rs, snd rs) ! i =
        (if entries s (key ((a # as) ! i)) \<noteq> None \<or> key ((a # as) ! i) \<in> (\<lambda>a. key a) ` set (take i (a # as))
        then MCP_ERR_ALREADY_EXISTS else MCP_OK)) \<and>
     dom (entries (snd (fst r # fst rs, snd rs))) = dom (entries s) \<union> key ` set (a # as))) h"
      apply simp
      apply (rule wp_mono [OF Cons.IH])
      using Cons.prems Some by (auto simp: nth_Cons' less_Suc_eq_0_disj take_Cons')
  qed
qed simp

end

end
