(* ===== verification/Validate.thy ===== *)
theory Validate
  imports Initialize Store
begin

text \<open>
  Validation of messages (\<open>src/src/protocol/validate.c\<close>, \<open>src/src/method_table.h\<close>): the set of
  request ids in use, the table of known methods, and the three levels of checks a message
  passes before it is dispatched. The out-parameter of the checks is the second component of
  their result.
\<close>

section \<open>The set of ids\<close>

record id_entry =
  ent_type :: id_type
  ent_s :: "string option"
  ent_n :: double

record mcp_idset =
  ids_items :: "id_entry list"
  ids_cap :: nat

definition mcp_idset_create :: "('z heap_scheme, mcp_idset option) state" where
  "mcp_idset_create = do {
     ok \<leftarrow> xmalloc;
     ret (if ok then Some \<lparr>ids_items = [], ids_cap = 0\<rparr> else None)
   }"

fun free_entries :: "id_entry list \<Rightarrow> ('z heap_scheme, unit) state" where
  "free_entries [] = ret ()"
| "free_entries (e # es) = do { xfree (ent_s e \<noteq> None); free_entries es }"

definition mcp_idset_destroy :: "mcp_idset option \<Rightarrow> ('z heap_scheme, unit) state" where
  "mcp_idset_destroy ids =
     (case ids of
        None \<Rightarrow> ret ()
      | Some ids \<Rightarrow> do { free_entries (ids_items ids); xfree (ids_cap ids \<noteq> 0); xfree True })"

definition id_equal :: "id_entry \<Rightarrow> id_type \<Rightarrow> string option \<Rightarrow> double \<Rightarrow> bool" where
  "id_equal e type s n \<longleftrightarrow>
     (if ent_type e \<noteq> type then False
      else if type = MCP_ID_STRING then s \<noteq> None \<and> ent_s e \<noteq> None \<and> ent_s e = s
      else if type = MCP_ID_NUMBER then deq (ent_n e) n
      else False)"

definition id_find :: "mcp_idset \<Rightarrow> id_type \<Rightarrow> string option \<Rightarrow> double \<Rightarrow> nat option" where
  "id_find ids type s n = first_index (\<lambda>e. id_equal e type s n) (ids_items ids)"

definition mcp_idset_add ::
  "mcp_idset option \<Rightarrow> id_type \<Rightarrow> string option \<Rightarrow> double \<Rightarrow> ('z heap_scheme, mcp_status \<times> mcp_idset option) state" where
  "mcp_idset_add ids type s n =
     (case ids of
        None \<Rightarrow> ret (MCP_ERR_INVALID_ARGUMENT, None)
      | Some st \<Rightarrow>
          if (type \<noteq> MCP_ID_STRING \<and> type \<noteq> MCP_ID_NUMBER) \<or> (type = MCP_ID_STRING \<and> s = None)
          then ret (MCP_ERR_INVALID_ARGUMENT, Some st)
          else if id_find st type s n \<noteq> None then ret (MCP_ERR_ALREADY_EXISTS, Some st)
          else do {
            g \<leftarrow> grow_array 8 (length (ids_items st)) (ids_cap st);
            (case g of
               None \<Rightarrow> ret (MCP_ERR_NOMEM, Some st)
             | Some ncap \<Rightarrow>
                 let st = st\<lparr>ids_cap := ncap\<rparr>;
                     e = \<lparr>ent_type = type, ent_s = (if type = MCP_ID_STRING then s else None), ent_n = n\<rparr>;
                     st' = st\<lparr>ids_items := ids_items st @ [e]\<rparr>
                 in if type = MCP_ID_STRING then do {
                      ok \<leftarrow> xmalloc;
                      ret (if ok then (MCP_OK, Some st') else (MCP_ERR_NOMEM, Some st))
                    }
                    else ret (MCP_OK, Some st'))
          })"

definition mcp_idset_remove ::
  "mcp_idset option \<Rightarrow> id_type \<Rightarrow> string option \<Rightarrow> double \<Rightarrow> ('z heap_scheme, mcp_idset option) state" where
  "mcp_idset_remove ids type s n =
     (case ids of
        None \<Rightarrow> ret None
      | Some st \<Rightarrow>
          (case id_find st type s n of
             None \<Rightarrow> ret (Some st)
           | Some idx \<Rightarrow> do {
               xfree (ent_s (ids_items st ! idx) \<noteq> None);
               ret (Some (st\<lparr>ids_items := take idx (ids_items st) @ drop (Suc idx) (ids_items st)\<rparr>))
             }))"

definition mcp_idset_contains :: "mcp_idset option \<Rightarrow> id_type \<Rightarrow> string option \<Rightarrow> double \<Rightarrow> bool" where
  "mcp_idset_contains ids type s n =
     (case ids of None \<Rightarrow> False | Some st \<Rightarrow> id_find st type s n \<noteq> None)"

section \<open>Known methods\<close>

definition k_mcp_server_methods :: "string list" where
  "k_mcp_server_methods =
     [''initialize'', ''ping'', ''tools/list'', ''tools/call'', ''resources/list'', ''resources/read'',
      ''prompts/list'', ''prompts/get'', ''completion/list'', ''completion/complete'',
      ''notifications/initialized'', ''logging/setLevel'', ''resources/subscribe'',
      ''resources/unsubscribe'', ''resources/templates/list'', ''server/discover'',
      ''subscriptions/listen'', ''tasks/get'', ''tasks/update'', ''tasks/cancel'', ''skills/list'',
      ''skills/get'']"

definition k_mcp_server_notifications :: "string list" where
  "k_mcp_server_notifications =
     [''notifications/initialized'', ''notifications/cancelled'', ''notifications/progress'',
      ''notifications/tools/list_changed'', ''notifications/resources/list_changed'',
      ''notifications/resources/updated'', ''notifications/prompts/list_changed'',
      ''notifications/message'', ''notifications/roots/list_changed'',
      ''notifications/subscriptions/acknowledged'', ''notifications/tasks'']"

definition k_l2_only_methods :: "string list" where
  "k_l2_only_methods = [''roots/list'', ''sampling/createMessage'', ''elicitation/create'']"

definition mcp_method_known :: "string option \<Rightarrow> bool" where
  "mcp_method_known method =
     (case method of
        None \<Rightarrow> False
      | Some m \<Rightarrow> m \<in> set k_mcp_server_methods \<or> m \<in> set k_l2_only_methods \<or> m \<in> set k_mcp_server_notifications)"

section \<open>The three levels\<close>

definition mcp_validate_envelope :: "mcp_message option \<Rightarrow> mcp_status \<times> int" where
  "mcp_validate_envelope msg =
     (if msg = None then (MCP_ERR_PROTOCOL, MCP_RPC_INVALID_REQUEST)
      else
        let kind = mcp_message_kind msg; jr = mcp_message_jsonrpc msg
        in if jr \<noteq> Some ''2.0'' then (MCP_ERR_PROTOCOL, MCP_RPC_INVALID_REQUEST)
        else (case kind of
            MCP_MSG_REQUEST \<Rightarrow>
              let idt = mcp_message_id_type msg; method = mcp_message_method msg
              in if (idt \<noteq> MCP_ID_STRING \<and> idt \<noteq> MCP_ID_NUMBER) \<or> method = None
                 then (MCP_ERR_PROTOCOL, MCP_RPC_INVALID_REQUEST)
                 else (MCP_OK, 0)
          | MCP_MSG_NOTIFICATION \<Rightarrow>
              if mcp_message_method msg = None then (MCP_ERR_PROTOCOL, MCP_RPC_INVALID_REQUEST)
              else (MCP_OK, 0)
          | MCP_MSG_RESPONSE \<Rightarrow>
              let has_result = mcp_message_result msg \<noteq> None;
                  has_error = mcp_message_error_code msg \<noteq> None;
                  error_ok = (\<not> has_error \<or> mcp_message_error_text msg \<noteq> None)
              in if has_result = has_error \<or> \<not> error_ok
                 then (MCP_ERR_PROTOCOL, MCP_RPC_INVALID_REQUEST)
                 else (MCP_OK, 0)
          | MCP_MSG_INVALID \<Rightarrow> (MCP_ERR_PROTOCOL, MCP_RPC_INVALID_REQUEST)))"

definition mcp_validate_method :: "mcp_message option \<Rightarrow> mcp_status \<times> int" where
  "mcp_validate_method msg =
     (if mcp_message_kind msg = MCP_MSG_RESPONSE then (MCP_OK, 0)
      else
        let method = mcp_message_method msg
        in if method = None \<or> \<not> mcp_method_known method then (MCP_ERR_NOT_FOUND, MCP_RPC_METHOD_NOT_FOUND)
           else (MCP_OK, 0))"

definition require_string_param :: "json option \<Rightarrow> string \<Rightarrow> mcp_status" where
  "require_string_param params key =
     (let f = mcp_json_object_get params key
      in if f = None \<or> mcp_json_string_value f = None then MCP_ERR_INVALID_ARGUMENT else MCP_OK)"

text \<open>The checks of \<open>mcp_validate_params\<close> on parameters that are an object, and the methods that
  must have parameters.\<close>

definition object_of_type :: "json option \<Rightarrow> bool" where
  "object_of_type v \<longleftrightarrow> v \<noteq> None \<and> mcp_json_type v = MCP_JSON_OBJECT"

definition nonempty_string :: "json option \<Rightarrow> bool" where
  "nonempty_string v = (case mcp_json_string_value v of None \<Rightarrow> False | Some s \<Rightarrow> s \<noteq> [])"

definition params_ok :: "string \<Rightarrow> json option \<Rightarrow> bool" where
  "params_ok method params =
     (if method = ''initialize'' then mcp_initialize_params_validate params = MCP_OK
      else if method = ''tools/call'' then require_string_param params ''name'' = MCP_OK
      else if method = ''resources/read'' then require_string_param params ''uri'' = MCP_OK
      else if method = ''prompts/get'' then require_string_param params ''name'' = MCP_OK
      else if method = ''completion/complete'' then
        object_of_type (mcp_json_object_get params ''ref'') \<and> object_of_type (mcp_json_object_get params ''argument'')
      else if method = ''logging/setLevel'' then require_string_param params ''level'' = MCP_OK
      else if method = ''resources/subscribe'' \<or> method = ''resources/unsubscribe'' then
        require_string_param params ''uri'' = MCP_OK
      else if method = ''subscriptions/listen'' then
        let notifs = mcp_json_object_get params ''notifications''
        in notifs = None \<or> mcp_json_type notifs = MCP_JSON_OBJECT
      else if method = ''tasks/get'' \<or> method = ''tasks/update'' \<or> method = ''tasks/cancel'' then
        require_string_param params ''taskId'' = MCP_OK
      else if method = ''skills/get'' then
        nonempty_string (mcp_json_object_get params ''name'') \<or> nonempty_string (mcp_json_object_get params ''uri'')
      else True)"

definition needs_params :: "string list" where
  "needs_params =
     [''initialize'', ''tools/call'', ''resources/read'', ''prompts/get'', ''completion/complete'',
      ''subscriptions/listen'', ''tasks/get'', ''tasks/update'', ''tasks/cancel'', ''skills/get'']"

definition mcp_validate_params :: "mcp_message option \<Rightarrow> mcp_status \<times> int" where
  "mcp_validate_params msg =
     (if mcp_message_kind msg = MCP_MSG_RESPONSE then (MCP_OK, 0)
      else (case mcp_message_method msg of
          None \<Rightarrow> (MCP_ERR_INVALID_ARGUMENT, MCP_RPC_INVALID_PARAMS)
        | Some method \<Rightarrow>
            (case mcp_message_params msg of
               None \<Rightarrow>
                 if mcp_message_kind msg = MCP_MSG_NOTIFICATION then (MCP_OK, 0)
                 else if method \<in> set needs_params then (MCP_ERR_INVALID_ARGUMENT, MCP_RPC_INVALID_PARAMS)
                 else (MCP_OK, 0)
             | Some params \<Rightarrow>
                 if mcp_json_type (Some params) \<noteq> MCP_JSON_OBJECT
                 then (MCP_ERR_INVALID_ARGUMENT, MCP_RPC_INVALID_PARAMS)
                 else if params_ok method (Some params) then (MCP_OK, 0)
                 else (MCP_ERR_INVALID_ARGUMENT, MCP_RPC_INVALID_PARAMS))))"

definition mcp_message_validate :: "mcp_message option \<Rightarrow> mcp_status \<times> int" where
  "mcp_message_validate msg =
     (let st = mcp_validate_envelope msg
      in if fst st \<noteq> MCP_OK then st
      else let st = mcp_validate_method msg
      in if fst st \<noteq> MCP_OK then st
      else mcp_validate_params msg)"


section \<open>The id set is a set of ids\<close>

text \<open>Ids as the protocol has them: strings and numbers are different ids, and two numbers are
  the same id when they are equal.\<close>

datatype rpc_id = Id_string string | Id_number real

type_synonym id_arg = "id_type \<times> string option \<times> double"

fun id_of :: "id_arg \<Rightarrow> rpc_id" where
  "id_of (type, s, n) = (if type = MCP_ID_STRING then Id_string (the s) else Id_number (double_real n))"

fun id_admissible :: "id_arg \<Rightarrow> bool" where
  "id_admissible (type, s, n) \<longleftrightarrow>
     type = MCP_ID_STRING \<and> s \<noteq> None \<or> type = MCP_ID_NUMBER \<and> isfinite n"

definition entry_id :: "id_entry \<Rightarrow> rpc_id" where
  "entry_id e = id_of (ent_type e, ent_s e, ent_n e)"

definition ids_invar :: "mcp_idset \<Rightarrow> bool" where
  "ids_invar ids \<longleftrightarrow> length (ids_items ids) \<le> ids_cap ids \<and> distinct (map entry_id (ids_items ids)) \<and>
     (\<forall>e \<in> set (ids_items ids). id_admissible (ent_type e, ent_s e, ent_n e) \<and>
        (ent_type e = MCP_ID_NUMBER \<longrightarrow> ent_s e = None))"

definition ids_abs :: "mcp_idset \<Rightarrow> rpc_id set" where
  "ids_abs ids = entry_id ` set (ids_items ids)"

definition ids_entries :: "mcp_idset \<Rightarrow> rpc_id \<Rightarrow> unit option" where
  "ids_entries ids i = (if i \<in> ids_abs ids then Some () else None)"

fun ids_add :: "id_arg \<Rightarrow> mcp_idset \<Rightarrow> ('z heap_scheme, mcp_status \<times> mcp_idset) state" where
  "ids_add (type, s, n) ids = do {
     r \<leftarrow> mcp_idset_add (Some ids) type s n;
     ret (fst r, case snd r of None \<Rightarrow> ids | Some ids' \<Rightarrow> ids')
   }"

lemma id_equal_iff:
  assumes "id_admissible (type, s, n)" and "id_admissible (ent_type e, ent_s e, ent_n e)"
  shows "id_equal e type s n \<longleftrightarrow> entry_id e = id_of (type, s, n)"
  using assms by (auto simp: id_equal_def entry_id_def deq_real)

lemma id_find_iff:
  assumes "ids_invar ids" and "id_admissible (type, s, n)"
  shows "id_find ids type s n \<noteq> None \<longleftrightarrow> id_of (type, s, n) \<in> ids_abs ids"
proof -
  have "id_equal e type s n \<longleftrightarrow> entry_id e = id_of (type, s, n)" if "e \<in> set (ids_items ids)" for e
    by (rule id_equal_iff [OF assms(2)]) (use assms(1) that in \<open>simp add: ids_invar_def\<close>)
  then have "(\<exists>e \<in> set (ids_items ids). id_equal e type s n) \<longleftrightarrow> id_of (type, s, n) \<in> ids_abs ids"
    unfolding ids_abs_def image_iff by (metis (mono_tags))
  then show ?thesis by (metis (no_types) first_index_None id_find_def)
qed

lemma ids_add_present:
  assumes "ids_invar ids" and "id_admissible a" and "ids_entries ids (id_of a) \<noteq> None"
  shows "ids_add a ids = ret (MCP_ERR_ALREADY_EXISTS, ids)"
proof -
  obtain type s n where a: "a = (type, s, n)" by (cases a)
  have "id_find ids type s n \<noteq> None"
    using id_find_iff [OF assms(1,2) [unfolded a]] assms(3)
    by (simp add: a ids_entries_def split: if_splits del: id_of.simps)
  with assms(2) show ?thesis by (auto simp: a mcp_idset_add_def)
qed

lemma ids_invar_add:
  assumes "ids_invar ids" and "length (ids_items ids) < ncap" and "id_admissible (type, s, n)"
    and "id_of (type, s, n) \<notin> ids_abs ids"
    and "e = \<lparr>ent_type = type, ent_s = (if type = MCP_ID_STRING then s else None), ent_n = n\<rparr>"
  shows "ids_invar (ids\<lparr>ids_cap := ncap, ids_items := ids_items ids @ [e]\<rparr>)"
    and "ids_abs (ids\<lparr>ids_cap := ncap, ids_items := ids_items ids @ [e]\<rparr>) = insert (id_of (type, s, n)) (ids_abs ids)"
  using assms by (auto simp: ids_invar_def ids_abs_def entry_id_def)

lemma ids_add_fresh:
  assumes "ids_invar ids" and "id_admissible a" and "ids_entries ids (id_of a) = None"
  shows "wp (ids_add a ids) (\<lambda>r h'. ids_invar (snd r) \<and> (script h = [] \<longrightarrow> script h' = []) \<and>
     (if fst r = MCP_OK then ids_entries (snd r) = (ids_entries ids)(id_of a \<mapsto> ())
      else fst r = MCP_ERR_NOMEM \<and> script h \<noteq> [] \<and> ids_entries (snd r) = ids_entries ids)) h"
proof -
  obtain type s n where a: "a = (type, s, n)" by (cases a)
  have fresh: "id_of (type, s, n) \<notin> ids_abs ids" using assms(3) by (simp add: a ids_entries_def split: if_splits)
  then have find: "id_find ids type s n = None" using id_find_iff [OF assms(1,2) [unfolded a]] by simp
  have bad: "\<not> ((type \<noteq> MCP_ID_STRING \<and> type \<noteq> MCP_ID_NUMBER) \<or> type = MCP_ID_STRING \<and> s = None)"
    using assms(2) by (auto simp: a)
  show ?thesis
    unfolding a ids_add.simps mcp_idset_add_def wp_bind option.case if_not_P [OF bad] find simp_thms if_False wp_return
  proof (rule wp_grow_array, goal_cases)
    case (3 ncap h1)
    note inv = ids_invar_add [OF assms(1) 3(1) assms(2) [unfolded a] fresh refl]
    show ?case
    proof (cases "type = MCP_ID_STRING")
      case True
      show ?thesis unfolding option.case Let_def if_P [OF True] wp_bind
        apply (rule wp_xmalloc)
        using inv 3 True assms(1) by (auto simp: steps_def ids_entries_def fun_eq_iff ids_invar_def ids_abs_def)
    next
      case False
      with inv 3 show ?thesis by (auto simp: Let_def steps_def ids_entries_def fun_eq_iff)
    qed
  qed (use assms(1) in \<open>auto simp: ids_invar_def steps_def\<close>)
qed

interpretation ids: keyed_store ids_invar ids_entries ids_add id_of "\<lambda>_. ()" id_admissible
  by unfold_locales (rule ids_add_present ids_add_fresh; assumption)+


definition ids_blocks :: "mcp_idset \<Rightarrow> int" where
  "ids_blocks ids = 1 + array_blocks (ids_cap ids) + int (length (filter (\<lambda>e. ent_s e \<noteq> None) (ids_items ids)))"

lemma wp_free_entries:
  "wp (free_entries es) Q h = Q () (h\<lparr>live := live h - int (length (filter (\<lambda>e. ent_s e \<noteq> None) es))\<rparr>)"
  by (induction es arbitrary: h) (simp_all add: wp_xfree diff_diff_eq)

lemma wp_idset_destroy: "wp (mcp_idset_destroy (Some ids)) Q h = Q () (h\<lparr>live := live h - ids_blocks ids\<rparr>)"
  by (auto simp: mcp_idset_destroy_def wp_free_entries wp_xfree ids_blocks_def array_blocks_def algebra_simps)

lemma wp_idset_add_blocks:
  assumes "ids_invar ids"
  shows "wp (mcp_idset_add (Some ids) type s n)
     (\<lambda>r h'. \<exists>ids'. snd r = Some ids' \<and> steps (ids_blocks ids' - ids_blocks ids) h h') h"
proof (cases "(type \<noteq> MCP_ID_STRING \<and> type \<noteq> MCP_ID_NUMBER) \<or> type = MCP_ID_STRING \<and> s = None")
  case True
  then show ?thesis by (auto simp: mcp_idset_add_def)
next
  case bad: False
  show ?thesis
  proof (cases "id_find ids type s n")
    case None
    show ?thesis
      unfolding mcp_idset_add_def wp_bind option.case if_not_P [OF bad] None simp_thms if_False wp_return
    proof (rule wp_grow_array, goal_cases)
      case (3 ncap h1)
      show ?case
      proof (cases "type = MCP_ID_STRING")
        case True
        show ?thesis unfolding option.case Let_def if_P [OF True] wp_bind
          apply (rule wp_xmalloc)
          using 3 True bad by (auto simp: steps_def ids_blocks_def)
      qed (use 3 in \<open>simp add: Let_def steps_def ids_blocks_def\<close>)
    qed (use assms in \<open>auto simp: ids_invar_def\<close>)
  next
    case (Some i)
    with bad show ?thesis by (auto simp: mcp_idset_add_def)
  qed
qed

lemma image_delete:
  "distinct (map f (xs @ x # ys)) \<Longrightarrow> f ` set (xs @ ys) = f ` set (xs @ x # ys) - {f x}"
  by (auto simp: image_iff)

lemma idset_remove_spec:
  assumes "ids_invar ids" and "id_admissible (type, s, n)"
  shows "wp (mcp_idset_remove (Some ids) type s n) (\<lambda>r h'. \<exists>ids'. r = Some ids' \<and> ids_invar ids' \<and>
     ids_abs ids' = ids_abs ids - {id_of (type, s, n)} \<and> steps (ids_blocks ids' - ids_blocks ids) h h') h"
proof (cases "id_find ids type s n")
  case None
  then have "id_of (type, s, n) \<notin> ids_abs ids" using id_find_iff [OF assms] by simp
  with None assms(1) show ?thesis by (simp add: mcp_idset_remove_def del: id_of.simps)
next
  case (Some i)
  define xs where "xs = ids_items ids"
  have i: "i < length xs" "id_equal (xs ! i) type s n"
    using Some first_index_SomeD [of "\<lambda>e. id_equal e type s n" xs i] by (simp_all add: id_find_def xs_def)
  have k: "entry_id (xs ! i) = id_of (type, s, n)"
    using id_equal_iff [OF assms(2), of "xs ! i"] i assms(1) by (simp add: ids_invar_def xs_def)
  have split: "xs = take i xs @ xs ! i # drop (Suc i) xs" using i(1) by (rule id_take_nth_drop)
  have inv: "distinct (map entry_id (take i xs @ xs ! i # drop (Suc i) xs))"
    using assms(1) split by (simp add: ids_invar_def xs_def)
  have sub: "set (take i xs @ drop (Suc i) xs) \<subseteq> set xs" by (auto dest: in_set_takeD in_set_dropD)
  let ?ids = "ids\<lparr>ids_items := take i xs @ drop (Suc i) xs\<rparr>"
  have "ids_invar ?ids" using assms(1) inv sub i(1) by (auto simp: ids_invar_def xs_def)
  moreover have "ids_abs ?ids = ids_abs ids - {id_of (type, s, n)}"
    using image_delete [OF inv] split k by (simp add: ids_abs_def flip: xs_def del: id_of.simps)
  moreover have "length (filter P xs) = length (filter P (take i xs @ drop (Suc i) xs)) + (if P (xs ! i) then 1 else 0)" for P
    by (subst split) simp
  then have "ids_blocks ids = ids_blocks ?ids + (if ent_s (xs ! i) \<noteq> None then 1 else 0)"
    by (simp add: ids_blocks_def flip: xs_def)
  ultimately show ?thesis using Some by (auto simp: mcp_idset_remove_def wp_xfree steps_def xs_def)
qed

section \<open>Properties of validation\<close>

text \<open>
  C16: the id set is a finite set. On a well-formed set and an admissible id, \<open>mcp_idset_contains\<close>
  is membership, \<open>mcp_idset_remove\<close> is removal and \<open>mcp_idset_add\<close> is insertion of a new
  member, where a string is never the same id as a number; a present id is refused and a
  failed allocation changes nothing. The blocks are accounted for, also on failure.
\<close>

theorem idset_is_a_set:
  assumes "ids_invar ids" and "id_admissible (type, s, n)"
  shows "(mcp_idset_contains (Some ids) type s n \<longleftrightarrow> id_of (type, s, n) \<in> ids_abs ids) \<and>
    (\<exists>ids' h'. run_state (mcp_idset_remove (Some ids) type s n) h = (Some ids', h') \<and> ids_invar ids' \<and>
       ids_abs ids' = ids_abs ids - {id_of (type, s, n)} \<and> live h' = live h + ids_blocks ids' - ids_blocks ids) \<and>
    (\<exists>st ids' h'. run_state (mcp_idset_add (Some ids) type s n) h = ((st, Some ids'), h') \<and> ids_invar ids' \<and>
       (st = MCP_ERR_ALREADY_EXISTS \<longleftrightarrow> id_of (type, s, n) \<in> ids_abs ids) \<and>
       (st = MCP_ERR_NOMEM \<longrightarrow> script h \<noteq> []) \<and> st \<in> {MCP_OK, MCP_ERR_ALREADY_EXISTS, MCP_ERR_NOMEM} \<and>
       ids_abs ids' = (if st = MCP_OK then insert (id_of (type, s, n)) (ids_abs ids) else ids_abs ids) \<and>
       live h' = live h + ids_blocks ids' - ids_blocks ids)"
proof (intro conjI)
  show "mcp_idset_contains (Some ids) type s n \<longleftrightarrow> id_of (type, s, n) \<in> ids_abs ids"
    using id_find_iff [OF assms] by (simp add: mcp_idset_contains_def del: id_of.simps)
  show "\<exists>ids' h'. run_state (mcp_idset_remove (Some ids) type s n) h = (Some ids', h') \<and> ids_invar ids' \<and>
       ids_abs ids' = ids_abs ids - {id_of (type, s, n)} \<and> live h' = live h + ids_blocks ids' - ids_blocks ids"
    using idset_remove_spec [OF assms, of h]
    by (cases "run_state (mcp_idset_remove (Some ids) type s n) h") (auto simp: wp_run_state steps_def simp del: id_of.simps)
  obtain st r h' where run: "run_state (mcp_idset_add (Some ids) type s n) h = ((st, r), h')" by (metis surj_pair)
  obtain ids' where r: "r = Some ids'" and live: "steps (ids_blocks ids' - ids_blocks ids) h h'"
    using wp_idset_add_blocks [OF assms(1), of type s n h] run by (auto simp: wp_run_state)
  have "ids_entries ids' = (if st = MCP_OK then (ids_entries ids)(id_of (type, s, n) \<mapsto> ()) else ids_entries ids) \<and>
      ids_invar ids' \<and> st \<in> {MCP_OK, MCP_ERR_ALREADY_EXISTS, MCP_ERR_NOMEM} \<and>
      (st = MCP_ERR_ALREADY_EXISTS \<longleftrightarrow> ids_entries ids (id_of (type, s, n)) \<noteq> None)"
    using ids.add_result [OF assms, of h] run r by (auto simp: wp_run_state simp del: id_of.simps)
  moreover have "st = MCP_ERR_NOMEM \<longrightarrow> script h \<noteq> []"
  proof (cases "ids_entries ids (id_of (type, s, n))")
    case None
    then show ?thesis using ids_add_fresh [OF assms None, of h] run r by (auto simp: wp_run_state simp del: id_of.simps)
  next
    case (Some u)
    then show ?thesis using calculation by auto
  qed
  ultimately show "\<exists>st ids' h'. run_state (mcp_idset_add (Some ids) type s n) h = ((st, Some ids'), h') \<and> ids_invar ids' \<and>
       (st = MCP_ERR_ALREADY_EXISTS \<longleftrightarrow> id_of (type, s, n) \<in> ids_abs ids) \<and>
       (st = MCP_ERR_NOMEM \<longrightarrow> script h \<noteq> []) \<and> st \<in> {MCP_OK, MCP_ERR_ALREADY_EXISTS, MCP_ERR_NOMEM} \<and>
       ids_abs ids' = (if st = MCP_OK then insert (id_of (type, s, n)) (ids_abs ids) else ids_abs ids) \<and>
       live h' = live h + ids_blocks ids' - ids_blocks ids"
    using run r live
    by (intro exI [of _ st] exI [of _ ids'] exI [of _ h'])
       (auto simp: steps_def ids_entries_def fun_eq_iff split: if_splits simp del: id_of.simps)
qed

theorem idset_is_a_set_witness:
  "mcp_idset_contains (Some \<lparr>ids_items = [\<lparr>ent_type = MCP_ID_STRING, ent_s = Some ''1'', ent_n = NaN\<rparr>], ids_cap = 8\<rparr>)
     MCP_ID_STRING (Some ''1'') NaN"
proof -
  define ids where "ids = \<lparr>ids_items = [\<lparr>ent_type = MCP_ID_STRING, ent_s = Some ''1'', ent_n = NaN\<rparr>], ids_cap = 8\<rparr>"
  have "ids_invar ids" "id_admissible (MCP_ID_STRING, Some ''1'', NaN)" by (simp_all add: ids_def ids_invar_def)
  from idset_is_a_set [OF this, THEN conjunct1] show ?thesis by (simp add: ids_def ids_abs_def entry_id_def)
qed

text \<open>
  An id is accepted once. When no allocation fails, of a sequence of ids offered to a
  session exactly those are accepted that are not in the set and were not offered before,
  and every id offered is in the set afterwards.
\<close>

lemma ids_accepted_once:
  assumes "ids_invar ids" and "\<forall>a \<in> set as. id_admissible a"
  shows "case run_state (add_all ids_add as ids) \<lparr>live = k, script = []\<rparr> of ((sts, ids'), h') \<Rightarrow>
     (\<forall>i < length as. sts ! i = (if id_of (as ! i) \<in> ids_abs ids \<or> id_of (as ! i) \<in> id_of ` set (take i as)
        then MCP_ERR_ALREADY_EXISTS else MCP_OK)) \<and>
     ids_abs ids' = ids_abs ids \<union> id_of ` set as"
proof -
  have "Map.dom (ids_entries x) = ids_abs x" for x by (auto simp: ids_entries_def split: if_splits)
  then show ?thesis
    using ids.add_all_accepts [OF assms, of "\<lparr>live = k, script = []\<rparr>"]
    by (cases "run_state (add_all ids_add as ids) \<lparr>live = k, script = []\<rparr>")
       (auto simp: wp_run_state ids_entries_def split: if_splits simp del: id_of.simps)
qed

lemma message_validate_spec:
  "case mcp_message_validate msg of (st, rpc) \<Rightarrow>
     rpc = mcp_status_to_rpc_code st \<and> st = mcp_rpc_code_to_status rpc \<and>
     (if st = MCP_OK then
        mcp_message_jsonrpc msg = Some ''2.0'' \<and>
        (case mcp_message_kind msg of
           MCP_MSG_REQUEST \<Rightarrow> mcp_message_id_type msg \<in> {MCP_ID_STRING, MCP_ID_NUMBER} \<and>
             mcp_method_known (mcp_message_method msg) \<and> mcp_message_method msg \<noteq> None
         | MCP_MSG_NOTIFICATION \<Rightarrow> mcp_method_known (mcp_message_method msg)
         | MCP_MSG_RESPONSE \<Rightarrow> (mcp_message_result msg \<noteq> None) \<noteq> (mcp_message_error_code msg \<noteq> None)
         | MCP_MSG_INVALID \<Rightarrow> False)
      else rpc \<in> {MCP_RPC_INVALID_REQUEST, MCP_RPC_METHOD_NOT_FOUND, MCP_RPC_INVALID_PARAMS})"
proof -
  have env: "mcp_validate_envelope msg \<in> {(MCP_OK, 0), (MCP_ERR_PROTOCOL, MCP_RPC_INVALID_REQUEST)}"
    by (simp add: mcp_validate_envelope_def Let_def split: msg_kind.split)
  have met: "mcp_validate_method msg \<in> {(MCP_OK, 0), (MCP_ERR_NOT_FOUND, MCP_RPC_METHOD_NOT_FOUND)}"
    by (simp add: mcp_validate_method_def Let_def)
  have par: "mcp_validate_params msg \<in> {(MCP_OK, 0), (MCP_ERR_INVALID_ARGUMENT, MCP_RPC_INVALID_PARAMS)}"
    by (simp add: mcp_validate_params_def split: option.split)
  have ok: "mcp_message_jsonrpc msg = Some ''2.0'' \<and>
        (case mcp_message_kind msg of
           MCP_MSG_REQUEST \<Rightarrow> mcp_message_id_type msg \<in> {MCP_ID_STRING, MCP_ID_NUMBER} \<and>
             mcp_method_known (mcp_message_method msg) \<and> mcp_message_method msg \<noteq> None
         | MCP_MSG_NOTIFICATION \<Rightarrow> mcp_method_known (mcp_message_method msg)
         | MCP_MSG_RESPONSE \<Rightarrow> (mcp_message_result msg \<noteq> None) \<noteq> (mcp_message_error_code msg \<noteq> None)
         | MCP_MSG_INVALID \<Rightarrow> False)"
    if "fst (mcp_validate_envelope msg) = MCP_OK" "fst (mcp_validate_method msg) = MCP_OK"
    using that unfolding mcp_validate_envelope_def mcp_validate_method_def Let_def
    by (cases "mcp_message_kind msg") (simp_all split: if_splits)
  show ?thesis
    using env met par ok unfolding mcp_message_validate_def Let_def
    by (elim insertE emptyE) (simp_all add: mcp_status_to_rpc_code_def mcp_rpc_code_to_status_def)
qed


end
