(* ===== verification/Session.thy ===== *)
theory Session
  imports Json_Build Validate "HOL-Library.Word" "HOL-Library.Multiset"
begin

text \<open>
  Sessions of the server (\<open>src/src/server/session.c\<close>): the state of one client, its permissions,
  its subscription, and the table of sessions. A NULL pointer is None; the flag \<open>ctx\<close> says whether
  the caller passed a context.
\<close>

unbundle bit_operations_syntax

section \<open>The session\<close>

record mcp_session =
  initialized :: bool
  apps_host :: bool
  granted :: "32 word"
  client_name :: "string option"
  client_version :: "string option"
  ses_ids :: "mcp_idset option"
  client_meta :: "json option"
  subscription_active :: bool
  sub_id_type :: id_type
  sub_id_str :: "string option"
  sub_id_num :: double
  sub_tools_list_changed :: bool
  sub_prompts_list_changed :: bool
  sub_resources_list_changed :: bool
  sub_resource_uris :: "string list option"

definition zeroed_session :: mcp_session where
  "zeroed_session = \<lparr>initialized = False, apps_host = False, granted = 0, client_name = None, client_version = None,
     ses_ids = None, client_meta = None, subscription_active = False, sub_id_type = MCP_ID_NONE, sub_id_str = None,
     sub_id_num = double_of_int 0, sub_tools_list_changed = False, sub_prompts_list_changed = False,
     sub_resources_list_changed = False, sub_resource_uris = None\<rparr>"

definition session_new :: "('z heap_scheme, mcp_session option) state" where
  "session_new = do {
     ok \<leftarrow> xmalloc;
     (if \<not> ok then ret None
      else do {
        ids \<leftarrow> mcp_idset_create;
        (if ids = None then do { xfree True; ret None }
         else ret (Some (zeroed_session\<lparr>granted := 0xFFFFFFFF, ses_ids := ids\<rparr>)))
      })
   }"

fun free_strings :: "string list \<Rightarrow> ('z heap_scheme, unit) state" where
  "free_strings [] = ret ()"
| "free_strings (s # ss) = do { xfree True; free_strings ss }"

definition free_uris :: "string list option \<Rightarrow> ('z heap_scheme, unit) state" where
  "free_uris uris = (case uris of None \<Rightarrow> ret () | Some us \<Rightarrow> do { free_strings us; xfree True })"

definition session_free :: "mcp_session option \<Rightarrow> ('z heap_scheme, unit) state" where
  "session_free session =
     (case session of
        None \<Rightarrow> ret ()
      | Some s \<Rightarrow> do {
          mcp_idset_destroy (ses_ids s);
          mcp_json_destroy (client_meta s);
          xfree (client_name s \<noteq> None);
          xfree (client_version s \<noteq> None);
          xfree (sub_id_str s \<noteq> None);
          free_uris (sub_resource_uris s);
          xfree True
        })"

definition mcp_session_is_initialized :: "mcp_session option \<Rightarrow> bool" where
  "mcp_session_is_initialized session = (case session of None \<Rightarrow> False | Some s \<Rightarrow> initialized s)"

definition mcp_session_set_apps_host :: "bool \<Rightarrow> mcp_session option \<Rightarrow> bool \<Rightarrow> mcp_status \<times> mcp_session option" where
  "mcp_session_set_apps_host ctx session host =
     (case session of
        Some s \<Rightarrow> if \<not> ctx then (MCP_ERR_INVALID_ARGUMENT, session) else (MCP_OK, Some (s\<lparr>apps_host := host\<rparr>))
      | None \<Rightarrow> (MCP_ERR_INVALID_ARGUMENT, session))"

definition mcp_session_is_apps_host :: "mcp_session option \<Rightarrow> bool" where
  "mcp_session_is_apps_host session = (case session of None \<Rightarrow> False | Some s \<Rightarrow> apps_host s)"

definition mcp_session_grant :: "bool \<Rightarrow> mcp_session option \<Rightarrow> 32 word \<Rightarrow> mcp_status \<times> mcp_session option" where
  "mcp_session_grant ctx session perm_mask =
     (case session of
        Some s \<Rightarrow> if \<not> ctx then (MCP_ERR_INVALID_ARGUMENT, session)
                  else (MCP_OK, Some (s\<lparr>granted := granted s OR perm_mask\<rparr>))
      | None \<Rightarrow> (MCP_ERR_INVALID_ARGUMENT, session))"

definition mcp_session_revoke :: "bool \<Rightarrow> mcp_session option \<Rightarrow> 32 word \<Rightarrow> mcp_status \<times> mcp_session option" where
  "mcp_session_revoke ctx session perm_mask =
     (case session of
        Some s \<Rightarrow> if \<not> ctx then (MCP_ERR_INVALID_ARGUMENT, session)
                  else (MCP_OK, Some (s\<lparr>granted := granted s AND NOT perm_mask\<rparr>))
      | None \<Rightarrow> (MCP_ERR_INVALID_ARGUMENT, session))"

definition mcp_session_grants :: "mcp_session option \<Rightarrow> 32 word \<Rightarrow> bool" where
  "mcp_session_grants session perm_mask =
     (case session of None \<Rightarrow> False | Some s \<Rightarrow> granted s AND perm_mask = perm_mask)"

definition mcp_session_client_meta :: "mcp_session option \<Rightarrow> json option" where
  "mcp_session_client_meta session = (case session of None \<Rightarrow> None | Some s \<Rightarrow> client_meta s)"

section \<open>The table of sessions\<close>

text \<open>The sessions of a server with their addresses; \<open>addr\<close> is the address of the new session.\<close>

record session_table =
  sessions :: "(nat \<times> mcp_session) list"
  cap_sessions :: nat

definition mcp_server_create_session ::
  "nat \<Rightarrow> session_table option \<Rightarrow> ('z heap_scheme, mcp_session option \<times> session_table option) state" where
  "mcp_server_create_session addr srv =
     (case srv of
        None \<Rightarrow> ret (None, srv)
      | Some t \<Rightarrow> do {
          s \<leftarrow> session_new;
          (case s of
             None \<Rightarrow> ret (None, srv)
           | Some ses \<Rightarrow> do {
               g \<leftarrow> grow_array 4 (length (sessions t)) (cap_sessions t);
               (case g of
                  None \<Rightarrow> do { session_free s; ret (None, srv) }
                | Some cap \<Rightarrow> ret (s, Some (t\<lparr>sessions := sessions t @ [(addr, ses)], cap_sessions := cap\<rparr>)))
             })
        })"

definition mcp_server_destroy_session ::
  "session_table option \<Rightarrow> nat option \<Rightarrow> ('z heap_scheme, session_table option) state" where
  "mcp_server_destroy_session srv session =
     (case (srv, session) of
        (Some t, Some addr) \<Rightarrow>
          (case first_index (\<lambda>e. fst e = addr) (sessions t) of
             None \<Rightarrow> ret srv
           | Some i \<Rightarrow>
               let n = length (sessions t) - 1 in do {
                 session_free (Some (snd (sessions t ! i)));
                 ret (Some (t\<lparr>sessions := take n ((sessions t)[i := sessions t ! n])\<rparr>))
               })
      | _ \<Rightarrow> ret srv)"

section \<open>Subscriptions\<close>

definition mcp_session_has_active_subscription :: "mcp_session option \<Rightarrow> bool" where
  "mcp_session_has_active_subscription session = (case session of None \<Rightarrow> False | Some s \<Rightarrow> subscription_active s)"

definition uri_subscribed :: "mcp_session \<Rightarrow> json option \<Rightarrow> bool" where
  "uri_subscribed s params =
     (case (params, sub_resource_uris s) of
        (Some p, Some uris) \<Rightarrow>
          if uris = [] then False
          else (case mcp_json_string_value (mcp_json_object_get (Some p) ''uri'') of
                  None \<Rightarrow> False
                | Some u \<Rightarrow> u \<in> set uris)
      | _ \<Rightarrow> False)"

definition mcp_session_is_subscribed_to_notification ::
  "mcp_session option \<Rightarrow> string option \<Rightarrow> json option \<Rightarrow> bool" where
  "mcp_session_is_subscribed_to_notification session mth params =
     (case (session, mth) of
        (Some s, Some m) \<Rightarrow>
          if \<not> subscription_active s then True
          else if m = ''notifications/tools/list_changed'' then sub_tools_list_changed s
          else if m = ''notifications/prompts/list_changed'' then sub_prompts_list_changed s
          else if m = ''notifications/resources/list_changed'' then sub_resources_list_changed s
          else if m = ''notifications/resources/updated'' then uri_subscribed s params
          else True
      | _ \<Rightarrow> True)"

definition sub_id_value :: "mcp_session \<Rightarrow> ('z heap_scheme, json option) state" where
  "sub_id_value s =
     (case sub_id_type s of
        MCP_ID_STRING \<Rightarrow> mcp_json_string_new (Some (case sub_id_str s of None \<Rightarrow> [] | Some x \<Rightarrow> x))
      | MCP_ID_NUMBER \<Rightarrow> mcp_json_number_new (sub_id_num s)
      | MCP_ID_NONE \<Rightarrow> mcp_json_null_new)"

definition subscription_key :: string where
  "subscription_key = ''io.modelcontextprotocol/subscriptionId''"

text \<open>\<open>meta\<close> is a pointer into \<open>params\<close>: what is written through it is written to the member.\<close>

definition with_meta :: "json \<Rightarrow> json option \<Rightarrow> json" where
  "with_meta params meta = (case meta of None \<Rightarrow> params | Some m \<Rightarrow> object_put params ''_meta'' m)"

definition tag_subscription ::
  "mcp_session \<Rightarrow> json \<Rightarrow> json \<Rightarrow> ('z heap_scheme, json option) state" where
  "tag_subscription s params meta = do {
     v \<leftarrow> sub_id_value s;
     (case v of
        None \<Rightarrow> do { mcp_json_destroy (Some params); ret None }
      | Some _ \<Rightarrow> do {
          r \<leftarrow> mcp_json_object_set_take (Some meta) (Some subscription_key) v;
          (if fst r \<noteq> MCP_OK then do { mcp_json_destroy v; mcp_json_destroy (Some (with_meta params (snd r))); ret None }
           else ret (Some (with_meta params (snd r))))
        })
   }"

definition subscribed_params :: "mcp_session \<Rightarrow> json \<Rightarrow> ('z heap_scheme, json option) state" where
  "subscribed_params s params =
     (case mcp_json_object_get (Some params) ''_meta'' of
        Some meta \<Rightarrow> tag_subscription s params meta
      | None \<Rightarrow> do {
          meta \<leftarrow> mcp_json_object_new;
          (case meta of
             None \<Rightarrow> do { mcp_json_destroy (Some params); ret None }
           | Some m \<Rightarrow> do {
               r \<leftarrow> mcp_json_object_set_take (Some params) (Some ''_meta'') meta;
               (if fst r \<noteq> MCP_OK then do { mcp_json_destroy meta; mcp_json_destroy (snd r); ret None }
                else tag_subscription s (the (snd r)) m)
             })
        })"

definition notify_with ::
  "string \<Rightarrow> json option \<Rightarrow> ('z heap_scheme, mcp_status \<times> mcp_message option) state" where
  "notify_with mth params = do {
     msg \<leftarrow> mcp_notification_new (Some mth) params;
     ret (if msg = None then MCP_ERR_NOMEM else MCP_OK, msg)
   }"

definition mcp_session_build_notification ::
  "mcp_session option \<Rightarrow> string option \<Rightarrow> json option \<Rightarrow> ('z heap_scheme, mcp_status \<times> mcp_message option) state" where
  "mcp_session_build_notification session mth params =
     (case mth of
        None \<Rightarrow> ret (MCP_ERR_INVALID_ARGUMENT, None)
      | Some m \<Rightarrow>
          (case session of
             Some s \<Rightarrow>
               if \<not> subscription_active s then notify_with m params
               else if \<not> mcp_session_is_subscribed_to_notification session mth params
               then do { mcp_json_destroy params; ret (MCP_OK, None) }
               else do {
                 p0 \<leftarrow> (if params = None then mcp_json_object_new else ret params);
                 (case p0 of
                    None \<Rightarrow> ret (MCP_ERR_NOMEM, None)
                  | Some p \<Rightarrow> do {
                      p1 \<leftarrow> subscribed_params s p;
                      (if p1 = None then ret (MCP_ERR_NOMEM, None) else notify_with m p1)
                    })
               }
           | None \<Rightarrow> notify_with m params))"

definition end_subscription :: "mcp_session \<Rightarrow> ('z heap_scheme, mcp_session) state" where
  "end_subscription s = do {
     xfree (sub_id_str s \<noteq> None);
     free_uris (sub_resource_uris s);
     ret (s\<lparr>subscription_active := False, sub_id_str := None, sub_resource_uris := None,
            sub_tools_list_changed := False, sub_prompts_list_changed := False, sub_resources_list_changed := False\<rparr>)
   }"

definition closure_response :: "mcp_session \<Rightarrow> json \<Rightarrow> ('z heap_scheme, mcp_message option) state" where
  "closure_response s result =
     (case sub_id_type s of
        MCP_ID_STRING \<Rightarrow> mcp_response_ok_string_id_new (Some (case sub_id_str s of None \<Rightarrow> [] | Some x \<Rightarrow> x)) (Some result)
      | MCP_ID_NUMBER \<Rightarrow> mcp_response_ok_number_id_new (sub_id_num s) (Some result)
      | MCP_ID_NONE \<Rightarrow> mcp_response_ok_string_id_new (Some []) (Some result))"

definition closure_finish ::
  "mcp_session \<Rightarrow> json \<Rightarrow> ('z heap_scheme, mcp_status \<times> mcp_message option \<times> mcp_session option) state" where
  "closure_finish s result = do {
     resp \<leftarrow> closure_response s result;
     (if resp = None then do { mcp_json_destroy (Some result); ret (MCP_ERR_NOMEM, None, Some s) }
      else do { s' \<leftarrow> end_subscription s; ret (MCP_OK, resp, Some s') })
   }"

definition closure_failed ::
  "mcp_session \<Rightarrow> json option list \<Rightarrow> ('z heap_scheme, mcp_status \<times> mcp_message option \<times> mcp_session option) state" where
  "closure_failed s vs = do {
     fold (\<lambda>v m. do { m; mcp_json_destroy v }) vs (ret ());
     ret (MCP_ERR_NOMEM, None, Some s)
   }"

definition closure_tag ::
  "mcp_session \<Rightarrow> json \<Rightarrow> json \<Rightarrow> ('z heap_scheme, mcp_status \<times> mcp_message option \<times> mcp_session option) state" where
  "closure_tag s result meta = do {
     sub_id_v \<leftarrow> sub_id_value s;
     (if sub_id_v = None then closure_failed s [sub_id_v, Some meta, Some result]
      else do {
        r \<leftarrow> mcp_json_object_set_take (Some meta) (Some subscription_key) sub_id_v;
        (if fst r \<noteq> MCP_OK then closure_failed s [sub_id_v, snd r, Some result]
         else do {
           q \<leftarrow> mcp_json_object_set_take (Some result) (Some ''_meta'') (snd r);
           (if fst q \<noteq> MCP_OK then closure_failed s [sub_id_v, snd r, snd q]
            else closure_finish s (the (snd q)))
         })
      })
   }"

definition mcp_session_build_subscription_closure ::
  "mcp_session option \<Rightarrow> ('z heap_scheme, mcp_status \<times> mcp_message option \<times> mcp_session option) state" where
  "mcp_session_build_subscription_closure session =
     (case session of
        None \<Rightarrow> ret (MCP_ERR_NOT_FOUND, None, session)
      | Some s \<Rightarrow>
          if \<not> subscription_active s then ret (MCP_ERR_NOT_FOUND, None, session)
          else do {
            result \<leftarrow> mcp_json_object_new;
            meta \<leftarrow> mcp_json_object_new;
            rt \<leftarrow> mcp_json_string_new (Some ''complete'');
            (if result = None \<or> meta = None \<or> rt = None then closure_failed s [result, meta, rt]
             else do {
               r \<leftarrow> mcp_json_object_set_take result (Some ''resultType'') rt;
               (if fst r \<noteq> MCP_OK then closure_failed s [snd r, meta]
                else closure_tag s (the (snd r)) (the meta))
             })
          })"

section \<open>Permissions\<close>

text \<open>A history of calls: True with a mask is a grant, False with a mask is a revocation.\<close>

fun change_permissions :: "(bool \<times> 32 word) list \<Rightarrow> mcp_session option \<Rightarrow> mcp_session option" where
  "change_permissions [] s = s"
| "change_permissions ((give, m) # ops) s =
     change_permissions ops (snd (if give then mcp_session_grant True s m else mcp_session_revoke True s m))"

text \<open>The last call that touched permission \<open>i\<close> decides; without one it is the initial value.\<close>

definition permitted :: "bool \<Rightarrow> (bool \<times> 32 word) list \<Rightarrow> nat \<Rightarrow> bool" where
  "permitted b ops i = fold (\<lambda>(give, m) p. if bit m i then give else p) ops b"

lemma change_permissions_bits:
  "\<exists>s'. change_permissions ops (Some s) = Some s' \<and> (\<forall>i < 32. bit (granted s') i = permitted (bit (granted s) i) ops i) \<and>
     s' = s\<lparr>granted := granted s'\<rparr>"
proof (induction ops arbitrary: s)
  case (Cons op ops)
  obtain give m where op: "op = (give, m)" by (cases op)
  let ?s = "s\<lparr>granted := if give then granted s OR m else granted s AND NOT m\<rparr>"
  have "bit (granted ?s) i = (if bit m i then give else bit (granted s) i)" if "i < 32" for i
    using that by (simp add: bit_or_iff bit_and_iff bit_not_iff)
  with Cons.IH [of ?s] show ?case
    by (cases give) (auto simp: op permitted_def mcp_session_grant_def mcp_session_revoke_def)
qed (simp add: permitted_def)

lemma mask_contained_iff: "(g AND m = m) \<longleftrightarrow> (\<forall>i < 32. bit m i \<longrightarrow> bit g i)" for g m :: "32 word"
  by (auto simp: bit_eq_iff bit_and_iff)

definition session_blocks :: "mcp_session \<Rightarrow> int" where
  "session_blocks s = 1 + (case ses_ids s of None \<Rightarrow> 0 | Some ids \<Rightarrow> ids_blocks ids) + blocks_opt (client_meta s) +
     of_bool (client_name s \<noteq> None) + of_bool (client_version s \<noteq> None) + of_bool (sub_id_str s \<noteq> None) +
     (case sub_resource_uris s of None \<Rightarrow> 0 | Some us \<Rightarrow> 1 + int (length us))"

lemma session_new_spec:
  "wp session_new (\<lambda>r h'. case r of
       None \<Rightarrow> script h \<noteq> [] \<and> steps 0 h h'
     | Some s \<Rightarrow> granted s = - 1 \<and> \<not> initialized s \<and> ses_ids s = Some \<lparr>ids_items = [], ids_cap = 0\<rparr> \<and>
         steps (session_blocks s) h h') h"
  unfolding session_new_def mcp_idset_create_def
  by (auto simp: wp_xfree steps_def session_blocks_def ids_blocks_def array_blocks_def zeroed_session_def blocks_opt_def
      intro!: wp_xmalloc)



section \<open>The sessions of a server\<close>

definition table_invar :: "session_table \<Rightarrow> bool" where
  "table_invar t \<longleftrightarrow> distinct (map fst (sessions t)) \<and> length (sessions t) \<le> cap_sessions t"

definition table_blocks :: "session_table \<Rightarrow> int" where
  "table_blocks t = array_blocks (cap_sessions t) + sum_list (map (\<lambda>e. session_blocks (snd e)) (sessions t))"

lemma wp_free_strings: "wp (free_strings ss) Q h = Q () (h\<lparr>live := live h - int (length ss)\<rparr>)"
  by (induction ss arbitrary: h) (simp_all add: wp_xfree diff_diff_eq)

lemma wp_free_uris:
  "wp (free_uris us) Q h = Q () (h\<lparr>live := live h - (case us of None \<Rightarrow> 0 | Some l \<Rightarrow> 1 + int (length l))\<rparr>)"
  by (cases us) (simp_all add: free_uris_def wp_free_strings wp_xfree algebra_simps)

lemma wp_session_free:
  "wp (session_free (Some s)) Q h = Q () (h\<lparr>live := live h - session_blocks s\<rparr>)"
proof -
  have ids: "wp (mcp_idset_destroy (ses_ids s)) Q' h' =
      Q' () (h'\<lparr>live := live h' - (case ses_ids s of None \<Rightarrow> 0 | Some ids \<Rightarrow> ids_blocks ids)\<rparr>)" for Q' h'
  proof (cases "ses_ids s")
    case None
    then show ?thesis by (simp add: mcp_idset_destroy_def)
  qed (simp add: wp_idset_destroy)
  show ?thesis
    by (simp add: session_free_def ids wp_free_uris wp_xfree session_blocks_def wp_destroy_opt algebra_simps)
qed

lemma create_session_spec:
  assumes "table_invar t" and "addr \<notin> fst ` set (sessions t)"
  shows "wp (mcp_server_create_session addr (Some t)) (\<lambda>r h'.
     (case r of
        (None, t') \<Rightarrow> script h \<noteq> [] \<and> t' = Some t \<and> steps 0 h h'
      | (Some s, t') \<Rightarrow> \<exists>t1. t' = Some t1 \<and> table_invar t1 \<and> sessions t1 = sessions t @ [(addr, s)] \<and>
          steps (table_blocks t1 - table_blocks t) h h')) h"
  unfolding mcp_server_create_session_def option.case wp_bind
proof (rule wp_mono [OF session_new_spec], goal_cases)
  case (1 r h1)
  show ?case
  proof (cases r)
    case None
    with 1 show ?thesis by simp
  next
    case (Some s)
    show ?thesis unfolding Some option.case wp_bind
    proof (rule wp_grow_array, goal_cases)
      case (3 cap' h2)
      then show ?case using 1 Some assms by (auto simp: table_invar_def table_blocks_def steps_def)
    next
      case (4 h2)
      then show ?case using 1 Some by (auto simp: wp_session_free steps_def)
    qed (use assms in \<open>simp_all add: table_invar_def\<close>)
  qed
qed

lemma swap_remove:
  assumes "i < length xs"
  shows "mset (take (length xs - 1) (xs[i := xs ! (length xs - 1)])) = mset xs - {#xs ! i#}"
proof -
  obtain ys y where xs: "xs = ys @ [y]" using assms by (cases xs rule: rev_cases) auto
  show ?thesis
  proof (cases "i < length ys")
    case True
    then show ?thesis by (simp add: xs nth_append list_update_append mset_update)
  next
    case False
    with assms show ?thesis by (simp add: xs list_update_append nth_append)
  qed
qed

lemma destroy_session_spec:
  assumes "table_invar t"
  shows "wp (mcp_server_destroy_session (Some t) (Some addr)) (\<lambda>r h'. \<exists>t'. r = Some t' \<and> table_invar t' \<and>
     map_of (sessions t') = (map_of (sessions t))(addr := None) \<and>
     steps (table_blocks t' - table_blocks t) h h') h"
proof (cases "first_index (\<lambda>e. fst e = addr) (sessions t)")
  case None
  then have "map_of (sessions t) addr = None" by (auto simp: first_index_None map_of_eq_None_iff)
  with None assms show ?thesis
    by (auto simp: mcp_server_destroy_session_def steps_def fun_upd_idem)
next
  case (Some i)
  then have i: "i < length (sessions t)" "fst (sessions t ! i) = addr" by (auto dest: first_index_SomeD)
  define xs where "xs = sessions t"
  define ys where "ys = take (length xs - Suc 0) (xs[i := xs ! (length xs - Suc 0)])"
  obtain s where s: "xs ! i = (addr, s)" using i by (cases "xs ! i") (auto simp: xs_def)
  have "(addr, s) \<in># mset xs" using i s nth_mem [of i xs] by (simp add: xs_def)
  then have ms: "mset xs = add_mset (addr, s) (mset ys)"
    using swap_remove [of i xs] i s by (simp add: xs_def ys_def)
  have "distinct (map fst ((addr, s) # ys)) = distinct (map fst xs)"
    by (rule mset_eq_imp_distinct_iff) (simp add: ms)
  then have d: "distinct (map fst xs)" "distinct (map fst ys)" "addr \<notin> fst ` set ys"
    using assms by (simp_all add: table_invar_def xs_def)
  have "map_of xs = map_of ((addr, s) # ys)"
    using d arg_cong [OF ms, of set_mset] by (intro map_of_inject_set [THEN iffD2]) simp_all
  then have "map_of ys = (map_of xs)(addr := None)"
    using d by (auto simp: map_of_eq_None_iff)
  moreover have "sum_list (map (\<lambda>e. session_blocks (snd e)) xs) = session_blocks s + sum_list (map (\<lambda>e. session_blocks (snd e)) ys)"
    using arg_cong [OF ms, of "\<lambda>M. sum_mset (image_mset (\<lambda>e. session_blocks (snd e)) M)"]
    by (simp add: sum_mset_sum_list flip: mset_map)
  moreover have "length ys \<le> cap_sessions t" using assms by (auto simp: table_invar_def xs_def ys_def)
  ultimately show ?thesis using Some d s
    by (simp add: mcp_server_destroy_session_def Let_def wp_session_free table_invar_def table_blocks_def steps_def
        flip: xs_def ys_def)
qed

text \<open>
  C35: the table of sessions is a map from addresses to sessions that owns its memory. Creating a
  session adds one at a fresh address, or changes nothing when an allocation fails;
  destroying one removes it and no other although the last entry is moved into its place;
  and in each case the number of live blocks changes by exactly what the table owns.
\<close>
theorem session_table_refines_map:
  assumes "table_invar t" and "addr \<notin> fst ` set (sessions t)"
  shows "(case run_state (mcp_server_create_session addr (Some t)) h of ((s, t'), h') \<Rightarrow>
      \<exists>t1. t' = Some t1 \<and> table_invar t1 \<and> map_of (sessions t1) = (map_of (sessions t))(addr := s) \<and>
        (s = None \<longrightarrow> script h \<noteq> []) \<and> live h' - live h = table_blocks t1 - table_blocks t) \<and>
    (case run_state (mcp_server_destroy_session (Some t) (Some x)) h of (t', h') \<Rightarrow>
      \<exists>t1. t' = Some t1 \<and> table_invar t1 \<and> map_of (sessions t1) = (map_of (sessions t))(x := None) \<and>
        live h' - live h = table_blocks t1 - table_blocks t)"
proof
  have none: "map_of (sessions t) addr = None" using assms(2) by (simp add: map_of_eq_None_iff)
  have upd: "[addr \<mapsto> s] ++ map_of (sessions t) = (map_of (sessions t))(addr \<mapsto> s)" for s
    using none by (auto simp: map_add_def fun_eq_iff split: option.splits)
  show "case run_state (mcp_server_create_session addr (Some t)) h of ((s, t'), h') \<Rightarrow>
      \<exists>t1. t' = Some t1 \<and> table_invar t1 \<and> map_of (sessions t1) = (map_of (sessions t))(addr := s) \<and>
        (s = None \<longrightarrow> script h \<noteq> []) \<and> live h' - live h = table_blocks t1 - table_blocks t"
    using create_session_spec [OF assms, of h] none assms(1)
    by (auto simp: wp_run_state steps_def upd fun_upd_idem split: prod.splits option.splits)
qed (use destroy_session_spec [OF assms(1), of x h] in \<open>auto simp: wp_run_state steps_def split: prod.splits\<close>)

theorem session_table_refines_map_witness:
  "\<exists>t1. fst (run_state (mcp_server_destroy_session
       (Some \<lparr>sessions = [(8, zeroed_session), (16, zeroed_session\<lparr>initialized := True\<rparr>)], cap_sessions = 4\<rparr>) (Some 8))
       \<lparr>live = 3, script = []\<rparr>) = Some t1 \<and> map_of (sessions t1) 16 = Some (zeroed_session\<lparr>initialized := True\<rparr>) \<and>
     map_of (sessions t1) 8 = None"
  using session_table_refines_map [of
      "\<lparr>sessions = [(8, zeroed_session), (16, zeroed_session\<lparr>initialized := True\<rparr>)], cap_sessions = 4\<rparr>" 24
      "\<lparr>live = 3, script = []\<rparr>" 8]
  by (auto simp: table_invar_def split: prod.splits)

section \<open>Notifications to a subscriber\<close>

text \<open>The subscription id as a JSON value.\<close>

definition sub_id_json :: "mcp_session \<Rightarrow> json" where
  "sub_id_json s =
     (case sub_id_type s of
        MCP_ID_STRING \<Rightarrow> JString (cstr (case sub_id_str s of None \<Rightarrow> [] | Some x \<Rightarrow> x))
      | MCP_ID_NUMBER \<Rightarrow> JNumber (sub_id_num s)
      | MCP_ID_NONE \<Rightarrow> JNull)"

definition sub_id_good :: "mcp_session \<Rightarrow> bool" where
  "sub_id_good s =
     (case sub_id_type s of
        MCP_ID_STRING \<Rightarrow> wf_text (cstr (case sub_id_str s of None \<Rightarrow> [] | Some x \<Rightarrow> x))
      | MCP_ID_NUMBER \<Rightarrow> isfinite (sub_id_num s)
      | MCP_ID_NONE \<Rightarrow> True)"

lemma makes_sub_id: "makes (sub_id_good s) (sub_id_json s) (sub_id_value s)"
  by (cases "sub_id_type s")
     (simp_all add: sub_id_good_def sub_id_json_def sub_id_value_def makes_string makes_number makes_leaf)

lemma subscription_key_good [simp]: "utf8_valid subscription_key"
  by (simp add: subscription_key_def utf8_valid_ascii)

text \<open>The parameters as they are sent: the subscription id is a member of \<open>_meta\<close>.\<close>

definition tagged :: "mcp_session \<Rightarrow> json \<Rightarrow> json" where
  "tagged s params =
     (let meta = (case builtin_object_get (Some params) ''_meta'' of None \<Rightarrow> JObject [] 0 | Some m \<Rightarrow> m)
      in object_put params ''_meta'' (object_put meta subscription_key (sub_id_json s)))"

lemma yields_tag_subscription:
  assumes "sub_id_good s" and "is_object meta"
  shows "yields (tag_subscription s params meta)
     (Some (object_put params ''_meta'' (object_put meta subscription_key (sub_id_json s))))"
  unfolding tag_subscription_def
  by (rule yields_bind [OF makes_yields [OF makes_sub_id assms(1)]], unfold option.case,
      rule yields_bind [OF yields_set_take [OF assms(2)]]) (simp_all add: yields_ret with_meta_def)

lemma yields_subscribed_params:
  assumes good: "sub_id_good s" and obj: "is_object params"
    and meta: "\<forall>m. builtin_object_get (Some params) ''_meta'' = Some m \<longrightarrow> is_object m"
  shows "yields (subscribed_params s params) (Some (tagged s params))"
proof (cases "builtin_object_get (Some params) ''_meta''")
  case None
  have "yields (tag_subscription s (object_put params ''_meta'' (JObject [] 0)) (JObject [] 0))
      (Some (tagged s params))"
    using yields_tag_subscription [OF good, of "JObject [] 0" "object_put params ''_meta'' (JObject [] 0)"]
    by (simp add: tagged_def None object_put_twice)
  then show ?thesis
    unfolding subscribed_params_def None option.case
    by (intro yields_bind [OF makes_yields [OF makes_leaf(4) TrueI]], unfold option.case,
        intro yields_bind [OF yields_set_take [OF obj]]) (simp_all add: utf8_valid_ascii)
next
  case (Some m)
  with yields_tag_subscription [OF good, of m params] meta show ?thesis
    by (simp add: subscribed_params_def tagged_def)
qed



end
