(* ===== verification/Queue.thy ===== *)
theory Queue
  imports Message Store
begin

text \<open>
  The message queue of the server (\<open>src/src/server/queue.c\<close>): two parallel arrays used as a ring,
  one of session handles and one of owned messages. The contents of a slot that was not
  written since the block was (re)allocated are None. Sessions are handles of any type.
\<close>

section \<open>The queue\<close>

definition MCP_QUEUE_MAX_LEN :: nat where
  "MCP_QUEUE_MAX_LEN = 1024"

record 's mcp_queue =
  q_sessions :: "'s option list"
  q_msgs :: "mcp_message option list"
  q_head :: nat
  q_len :: nat
  q_cap :: nat

definition mcp_queue_create :: "('z heap_scheme, 's mcp_queue option) state" where
  "mcp_queue_create = do {
     ok \<leftarrow> xmalloc;
     ret (if ok then Some \<lparr>q_sessions = [], q_msgs = [], q_head = 0, q_len = 0, q_cap = 0\<rparr> else None)
   }"

fun destroy_queued :: "'s mcp_queue \<Rightarrow> nat \<Rightarrow> ('z heap_scheme, unit) state" where
  "destroy_queued q 0 = ret ()"
| "destroy_queued q (Suc i) = do {
     destroy_queued q i;
     mcp_message_destroy (q_msgs q ! ((q_head q + i) mod q_cap q))
   }"

definition mcp_queue_destroy :: "'s mcp_queue option \<Rightarrow> ('z heap_scheme, unit) state" where
  "mcp_queue_destroy q =
     (case q of
        None \<Rightarrow> ret ()
      | Some q \<Rightarrow> do {
          destroy_queued q (q_len q);
          xfree (q_sessions q \<noteq> []);
          xfree (q_msgs q \<noteq> []);
          xfree True
        })"

text \<open>The loop that moves the queued items to the front, on one of the arrays; the pass for \<open>i\<close> runs
  after those for the smaller indices and sees what they wrote.\<close>

fun shift_slots :: "nat \<Rightarrow> nat \<Rightarrow> nat \<Rightarrow> 'a list \<Rightarrow> 'a list" where
  "shift_slots front cap 0 xs = xs"
| "shift_slots front cap (Suc i) xs =
     (let ys = shift_slots front cap i xs; src = (front + i) mod cap
      in if src \<noteq> i then ys[i := ys ! src] else ys)"

text \<open>\<open>realloc\<close> to \<open>n\<close> slots: the old contents and indeterminate ones.\<close>

definition regrow :: "nat \<Rightarrow> 'a option list \<Rightarrow> 'a option list" where
  "regrow n xs = take n xs @ replicate (n - length xs) None"

definition queue_grow :: "'s mcp_queue \<Rightarrow> ('z heap_scheme, mcp_status \<times> 's mcp_queue) state" where
  "queue_grow q =
     (if q_len q < q_cap q \<and> q_head q = 0 then ret (MCP_OK, q)
      else
        let q = (if 0 < q_head q
                 then q\<lparr>q_sessions := shift_slots (q_head q) (q_cap q) (q_len q) (q_sessions q),
                        q_msgs := shift_slots (q_head q) (q_cap q) (q_len q) (q_msgs q), q_head := 0\<rparr>
                 else q)
        in if q_len q < q_cap q then ret (MCP_OK, q)
           else let ncap = (if q_cap q = 0 then 8 else q_cap q * 2) in do {
             ok \<leftarrow> xrealloc (q_msgs q \<noteq> []);
             (if \<not> ok then ret (MCP_ERR_NOMEM, q)
              else let q = q\<lparr>q_msgs := regrow ncap (q_msgs q)\<rparr> in do {
                ok \<leftarrow> xrealloc (q_sessions q \<noteq> []);
                (if \<not> ok then ret (MCP_ERR_NOMEM, q)
                 else ret (MCP_OK, q\<lparr>q_sessions := regrow ncap (q_sessions q), q_cap := ncap\<rparr>))
              })
           })"

definition mcp_queue_push ::
  "'s mcp_queue option \<Rightarrow> 's option \<Rightarrow> mcp_message option \<Rightarrow>
   ('z heap_scheme, mcp_status \<times> 's mcp_queue option) state" where
  "mcp_queue_push q session msg =
     (case q of
        None \<Rightarrow> ret (MCP_ERR_INVALID_ARGUMENT, q)
      | Some q0 \<Rightarrow>
          if session = None \<or> msg = None then ret (MCP_ERR_INVALID_ARGUMENT, q)
          else if MCP_QUEUE_MAX_LEN \<le> q_len q0 then ret (MCP_ERR_NOMEM, q)
          else do {
            g \<leftarrow> queue_grow q0;
            (if fst g \<noteq> MCP_OK then ret (MCP_ERR_NOMEM, Some (snd g))
             else let q1 = snd g; slot = (q_head q1 + q_len q1) mod q_cap q1 in
               ret (MCP_OK, Some (q1\<lparr>q_sessions := (q_sessions q1)[slot := session],
                                     q_msgs := (q_msgs q1)[slot := msg], q_len := q_len q1 + 1\<rparr>)))
          })"

text \<open>The result is the status, the two outputs and the queue.\<close>

definition mcp_queue_pop ::
  "'s mcp_queue option \<Rightarrow> mcp_status \<times> ('s option \<times> mcp_message option) \<times> 's mcp_queue option" where
  "mcp_queue_pop q =
     (case q of
        None \<Rightarrow> (MCP_ERR_INVALID_ARGUMENT, (None, None), q)
      | Some q0 \<Rightarrow>
          if q_len q0 = 0 then (MCP_ERR_NOT_FOUND, (None, None), q)
          else (MCP_OK, (q_sessions q0 ! q_head q0, q_msgs q0 ! q_head q0),
                Some (q0\<lparr>q_head := (q_head q0 + 1) mod q_cap q0, q_len := q_len q0 - 1\<rparr>)))"

definition mcp_queue_size :: "'s mcp_queue option \<Rightarrow> nat" where
  "mcp_queue_size q = (case q of None \<Rightarrow> 0 | Some q \<Rightarrow> q_len q)"

section \<open>The ring never wraps\<close>

text \<open>
  Every push first moves the items to the front, so that the items in use are the slots from
  \<open>head\<close> to \<open>head + len\<close>, without wrapping round. This is what makes the move correct: it copies
  upwards in place, and on a ring that wraps it would overwrite items before they are moved.
\<close>

definition queue_items :: "'s mcp_queue \<Rightarrow> ('s \<times> mcp_message) list" where
  "queue_items q = map (\<lambda>i. (the (q_sessions q ! (q_head q + i)), the (q_msgs q ! (q_head q + i)))) [0..<q_len q]"

definition queue_invar :: "'s mcp_queue \<Rightarrow> bool" where
  "queue_invar q \<longleftrightarrow> length (q_sessions q) = q_cap q \<and> q_cap q \<le> length (q_msgs q) \<and>
     q_head q + q_len q \<le> q_cap q \<and> (q_cap q = 0 \<or> q_head q < q_cap q) \<and> q_len q \<le> MCP_QUEUE_MAX_LEN \<and>
     (\<forall>i < q_len q. q_sessions q ! (q_head q + i) \<noteq> None \<and> q_msgs q ! (q_head q + i) \<noteq> None)"

lemma length_shift_slots [simp]: "length (shift_slots front cap n xs) = length xs"
  by (induction n) (simp_all add: Let_def)

lemma shift_slots_nth:
  assumes "front + n \<le> cap" and "cap \<le> length xs" and "j < length xs"
  shows "shift_slots front cap n xs ! j = (if j < n then xs ! (front + j) else xs ! j)"
  using assms
proof (induction n arbitrary: j)
  case (Suc n)
  then show ?case by (auto simp: Let_def nth_list_update less_Suc_eq)
qed simp

lemma queue_items_at_front:
  assumes "queue_invar q" and "0 < q_head q"
  defines "q' \<equiv> q\<lparr>q_sessions := shift_slots (q_head q) (q_cap q) (q_len q) (q_sessions q),
                  q_msgs := shift_slots (q_head q) (q_cap q) (q_len q) (q_msgs q), q_head := 0\<rparr>"
  shows "queue_invar q' \<and> queue_items q' = queue_items q \<and> q_len q' < q_cap q'"
  using assms by (auto simp: queue_invar_def queue_items_def shift_slots_nth)

lemma regrow_nth: "i < length xs \<Longrightarrow> i < n \<Longrightarrow> regrow n xs ! i = xs ! i"
  by (simp add: regrow_def nth_append)

lemma length_regrow [simp]: "length (regrow n xs) = n"
  by (auto simp: regrow_def)


definition queue_blocks :: "'s mcp_queue \<Rightarrow> int" where
  "queue_blocks q = 1 + array_blocks (length (q_sessions q)) + array_blocks (length (q_msgs q))"

lemma wp_queue_grow:
  assumes inv: "queue_invar q"
    and ok: "\<And>q' h'. queue_invar q' \<Longrightarrow> queue_items q' = queue_items q \<Longrightarrow> q_len q' = q_len q \<Longrightarrow> q_head q' = 0 \<Longrightarrow>
      q_len q' < q_cap q' \<Longrightarrow> steps (queue_blocks q' - queue_blocks q) h h' \<Longrightarrow> Q (MCP_OK, q') h'"
    and fail: "\<And>q' h'. script h \<noteq> [] \<Longrightarrow> queue_invar q' \<Longrightarrow> queue_items q' = queue_items q \<Longrightarrow> q_len q' = q_len q \<Longrightarrow>
      steps (queue_blocks q' - queue_blocks q) h h' \<Longrightarrow> Q (MCP_ERR_NOMEM, q') h'"
  shows "wp (queue_grow q) Q h"
proof (cases "0 < q_head q")
  case True
  then show ?thesis using queue_items_at_front [OF inv True]
    by (auto simp: queue_grow_def Let_def queue_blocks_def intro!: ok)
next
  case False
  show ?thesis
  proof (cases "q_len q < q_cap q")
    case True
    then show ?thesis using False inv by (auto simp: queue_grow_def intro!: ok)
  next
    case full: False
    define ncap where "ncap = (if q_cap q = 0 then 8 else q_cap q * 2)"
    have ncap: "q_cap q < ncap" by (simp add: ncap_def)
    have len: "q_len q = q_cap q" "q_head q = 0" using full False inv by (auto simp: queue_invar_def)
    define q1 where "q1 = q\<lparr>q_msgs := regrow ncap (q_msgs q)\<rparr>"
    define q2 where "q2 = q1\<lparr>q_sessions := regrow ncap (q_sessions q1), q_cap := ncap\<rparr>"
    have q1: "queue_invar q1" "queue_items q1 = queue_items q" "q_len q1 = q_len q"
      using inv ncap len by (auto simp: q1_def queue_invar_def queue_items_def regrow_nth)
    have q2: "queue_invar q2" "queue_items q2 = queue_items q" "q_len q2 = q_len q" "q_head q2 = 0" "q_len q2 < q_cap q2"
      using inv ncap len by (auto simp: q1_def q2_def queue_invar_def queue_items_def regrow_nth)
    have b1: "queue_blocks q1 = queue_blocks q + (if q_msgs q = [] then 1 else 0)"
      and b2: "queue_blocks q2 = queue_blocks q1 + (if q_sessions q1 = [] then 1 else 0)"
      using ncap by (auto simp: queue_blocks_def q1_def q2_def array_blocks_def)
    have run: "queue_grow q = do { ok \<leftarrow> xrealloc (q_msgs q \<noteq> []);
        (if \<not> ok then ret (MCP_ERR_NOMEM, q)
         else do { ok \<leftarrow> xrealloc (q_sessions q1 \<noteq> []);
           (if \<not> ok then ret (MCP_ERR_NOMEM, q1) else ret (MCP_OK, q2)) }) }"
      using full False by (simp add: queue_grow_def Let_def q1_def q2_def ncap_def cong: if_cong)
    show ?thesis unfolding run wp_bind
      apply (rule wp_xrealloc)
      subgoal for a h1
        apply (cases a)
        subgoal
          apply (simp only: not_True_eq_False if_False wp_bind)
          apply (rule wp_xrealloc)
          subgoal for b h2
            apply (cases b)
            subgoal using b1 b2 q2 by (auto intro!: ok simp: steps_def)
            subgoal using b1 q1 by (auto intro!: fail simp: steps_def)
            done
          done
        subgoal using inv by (auto intro!: fail simp: steps_def)
        done
      done

  qed
qed

section \<open>First in, first out\<close>

text \<open>The interface that the server loop uses, and what follows from it for any interleaving of
  its operations.\<close>

datatype 'x queue_op = Push 'x | Pop

text \<open>A run of operations returns the accepted items and the items taken out, each in order.\<close>

fun run_ops ::
  "('x \<Rightarrow> 'q \<Rightarrow> ('z heap_scheme, bool \<times> 'q) state) \<Rightarrow> ('q \<Rightarrow> 'x option \<times> 'q) \<Rightarrow> 'x queue_op list \<Rightarrow> 'q \<Rightarrow>
   ('z heap_scheme, 'x list \<times> 'x list \<times> 'q) state" where
  "run_ops push pop [] q = ret ([], [], q)"
| "run_ops push pop (Push x # ops) q = do {
     r \<leftarrow> push x q;
     s \<leftarrow> run_ops push pop ops (snd r);
     ret ((if fst r then [x] else []) @ fst s, snd s)
   }"
| "run_ops push pop (Pop # ops) q = do {
     s \<leftarrow> run_ops push pop ops (snd (pop q));
     ret (fst s, (case fst (pop q) of None \<Rightarrow> [] | Some x \<Rightarrow> [x]) @ fst (snd s), snd (snd s))
   }"

locale fifo =
  fixes invar :: "'q \<Rightarrow> bool" and items :: "'q \<Rightarrow> 'x list"
    and push :: "'x \<Rightarrow> 'q \<Rightarrow> ('z heap_scheme, bool \<times> 'q) state" and pop :: "'q \<Rightarrow> 'x option \<times> 'q" and limit :: nat
  assumes push_law: "invar q \<Longrightarrow> wp (push x q) (\<lambda>r h'. invar (snd r) \<and> (script h = [] \<longrightarrow> script h' = []) \<and>
      items (snd r) = items q @ (if fst r then [x] else []) \<and>
      (script h = [] \<longrightarrow> fst r = (length (items q) < limit))) h"
    and pop_law: "invar q \<Longrightarrow> (case items q of [] \<Rightarrow> pop q = (None, q)
      | x # xs \<Rightarrow> fst (pop q) = Some x \<and> invar (snd (pop q)) \<and> items (snd (pop q)) = xs)"
begin

lemma run_ops_fifo:
  "invar q \<Longrightarrow> wp (run_ops push pop ops q) (\<lambda>r h'. invar (snd (snd r)) \<and>
     items q @ fst r = fst (snd r) @ items (snd (snd r))) h"
proof (induction ops arbitrary: q h)
  case (Cons a ops q h)
  show ?case
  proof (cases a)
    case (Push x)
    show ?thesis unfolding Push run_ops.simps wp_bind
    proof (rule wp_mono [OF push_law [OF Cons.prems]], goal_cases)
      case (1 r h1)
      then show ?case unfolding wp_bind wp_return
        by (intro wp_mono [OF Cons.IH]) auto
    qed
  next
    case Pop
    have "invar (snd (pop q)) \<and> items q = (case fst (pop q) of None \<Rightarrow> [] | Some x \<Rightarrow> [x]) @ items (snd (pop q))"
      using pop_law [OF Cons.prems] Cons.prems by (auto split: list.splits)
    then show ?thesis unfolding Pop run_ops.simps wp_bind wp_return
      by (intro wp_mono [OF Cons.IH]) auto
  qed
qed simp

end

lemma queue_items_simps:
  "length (queue_items q) = q_len q" "queue_items q = [] \<longleftrightarrow> q_len q = 0"
  by (simp_all add: queue_items_def)

lemma queue_slot:
  fixes q :: "'s mcp_queue" and s :: 's and m :: mcp_message
  assumes inv: "queue_invar q" and "q_head q = 0" and "q_len q < q_cap q" and "q_len q < MCP_QUEUE_MAX_LEN"
  defines "q' \<equiv> q\<lparr>q_sessions := (q_sessions q)[q_len q := Some s], q_msgs := (q_msgs q)[q_len q := Some m],
    q_len := q_len q + 1\<rparr>"
  shows "queue_invar q' \<and> queue_items q' = queue_items q @ [(s, m)] \<and> queue_blocks q' = queue_blocks q"
proof -
  have "queue_invar q'" using assms by (auto simp: queue_invar_def nth_list_update less_Suc_eq)
  moreover have "queue_items q' = queue_items q @ [(s, m)]"
    using assms by (auto simp: queue_invar_def queue_items_def nth_list_update)
  ultimately show ?thesis by (simp add: q'_def queue_blocks_def)
qed

lemma wp_queue_push:
  assumes inv: "queue_invar q" and room: "q_len q < MCP_QUEUE_MAX_LEN"
    and ok: "\<And>q' h'. queue_invar q' \<Longrightarrow> queue_items q' = queue_items q @ [(s, m)] \<Longrightarrow>
      steps (queue_blocks q' - queue_blocks q) h h' \<Longrightarrow> Q (MCP_OK, Some q') h'"
    and fail: "\<And>q' h'. script h \<noteq> [] \<Longrightarrow> queue_invar q' \<Longrightarrow> queue_items q' = queue_items q \<Longrightarrow>
      steps (queue_blocks q' - queue_blocks q) h h' \<Longrightarrow> Q (MCP_ERR_NOMEM, Some q') h'"
  shows "wp (mcp_queue_push (Some q) (Some s) (Some m)) Q h"
proof -
  have nfull: "\<not> MCP_QUEUE_MAX_LEN \<le> q_len q" using room by simp
  show ?thesis
    unfolding mcp_queue_push_def option.case some_none simp_thms if_False if_not_P [OF nfull] wp_bind
  proof (rule_tac wp_queue_grow [OF inv], goal_cases)
    case (1 q' h')
    then show ?case using ok queue_slot [where q = q' and s = s and m = m] room by (auto simp: Let_def)
  next
    case (2 q' h')
    then show ?case using fail by simp
  qed
qed

definition queue_push :: "'s \<times> mcp_message \<Rightarrow> 's mcp_queue \<Rightarrow> ('z heap_scheme, bool \<times> 's mcp_queue) state" where
  "queue_push x q = do {
     r \<leftarrow> mcp_queue_push (Some q) (Some (fst x)) (Some (snd x));
     ret (fst r = MCP_OK, case snd r of None \<Rightarrow> q | Some q' \<Rightarrow> q')
   }"

definition queue_pop :: "'s mcp_queue \<Rightarrow> ('s \<times> mcp_message) option \<times> 's mcp_queue" where
  "queue_pop q =
     (case mcp_queue_pop (Some q) of
        (st, (s, m), q') \<Rightarrow>
          (if st = MCP_OK then (case (s, m) of (Some s, Some m) \<Rightarrow> Some (s, m) | _ \<Rightarrow> None) else None,
           case q' of None \<Rightarrow> q | Some q' \<Rightarrow> q'))"

lemma mcp_queue_pop_items:
  assumes inv: "queue_invar q" and "queue_items q = (s, m) # xs"
  shows "\<exists>q'. mcp_queue_pop (Some q) = (MCP_OK, (Some s, Some m), Some q') \<and> queue_invar q' \<and>
    queue_items q' = xs \<and> queue_blocks q' = queue_blocks q"
proof -
  let ?q = "q\<lparr>q_head := (q_head q + 1) mod q_cap q, q_len := q_len q - 1\<rparr>"
  have len: "0 < q_len q" using assms(2) queue_items_simps(2) [of q] by simp
  then have cap: "q_head q + q_len q \<le> q_cap q" "0 < q_cap q" using inv by (auto simp: queue_invar_def)
  have hd: "hd (queue_items q) = (the (q_sessions q ! q_head q), the (q_msgs q ! q_head q))"
    using len by (simp add: queue_items_def upt_conv_Cons)
  have slots: "q_sessions q ! q_head q \<noteq> None" "q_msgs q ! q_head q \<noteq> None"
    using inv len by (auto simp: queue_invar_def dest: spec [of _ 0])
  have tl: "queue_items ?q = tl (queue_items q)" "queue_invar ?q"
  proof -
    have move: "q_len q = 1 \<or> (q_head q + 1) mod q_cap q = q_head q + 1"
      using cap len by (cases "q_len q = 1") simp_all
    show "queue_items ?q = tl (queue_items q)"
      using move by (intro nth_equalityI) (auto simp: queue_items_def nth_tl)
    have "q_sessions q ! (q_head q + Suc i) \<noteq> None \<and> q_msgs q ! (q_head q + Suc i) \<noteq> None" if "i < q_len q - 1" for i
    proof -
      have "Suc i < q_len q" using that by simp
      with inv show ?thesis unfolding queue_invar_def by blast
    qed
    then show "queue_invar ?q" using move inv len cap by (auto simp: queue_invar_def)
  qed
  show ?thesis
    using assms(2) len hd slots tl by (auto simp: mcp_queue_pop_def queue_blocks_def)
qed

interpretation server_queue: fifo queue_invar queue_items queue_push queue_pop MCP_QUEUE_MAX_LEN
proof unfold_locales
  fix q :: "'s mcp_queue" and x :: "'s \<times> mcp_message" and h :: "'z heap_scheme"
  assume inv: "queue_invar q"
  obtain s m where x: "x = (s, m)" by (cases x)
  show "wp (queue_push x q) (\<lambda>r h'. queue_invar (snd r) \<and> (script h = [] \<longrightarrow> script h' = []) \<and>
      queue_items (snd r) = queue_items q @ (if fst r then [x] else []) \<and>
      (script h = [] \<longrightarrow> fst r = (length (queue_items q) < MCP_QUEUE_MAX_LEN))) h"
  proof (cases "q_len q < MCP_QUEUE_MAX_LEN")
    case True
    show ?thesis unfolding queue_push_def wp_bind wp_return x fst_conv snd_conv
      by (rule wp_queue_push [OF inv True]) (auto simp: steps_def queue_items_simps True)
  qed (use inv in \<open>simp add: queue_push_def mcp_queue_push_def queue_items_simps\<close>)
next
  fix q :: "'s mcp_queue"
  assume inv: "queue_invar q"
  show "case queue_items q of [] \<Rightarrow> queue_pop q = (None, q)
      | x # xs \<Rightarrow> fst (queue_pop q) = Some x \<and> queue_invar (snd (queue_pop q)) \<and> queue_items (snd (queue_pop q)) = xs"
  proof (cases "queue_items q")
    case Nil
    then have "q_len q = 0" by (simp add: queue_items_simps)
    then have "queue_pop q = (None, q)" by (simp add: queue_pop_def mcp_queue_pop_def)
    with Nil show ?thesis by simp
  next
    case (Cons x xs)
    then show ?thesis using mcp_queue_pop_items [OF inv, of "fst x" "snd x" xs] by (auto simp: queue_pop_def)
  qed
qed

text \<open>
  C9: the server queue is first in, first out, for any interleaving of pushes and pops and any
  behaviour of the allocator. Starting from a well-formed queue, the items that were in the
  queue followed by those that a push accepted are exactly the items that were taken out, in
  that order, followed by those still in the queue; a push that is refused loses nothing else.
\<close>

theorem mcp_queue_fifo:
  assumes "queue_invar q"
  shows "wp (run_ops queue_push queue_pop ops q) (\<lambda>(accepted, taken, q') h'.
     queue_invar q' \<and> queue_items q @ accepted = taken @ queue_items q') h"
  using server_queue.run_ops_fifo [OF assms, of ops h] by (auto elim!: wp_mono)

definition sample_msg :: "string \<Rightarrow> mcp_message" where
  "sample_msg s = \<lparr>dom = JString s\<rparr>"

theorem mcp_queue_fifo_witness:
  "wp (run_ops queue_push queue_pop [Push (1 :: nat, sample_msg ''a''), Push (2, sample_msg ''b''), Pop, Push (1, sample_msg ''c''), Pop, Pop, Pop]
      \<lparr>q_sessions = [], q_msgs = [], q_head = 0, q_len = 0, q_cap = 0\<rparr>) (\<lambda>(accepted, taken, q') h'.
     queue_invar q' \<and> accepted = taken @ queue_items q') \<lparr>live = 1, script = [True, False]\<rparr>"
proof -
  define q where "q = \<lparr>q_sessions = [] :: nat option list, q_msgs = [], q_head = 0, q_len = 0, q_cap = 0\<rparr>"
  have "queue_invar q" and items: "queue_items q = []"
    by (simp_all add: q_def queue_invar_def queue_items_def)
  from mcp_queue_fifo [OF this(1)] show ?thesis unfolding items append_Nil unfolding q_def .
qed

section \<open>Ownership\<close>

definition msg_blocks :: "mcp_message \<Rightarrow> int" where
  "msg_blocks m = 1 + blocks (dom m)"

definition queue_owned :: "'s mcp_queue \<Rightarrow> int" where
  "queue_owned q = queue_blocks q + sum_list (map (msg_blocks \<circ> snd) (queue_items q))"

lemma wp_message_destroy [simp]:
  "wp (mcp_message_destroy (Some m)) Q h = Q () (h\<lparr>live := live h - msg_blocks m\<rparr>)"
  by (simp add: mcp_message_destroy_def msg_blocks_def algebra_simps)

lemma wp_destroy_queued:
  assumes "queue_invar q"
  shows "n \<le> q_len q \<Longrightarrow> wp (destroy_queued q n) Q h =
    Q () (h\<lparr>live := live h - sum_list (map (msg_blocks \<circ> snd) (take n (queue_items q)))\<rparr>)"
proof (induction n arbitrary: Q)
  case (Suc n)
  have slot: "(q_head q + n) mod q_cap q = q_head q + n"
    using assms Suc.prems by (auto simp: queue_invar_def)
  have "q_msgs q ! (q_head q + n) \<noteq> None" using assms Suc.prems by (auto simp: queue_invar_def)
  then obtain m where m: "q_msgs q ! (q_head q + n) = Some m" by auto
  have "snd (queue_items q ! n) = m" using m Suc.prems by (simp add: queue_items_def)
  then show ?case using Suc m slot
    by (simp add: take_Suc_conv_app_nth queue_items_simps algebra_simps)
qed simp

text \<open>
  Destroying a well-formed queue gives back exactly what it owns: its own block, its arrays
  and every message that is still queued, each once.
\<close>

lemma mcp_queue_destroy_frees:
  assumes "queue_invar q"
  shows "run_state (mcp_queue_destroy (Some q)) h = ((), h\<lparr>live := live h - queue_owned q\<rparr>)"
proof -
  have "wp (mcp_queue_destroy (Some q)) (\<lambda>u h1. (u, h1) = ((), h\<lparr>live := live h - queue_owned q\<rparr>)) h"
    by (simp add: wp_destroy_queued [OF assms order_refl] mcp_queue_destroy_def queue_owned_def queue_blocks_def array_blocks_def queue_items_simps)
  then show ?thesis by (simp add: wp_run_state prod_eq_iff)
qed

end
