(* ===== verification/Logger.thy ===== *)
theory Logger
  imports Mcp_Prelude
begin

text \<open>
  Logging (\<open>src/src/logging/logger.c\<close>): a level filter in front of a sink. The sink is a callback of
  the host; what it is given is collected in \<open>sunk\<close>, oldest first. A format with its
  arguments is the text that it describes, cut to the buffer of 256 bytes.
\<close>

datatype mcp_log_level = MCP_LOG_DEBUG | MCP_LOG_INFO | MCP_LOG_WARN | MCP_LOG_ERROR

fun level_num :: "mcp_log_level \<Rightarrow> nat" where
  "level_num MCP_LOG_DEBUG = 0"
| "level_num MCP_LOG_INFO = 1"
| "level_num MCP_LOG_WARN = 2"
| "level_num MCP_LOG_ERROR = 3"

lemma level_num_inject: "level_num x = level_num y \<longleftrightarrow> x = y"
  by (cases x; cases y) simp_all

text \<open>The levels are ordered as their numbers are.\<close>

instantiation mcp_log_level :: linorder
begin

definition less_eq_mcp_log_level :: "mcp_log_level \<Rightarrow> mcp_log_level \<Rightarrow> bool" where
  "x \<le> y \<longleftrightarrow> level_num x \<le> level_num y"

definition less_mcp_log_level :: "mcp_log_level \<Rightarrow> mcp_log_level \<Rightarrow> bool" where
  "x < y \<longleftrightarrow> level_num x < level_num y"

instance
  by standard (auto simp: less_eq_mcp_log_level_def less_mcp_log_level_def level_num_inject [symmetric])

end

definition mcp_log_level_string :: "mcp_log_level \<Rightarrow> string" where
  "mcp_log_level_string level =
     (case level of
        MCP_LOG_DEBUG \<Rightarrow> ''DEBUG''
      | MCP_LOG_INFO \<Rightarrow> ''INFO''
      | MCP_LOG_WARN \<Rightarrow> ''WARN''
      | MCP_LOG_ERROR \<Rightarrow> ''ERROR'')"

record mcp_logger =
  lg_level :: mcp_log_level
  sunk :: "(mcp_log_level \<times> string) list"

definition mcp_logger_create :: "('z heap_scheme, mcp_logger option) state" where
  "mcp_logger_create = do {
     ok \<leftarrow> xmalloc;
     ret (if ok then Some \<lparr>lg_level = MCP_LOG_DEBUG, sunk = []\<rparr> else None)
   }"

definition mcp_logger_destroy :: "mcp_logger option \<Rightarrow> ('z heap_scheme, unit) state" where
  "mcp_logger_destroy lg = (if lg = None then ret () else xfree True)"

definition mcp_logger_set_level :: "mcp_logger option \<Rightarrow> mcp_log_level \<Rightarrow> mcp_logger option" where
  "mcp_logger_set_level lg level = map_option (\<lambda>l. l\<lparr>lg_level := level\<rparr>) lg"

definition mcp_logger_get_level :: "mcp_logger option \<Rightarrow> mcp_log_level" where
  "mcp_logger_get_level lg = (case lg of None \<Rightarrow> MCP_LOG_ERROR | Some l \<Rightarrow> lg_level l)"

definition mcp_logger_log :: "mcp_logger option \<Rightarrow> mcp_log_level \<Rightarrow> string option \<Rightarrow> mcp_logger option" where
  "mcp_logger_log lg level message =
     (case (lg, message) of
        (Some l, Some m) \<Rightarrow> if level < lg_level l then lg else Some (l\<lparr>sunk := sunk l @ [(level, m)]\<rparr>)
      | _ \<Rightarrow> lg)"

definition mcp_logger_logf :: "mcp_logger option \<Rightarrow> mcp_log_level \<Rightarrow> string option \<Rightarrow> mcp_logger option" where
  "mcp_logger_logf lg level formatted =
     (case (lg, formatted) of
        (Some l, Some m) \<Rightarrow> if level < lg_level l then lg else Some (l\<lparr>sunk := sunk l @ [(level, take 255 m)]\<rparr>)
      | _ \<Rightarrow> lg)"

text \<open>Nothing below the level of the logger reaches the sink, and nothing at or above it is lost.\<close>

lemma logger_filters:
  "fold (\<lambda>(level, m) lg. mcp_logger_log lg level (Some m)) ms (Some l) =
     Some (l\<lparr>sunk := sunk l @ filter (\<lambda>(level, m). lg_level l \<le> level) ms\<rparr>)"
  by (induction ms arbitrary: l) (auto simp: mcp_logger_log_def not_less)

end
