(* ===== verification/Dispatcher.thy ===== *)
theory Dispatcher
  imports Session Queue Logger
begin

text \<open>
  The dispatch pipeline of the server (\<open>src/src/server/dispatcher.c\<close>, and \<open>mcp_server_process_one\<close>
  of \<open>src/src/server/queue.c\<close>): validation, the session gate, the check for duplicate ids, the router.
  The router \<open>mcp_server_route_request\<close> is a parameter \<open>route\<close>, so that what is shown
  holds for every set of handlers; it may change the server, the session and the heap. What
  the server's tracer is told is collected in \<open>traced\<close>; \<open>t0\<close> and \<open>t1\<close> are the readings
  of the clock at the two ends of a call.
\<close>

section \<open>The server\<close>

datatype trace_event = MCP_TRACE_BEGIN string | MCP_TRACE_END string int "64 word"

text \<open>The part of \<open>struct mcp_server\<close> that the dispatcher uses; the router's part is the extension.\<close>

record mcp_server =
  c_requests_total :: "64 word"
  c_requests_error :: "64 word"
  c_notifications_total :: "64 word"
  tracer :: bool
  traced :: "trace_event list"
  log_floor :: mcp_log_level
  logger :: "mcp_logger option"

type_synonym ('z, 'r) router =
  "'r mcp_server_scheme \<Rightarrow> mcp_session \<Rightarrow> mcp_message \<Rightarrow> string \<Rightarrow>
   ('z heap_scheme, mcp_message option \<times> 'r mcp_server_scheme \<times> mcp_session) state"

definition err_resp :: "mcp_message \<Rightarrow> int \<Rightarrow> string \<Rightarrow> ('z heap_scheme, mcp_message option) state" where
  "err_resp req rpc_code msg = mcp_response_err_new (Some req) rpc_code (Some msg) None"

definition dlogf_srv :: "mcp_log_level \<Rightarrow> string \<Rightarrow> 'r mcp_server_scheme \<Rightarrow> 'r mcp_server_scheme" where
  "dlogf_srv level formatted srv =
     (if level < log_floor srv then srv
      else srv\<lparr>logger := mcp_logger_log (logger srv) level (Some (take 255 formatted))\<rparr>)"

definition trace_begin :: "string \<Rightarrow> 'r mcp_server_scheme \<Rightarrow> 'r mcp_server_scheme" where
  "trace_begin m srv = (if tracer srv then srv\<lparr>traced := traced srv @ [MCP_TRACE_BEGIN m]\<rparr> else srv)"

definition trace_end :: "string \<Rightarrow> 64 word \<Rightarrow> 64 word \<Rightarrow> int \<Rightarrow> 'r mcp_server_scheme \<Rightarrow> 'r mcp_server_scheme" where
  "trace_end m t0 t1 status srv =
     (if tracer srv then srv\<lparr>traced := traced srv @ [MCP_TRACE_END m status (t1 - t0)]\<rparr> else srv)"

text \<open>The decimal text of an int, as \<open>%d\<close> prints it.\<close>

fun dec_nat :: "nat \<Rightarrow> string" where
  "dec_nat n = (if n < 10 then [char_of (48 + n)] else dec_nat (n div 10) @ [char_of (48 + n mod 10)])"

definition dec_int :: "int \<Rightarrow> string" where
  "dec_int i = (if i < 0 then CHR ''-'' # dec_nat (nat (- i)) else dec_nat (nat i))"

section \<open>Dispatching a request\<close>

type_synonym 'r dispatched = "(mcp_status \<times> mcp_message option) \<times> 'r mcp_server_scheme option \<times> mcp_session option"

text \<open>An error exit: a log line, one more error, and the error response.\<close>

definition refuse ::
  "mcp_log_level \<Rightarrow> string \<Rightarrow> int \<Rightarrow> string \<Rightarrow> 'r mcp_server_scheme \<Rightarrow> mcp_session \<Rightarrow> mcp_message \<Rightarrow>
   ('z heap_scheme, 'r dispatched) state" where
  "refuse level event rpc_code msg srv s req =
     (let srv = dlogf_srv level event srv; srv = srv\<lparr>c_requests_error := c_requests_error srv + 1\<rparr> in do {
        resp \<leftarrow> err_resp req rpc_code msg;
        ret ((if resp = None then MCP_ERR_NOMEM else MCP_OK, resp), Some srv, Some s)
      })"

definition request_log_level :: "mcp_message \<Rightarrow> mcp_log_level option" where
  "request_log_level req =
     (case mcp_message_meta (Some req) of
        None \<Rightarrow> None
      | Some meta \<Rightarrow>
          let lv = mcp_json_object_get (Some meta) ''io.modelcontextprotocol/logLevel'';
              lv = (if lv = None then mcp_json_object_get (Some meta) ''logLevel'' else lv)
          in (case mcp_json_string_value lv of
                None \<Rightarrow> None
              | Some lvl \<Rightarrow>
                  if lvl = ''debug'' then Some MCP_LOG_DEBUG
                  else if lvl = ''info'' \<or> lvl = ''notice'' then Some MCP_LOG_INFO
                  else if lvl = ''warning'' \<or> lvl = ''warn'' then Some MCP_LOG_WARN
                  else if lvl = ''error'' then Some MCP_LOG_ERROR
                  else None))"

definition apply_log_level :: "mcp_message \<Rightarrow> 'r mcp_server_scheme \<Rightarrow> 'r mcp_server_scheme" where
  "apply_log_level req srv = (case request_log_level req of None \<Rightarrow> srv | Some l \<Rightarrow> srv\<lparr>log_floor := l\<rparr>)"

definition run_route ::
  "('z, 'r) router \<Rightarrow> 64 word \<Rightarrow> 64 word \<Rightarrow> 'r mcp_server_scheme \<Rightarrow> mcp_session \<Rightarrow> mcp_message \<Rightarrow> string \<Rightarrow>
   ('z heap_scheme, 'r dispatched) state" where
  "run_route route now0 now1 srv s req m =
     (let t0 = (if tracer srv then now0 else 0); srv = trace_begin m srv in do {
        (resp, srv, s) \<leftarrow> route srv s req m;
        (case resp of
           None \<Rightarrow>
             let srv = dlogf_srv MCP_LOG_ERROR (''event=route_failed method='' @ m) srv;
                 srv = srv\<lparr>c_requests_error := c_requests_error srv + 1\<rparr>;
                 srv = trace_end m t0 now1 MCP_RPC_INTERNAL_ERROR srv
             in do {
               resp \<leftarrow> err_resp req MCP_RPC_INTERNAL_ERROR ''internal error'';
               ret ((if resp = None then MCP_ERR_NOMEM else MCP_OK, resp), Some srv, Some s)
             }
         | Some r \<Rightarrow>
             let end_status = (case mcp_message_error_code resp of None \<Rightarrow> 0 | Some ecode \<Rightarrow> ecode);
                 srv = (if end_status \<noteq> 0 then srv\<lparr>c_requests_error := c_requests_error srv + 1\<rparr> else srv)
             in ret ((MCP_OK, resp), Some (trace_end m t0 now1 end_status srv), Some s))
      })"

definition id_arg_of :: "mcp_message \<Rightarrow> id_arg" where
  "id_arg_of req =
     (mcp_message_id_type (Some req), mcp_message_id_string (Some req),
      case mcp_message_id_number (Some req) of None \<Rightarrow> double_of_int 0 | Some n \<Rightarrow> n)"

definition track_id ::
  "('z, 'r) router \<Rightarrow> 64 word \<Rightarrow> 64 word \<Rightarrow> 'r mcp_server_scheme \<Rightarrow> mcp_session \<Rightarrow> mcp_message \<Rightarrow> string \<Rightarrow>
   ('z heap_scheme, 'r dispatched) state" where
  "track_id route t0 t1 srv s req m =
     (case id_arg_of req of
        (id_type, id_str, id_num) \<Rightarrow>
          if id_type = MCP_ID_NONE then run_route route t0 t1 srv s req m
          else if mcp_idset_contains (ses_ids s) id_type id_str id_num
          then refuse MCP_LOG_WARN (''event=duplicate_id method='' @ m) MCP_RPC_INVALID_REQUEST
                 ''duplicate request id'' srv s req
          else do {
            r \<leftarrow> mcp_idset_add (ses_ids s) id_type id_str id_num;
            let s = s\<lparr>ses_ids := snd r\<rparr>;
            (if fst r \<noteq> MCP_OK
             then refuse MCP_LOG_ERROR (''event=id_tracking_failed method='' @ m) MCP_RPC_INTERNAL_ERROR
                    ''id tracking failed'' srv s req
             else run_route route t0 t1 srv s req m)
          })"

definition mcp_server_dispatch ::
  "('z, 'r) router \<Rightarrow> 64 word \<Rightarrow> 64 word \<Rightarrow> 'r mcp_server_scheme option \<Rightarrow> mcp_session option \<Rightarrow> mcp_message option \<Rightarrow>
   ('z heap_scheme, 'r dispatched) state" where
  "mcp_server_dispatch route t0 t1 server session request =
     (case (server, session, request) of
        (Some srv, Some s, Some req) \<Rightarrow>
          if mcp_message_kind request \<noteq> MCP_MSG_REQUEST then ret ((MCP_ERR_INVALID_ARGUMENT, None), server, session)
          else
            let srv = srv\<lparr>c_requests_total := c_requests_total srv + 1\<rparr>;
                (st, rpc_code) = mcp_message_validate request
            in if st \<noteq> MCP_OK
               then refuse MCP_LOG_WARN (''event=invalid_request code='' @ dec_int rpc_code) rpc_code ''invalid request'' srv s req
               else (case mcp_message_method request of
                 None \<Rightarrow> refuse MCP_LOG_WARN ''event=missing_method'' MCP_RPC_INVALID_REQUEST ''missing method'' srv s req
               | Some m \<Rightarrow>
                   let srv = apply_log_level req srv;
                       is_stateless = (mcp_message_meta request \<noteq> None);
                       is_discover = (m = ''server/discover'')
                   in if \<not> initialized s \<and> m \<noteq> ''initialize'' \<and> \<not> is_discover \<and> \<not> is_stateless
                      then refuse MCP_LOG_WARN (''event=uninitialized method='' @ m) MCP_RPC_INVALID_REQUEST
                             ''session not initialized'' srv s req
                      else track_id route t0 t1 srv s req m)
      | _ \<Rightarrow> ret ((MCP_ERR_INVALID_ARGUMENT, None), server, session))"

section \<open>Notifications\<close>

definition mcp_server_notify ::
  "'r mcp_server_scheme option \<Rightarrow> mcp_session option \<Rightarrow> mcp_message option \<Rightarrow>
   mcp_status \<times> 'r mcp_server_scheme option \<times> mcp_session option" where
  "mcp_server_notify server session notif =
     (case (server, session, notif) of
        (Some srv, Some s, Some n) \<Rightarrow>
          if mcp_message_kind notif \<noteq> MCP_MSG_NOTIFICATION then (MCP_ERR_INVALID_ARGUMENT, server, session)
          else (case mcp_message_method notif of
            None \<Rightarrow> (MCP_OK, server, session)
          | Some m \<Rightarrow>
              let s = (if m = ''notifications/initialized'' then s\<lparr>initialized := True\<rparr>
                       else if m = ''notifications/cancelled'' then s\<lparr>subscription_active := False\<rparr> else s);
                  advanced = (m \<in> set k_mcp_server_notifications);
                  srv = (if advanced then dlogf_srv MCP_LOG_DEBUG (''event=notification method='' @ m) srv else srv)
              in (MCP_OK, Some (srv\<lparr>c_notifications_total := c_notifications_total srv + 1\<rparr>), Some s))
      | _ \<Rightarrow> (MCP_ERR_INVALID_ARGUMENT, server, session))"

section \<open>Processing the queue\<close>

text \<open>The queue holds the addresses of sessions; \<open>mem\<close> has the sessions that are there.\<close>

definition mcp_server_process_one ::
  "('z, 'r) router \<Rightarrow> 64 word \<Rightarrow> 64 word \<Rightarrow> 'r mcp_server_scheme option \<Rightarrow> (nat \<rightharpoonup> mcp_session) \<Rightarrow> nat mcp_queue option \<Rightarrow>
   ('z heap_scheme, (mcp_status \<times> mcp_message option) \<times> 'r mcp_server_scheme option \<times> (nat \<rightharpoonup> mcp_session) \<times>
      nat mcp_queue option) state" where
  "mcp_server_process_one route t0 t1 server mem q =
     (if server = None \<or> q = None then ret ((MCP_ERR_INVALID_ARGUMENT, None), server, mem, q)
      else (case mcp_queue_pop q of
        (st, (addr, msg), q') \<Rightarrow>
          if st \<noteq> MCP_OK then ret ((MCP_ERR_NOT_FOUND, None), server, mem, q')
          else
            let session = (case addr of None \<Rightarrow> None | Some a \<Rightarrow> mem a);
                store = (\<lambda>s. case addr of None \<Rightarrow> mem | Some a \<Rightarrow> mem(a := s))
            in if mcp_message_kind msg = MCP_MSG_NOTIFICATION
               then (case mcp_server_notify server session msg of
                 (st, server, session) \<Rightarrow> do {
                   mcp_message_destroy msg;
                   ret ((st, None), server, store session, q')
                 })
               else do {
                 (out, server, session) \<leftarrow> mcp_server_dispatch route t0 t1 server session msg;
                 mcp_message_destroy msg;
                 ret (out, server, store session, q')
               }))"

section \<open>Which requests are routed\<close>

declare dec_nat.simps [simp del]

definition session_ok :: "mcp_session \<Rightarrow> bool" where
  "session_ok s \<longleftrightarrow> (case ses_ids s of None \<Rightarrow> False | Some ids \<Rightarrow> ids_invar ids)"

definition seen :: "mcp_session \<Rightarrow> rpc_id set" where
  "seen s = (case ses_ids s of None \<Rightarrow> {} | Some ids \<Rightarrow> ids_abs ids)"

definition request_id :: "mcp_message \<Rightarrow> rpc_id" where
  "request_id req = id_of (id_arg_of req)"

text \<open>The session gate: before the handshake is complete only the methods that start it are
  served, and requests that carry their own \<open>_meta\<close>.\<close>

definition gate_open :: "mcp_session \<Rightarrow> mcp_message \<Rightarrow> bool" where
  "gate_open s req \<longleftrightarrow> initialized s \<or> mcp_message_method (Some req) \<in> {Some ''initialize'', Some ''server/discover''} \<or>
     mcp_message_meta (Some req) \<noteq> None"

definition admitted :: "mcp_session \<Rightarrow> mcp_message \<Rightarrow> bool" where
  "admitted s req \<longleftrightarrow> fst (mcp_message_validate (Some req)) = MCP_OK \<and> gate_open s req \<and> request_id req \<notin> seen s"

lemma valid_request:
  assumes "mcp_message_kind (Some req) = MCP_MSG_REQUEST" and "fst (mcp_message_validate (Some req)) = MCP_OK"
    and "wf_json (dom req)"
  shows "mcp_message_method (Some req) \<noteq> None" and "id_admissible (id_arg_of req)"
proof -
  have *: "mcp_message_id_type (Some req) \<in> {MCP_ID_STRING, MCP_ID_NUMBER}" "mcp_message_method (Some req) \<noteq> None"
    using message_validate_spec [of "Some req"] assms(1,2) unfolding case_prod_beta by simp_all
  show "mcp_message_method (Some req) \<noteq> None" by (rule *(2))
  obtain v where v: "get_key (Some req) ''id'' = Some v"
    using *(1) by (auto simp: mcp_message_id_type_def split: option.splits)
  then have "wf_json v" using wf_object_get [OF assms(3)] by (simp add: get_key_def)
  then show "id_admissible (id_arg_of req)"
    using *(1) v by (cases v) (auto simp: id_arg_of_def mcp_message_id_type_def mcp_message_id_string_def
        mcp_message_id_number_def value_access)
qed

lemma contains_iff:
  assumes "session_ok s" and "id_admissible (id_arg_of req)" and "id_arg_of req = (t, i, n)"
  shows "mcp_idset_contains (ses_ids s) t i n \<longleftrightarrow> request_id req \<in> seen s"
proof -
  obtain ids where ids: "ses_ids s = Some ids" "ids_invar ids"
    using assms(1) by (auto simp: session_ok_def split: option.splits)
  then show ?thesis
    unfolding mcp_idset_contains_def seen_def request_id_def assms(3) ids(1) option.case
    by (intro id_find_iff) (use assms in simp_all)
qed

definition counted :: "'r mcp_server_scheme \<Rightarrow> 'r mcp_server_scheme" where
  "counted srv = srv\<lparr>c_requests_total := c_requests_total srv + 1\<rparr>"

lemma dispatch_request:
  assumes "mcp_message_kind (Some req) = MCP_MSG_REQUEST"
  shows "fst (mcp_message_validate (Some req)) \<noteq> MCP_OK \<Longrightarrow>
      mcp_server_dispatch route t0 t1 (Some srv) (Some s) (Some req) =
        refuse MCP_LOG_WARN (''event=invalid_request code='' @ dec_int (snd (mcp_message_validate (Some req))))
          (snd (mcp_message_validate (Some req))) ''invalid request'' (counted srv) s req"
    and "fst (mcp_message_validate (Some req)) = MCP_OK \<Longrightarrow> mcp_message_method (Some req) = Some m \<Longrightarrow>
      mcp_server_dispatch route t0 t1 (Some srv) (Some s) (Some req) =
        (if gate_open s req then track_id route t0 t1 (apply_log_level req (counted srv)) s req m
         else refuse MCP_LOG_WARN (''event=uninitialized method='' @ m) MCP_RPC_INVALID_REQUEST
           ''session not initialized'' (apply_log_level req (counted srv)) s req)"
  using assms by (simp_all add: mcp_server_dispatch_def counted_def gate_open_def case_prod_beta Let_def)

lemma track_request:
  assumes "id_admissible (id_arg_of req)" and "session_ok s" and "id_arg_of req = (t, i, n)"
  shows "track_id route t0 t1 srv s req m =
     (if request_id req \<in> seen s
      then refuse MCP_LOG_WARN (''event=duplicate_id method='' @ m) MCP_RPC_INVALID_REQUEST
             ''duplicate request id'' srv s req
      else do {
        r \<leftarrow> mcp_idset_add (ses_ids s) t i n;
        (if fst r \<noteq> MCP_OK
         then refuse MCP_LOG_ERROR (''event=id_tracking_failed method='' @ m) MCP_RPC_INTERNAL_ERROR
                ''id tracking failed'' srv (s\<lparr>ses_ids := snd r\<rparr>) req
         else run_route route t0 t1 srv (s\<lparr>ses_ids := snd r\<rparr>) req m)
      })"
proof -
  have "t \<noteq> MCP_ID_NONE" using assms(1,3) by auto
  with contains_iff [OF assms(2,1,3)] show ?thesis by (simp add: track_id_def assms(3) Let_def)
qed

text \<open>A request that is not admitted is refused, whatever the router.\<close>

definition refuse_texts :: "string set" where
  "refuse_texts = {''invalid request'', ''session not initialized'', ''duplicate request id'', ''id tracking failed''}"

lemma refuse_texts_wf: "msg \<in> refuse_texts \<Longrightarrow> wf_text msg"
  by (auto simp: refuse_texts_def wf_text_def utf8_valid_ascii)

lemma dispatch_refused:
  assumes "mcp_message_kind (Some req) = MCP_MSG_REQUEST" and "wf_json (dom req)" and "session_ok s" and "\<not> admitted s req"
  shows "\<exists>level event rpc_code msg srv'.
    (\<forall>route :: ('z, 'r) router. mcp_server_dispatch route t0 t1 (Some srv) (Some s) (Some req) =
       refuse level event rpc_code msg srv' s req) \<and>
    rpc_code \<in> {MCP_RPC_INVALID_REQUEST, MCP_RPC_METHOD_NOT_FOUND, MCP_RPC_INVALID_PARAMS} \<and> msg \<in> refuse_texts \<and>
    srv' \<in> {counted srv, apply_log_level req (counted srv)}"
proof (cases "fst (mcp_message_validate (Some req)) = MCP_OK")
  case False
  have "snd (mcp_message_validate (Some req)) \<in> {MCP_RPC_INVALID_REQUEST, MCP_RPC_METHOD_NOT_FOUND, MCP_RPC_INVALID_PARAMS}"
    using message_validate_spec [of "Some req", unfolded case_prod_beta, THEN conjunct2, THEN conjunct2] if_not_P [OF False]
    by metis
  then show ?thesis
    unfolding refuse_texts_def dispatch_request(1) [OF assms(1) False]
    by (intro exI conjI allI) (rule refl, assumption, simp, simp)
next
  case True
  note valid = valid_request [OF assms(1) True assms(2)]
  obtain m where m: "mcp_message_method (Some req) = Some m" using valid(1) by blast
  obtain t i n where arg: "id_arg_of req = (t, i, n)" by (cases "id_arg_of req")
  show ?thesis
  proof (cases "gate_open s req")
    case False
    then have "mcp_server_dispatch route t0 t1 (Some srv) (Some s) (Some req) =
        refuse MCP_LOG_WARN (''event=uninitialized method='' @ m) MCP_RPC_INVALID_REQUEST
          ''session not initialized'' (apply_log_level req (counted srv)) s req" for route :: "('z, 'r) router"
      by (simp add: dispatch_request(2) [OF assms(1) True m])
    then show ?thesis
      unfolding refuse_texts_def by (intro exI conjI allI) (simp, simp, simp, simp)
  next
    case gate: True
    with assms(4) True have "request_id req \<in> seen s" by (simp add: admitted_def)
    with gate have "mcp_server_dispatch route t0 t1 (Some srv) (Some s) (Some req) =
        refuse MCP_LOG_WARN (''event=duplicate_id method='' @ m) MCP_RPC_INVALID_REQUEST
          ''duplicate request id'' (apply_log_level req (counted srv)) s req" for route :: "('z, 'r) router"
      by (simp add: dispatch_request(2) [OF assms(1) True m] track_request [OF valid(2) assms(3) arg])
    then show ?thesis
      unfolding refuse_texts_def by (intro exI conjI allI) (simp, simp, simp, simp)
  qed
qed

lemma dispatch_admitted:
  assumes "mcp_message_kind (Some req) = MCP_MSG_REQUEST" and "wf_json (dom req)" and "session_ok s" and "admitted s req"
    and "id_arg_of req = (t, i, n)" and "mcp_message_method (Some req) = Some m"
  shows "mcp_server_dispatch route t0 t1 (Some srv) (Some s) (Some req) = do {
        r \<leftarrow> mcp_idset_add (ses_ids s) t i n;
        (if fst r \<noteq> MCP_OK
         then refuse MCP_LOG_ERROR (''event=id_tracking_failed method='' @ m) MCP_RPC_INTERNAL_ERROR
                ''id tracking failed'' (apply_log_level req (counted srv)) (s\<lparr>ses_ids := snd r\<rparr>) req
         else run_route route t0 t1 (apply_log_level req (counted srv)) (s\<lparr>ses_ids := snd r\<rparr>) req m)
      }"
proof -
  have adm: "fst (mcp_message_validate (Some req)) = MCP_OK" "gate_open s req" "request_id req \<notin> seen s"
    using assms(4) by (simp_all add: admitted_def)
  show ?thesis
    unfolding dispatch_request(2) [OF assms(1) adm(1) assms(6)]
      track_request [OF valid_request(2) [OF assms(1) adm(1) assms(2)] assms(3,5)]
    using adm(2,3) by simp
qed

text \<open>A well-formed answer to a refused request.\<close>

definition error_reply :: "mcp_message \<Rightarrow> int \<Rightarrow> string \<Rightarrow> mcp_message \<Rightarrow> bool" where
  "error_reply req rpc_code msg r \<longleftrightarrow> mcp_message_kind (Some r) = MCP_MSG_RESPONSE \<and>
     get_key (Some r) ''id'' = Some (reply_id (Some req)) \<and> mcp_message_error_code (Some r) = Some rpc_code \<and>
     mcp_message_error_text (Some r) = Some msg"

lemma wp_err_resp:
  assumes "wf_json (dom req)" and "\<bar>rpc_code\<bar> < 2 ^ 31" and "wf_text msg"
    and "\<And>r h'. error_reply req rpc_code msg r \<Longrightarrow> steps (msg_blocks r) h h' \<Longrightarrow> Q (Some r) h'"
    and "\<And>h'. script h \<noteq> [] \<Longrightarrow> steps 0 h h' \<Longrightarrow> Q None h'"
  shows "wp (err_resp req rpc_code msg) Q h"
  unfolding err_resp_def
proof (rule wp_mono [OF wp_response_err_new], goal_cases)
  case (3 r h')
  have range: "- (2 ^ 31) \<le> rpc_code" "rpc_code < 2 ^ 31" using assms(2) by linarith+
  show ?case
    using 3 assms(3-5) error_envelope_view [OF range]
    by (cases r) (auto simp: err_post_def error_reply_def msg_blocks_def blocks_opt_def)
qed (use assms in auto)

lemma wp_refuse:
  fixes srv :: "'r mcp_server_scheme"
  assumes "wf_json (dom req)" and "\<bar>rpc_code\<bar> < 2 ^ 31" and "wf_text msg"
    and "\<And>r h'. error_reply req rpc_code msg r \<Longrightarrow> steps (msg_blocks r) h h' \<Longrightarrow>
      Q ((MCP_OK, Some r), Some (dlogf_srv level event srv\<lparr>c_requests_error := c_requests_error srv + 1\<rparr>), Some s) h'"
    and "\<And>h'. script h \<noteq> [] \<Longrightarrow> steps 0 h h' \<Longrightarrow>
      Q ((MCP_ERR_NOMEM, None), Some (dlogf_srv level event srv\<lparr>c_requests_error := c_requests_error srv + 1\<rparr>), Some s) h'"
  shows "wp (refuse level event rpc_code msg srv s req) Q h"
proof -
  have "c_requests_error (dlogf_srv level event srv) = c_requests_error srv" by (simp add: dlogf_srv_def)
  with assms(4,5) show ?thesis
    unfolding refuse_def Let_def wp_bind by (intro wp_err_resp [OF assms(1-3)]) simp_all
qed

lemma ids_entries_abs: "ids_entries a = ids_entries b \<longleftrightarrow> ids_abs a = ids_abs b"
  "ids_entries a = (ids_entries b)(k \<mapsto> ()) \<longleftrightarrow> ids_abs a = insert k (ids_abs b)"
  by (auto simp: ids_entries_def fun_eq_iff split: if_splits)

lemma wp_track:
  assumes "session_ok s" and "id_admissible (id_arg_of req)" and "request_id req \<notin> seen s" and "id_arg_of req = (t, i, n)"
  shows "wp (mcp_idset_add (ses_ids s) t i n) (\<lambda>r h'. session_ok (s\<lparr>ses_ids := snd r\<rparr>) \<and>
     seen (s\<lparr>ses_ids := snd r\<rparr>) = (if fst r = MCP_OK then insert (request_id req) (seen s) else seen s) \<and>
     (fst r = MCP_OK \<or> script h \<noteq> []) \<and> (\<exists>k. steps k h h')) h"
proof -
  obtain ids where ids: "ses_ids s = Some ids" "ids_invar ids"
    using assms(1) by (auto simp: session_ok_def split: option.splits)
  have "ids_entries ids (id_of (t, i, n)) = None"
    using assms(3,4) ids(1) by (simp add: ids_entries_def request_id_def seen_def)
  note fresh = ids_add_fresh [OF ids(2) assms(2) [unfolded assms(4)] this, of h]
  obtain st ids' h' where run: "run_state (mcp_idset_add (Some ids) t i n) h = ((st, Some ids'), h')"
    and k: "steps (ids_blocks ids' - ids_blocks ids) h h'"
    using wp_idset_add_blocks [OF ids(2), of t i n h]
    by (cases "run_state (mcp_idset_add (Some ids) t i n) h") (auto simp: wp_run_state)
  have "ids_invar ids'" "ids_abs ids' = (if st = MCP_OK then insert (request_id req) (seen s) else seen s)"
    "st = MCP_OK \<or> script h \<noteq> []"
    using fresh by (simp_all add: wp_run_state run ids_entries_abs seen_def ids(1) request_id_def assms(4) split: if_splits)
  with k show ?thesis
    by (auto simp: ids(1) wp_run_state run session_ok_def seen_def)
qed

text \<open>Concrete instances: a request, a server, a session as \<open>session_new\<close> makes it, and two routers.\<close>

definition ping :: "string \<Rightarrow> mcp_message" where
  "ping i = \<lparr>dom = JObject [(''jsonrpc'', JString ''2.0''), (''id'', JString i), (''method'', JString ''ping'')] 4\<rparr>"

definition idle_server :: mcp_server where
  "idle_server = \<lparr>c_requests_total = 0, c_requests_error = 0, c_notifications_total = 0, tracer = True, traced = [],
     log_floor = MCP_LOG_DEBUG, logger = None\<rparr>"

definition fresh_session :: mcp_session where
  "fresh_session = zeroed_session\<lparr>granted := - 1, ses_ids := Some \<lparr>ids_items = [], ids_cap = 0\<rparr>\<rparr>"

definition ok_router :: "('z, 'r) router" where
  "ok_router srv s req m = do { r \<leftarrow> mcp_response_ok_new (Some req) None; ret (r, srv, s) }"

definition failing_router :: "('z, 'r) router" where
  "failing_router srv s req m = ret (None, srv, s)"

lemma ping_facts:
  "mcp_message_kind (Some (ping i)) = MCP_MSG_REQUEST" "wf_text i \<Longrightarrow> wf_json (dom (ping i))"
  "mcp_message_method (Some (ping i)) = Some ''ping''" "mcp_message_meta (Some (ping i)) = None"
  by (simp_all add: ping_def mcp_message_kind_def classify_def builtin_object_has_def builtin_object_get_def value_access
      mcp_message_method_def mcp_message_meta_def get_key_def wf_text_def utf8_valid_ascii)

lemma fresh_session_ok: "session_ok fresh_session" "seen fresh_session = {}"
  by (simp_all add: fresh_session_def session_ok_def seen_def ids_invar_def ids_abs_def)

text \<open>
  C7: the gate in front of the handlers, for every router and any behaviour of the allocator. A
  request that is invalid, comes before the handshake or repeats an id never reaches the
  router (the outcome is the same for every router), leaves the session as it was, and is
  answered by an error response with the id of the request, or by NOMEM when memory runs
  out; the reply is all that is allocated. An admitted request is routed, on a session that
  has its id recorded.
\<close>
theorem dispatch_gate:
  fixes route route' :: "('z, 'r) router"
  assumes "mcp_message_kind (Some req) = MCP_MSG_REQUEST" and "wf_json (dom req)" and "session_ok s"
  shows "if admitted s req then
      script h = [] \<longrightarrow> (\<exists>srv1 s1 h1. session_ok s1 \<and> seen s1 = insert (request_id req) (seen s) \<and>
        s1 = s\<lparr>ses_ids := ses_ids s1\<rparr> \<and> script h1 = [] \<and>
        run_state (mcp_server_dispatch route t0 t1 (Some srv) (Some s) (Some req)) h =
          run_state (run_route route t0 t1 srv1 s1 req (the (mcp_message_method (Some req)))) h1)
    else
      mcp_server_dispatch route t0 t1 (Some srv) (Some s) (Some req) =
        mcp_server_dispatch route' t0 t1 (Some srv) (Some s) (Some req) \<and>
      (case run_state (mcp_server_dispatch route t0 t1 (Some srv) (Some s) (Some req)) h of (((st, resp), srv', s'), h') \<Rightarrow>
        s' = Some s \<and>
        (case resp of
           None \<Rightarrow> st = MCP_ERR_NOMEM \<and> script h \<noteq> [] \<and> live h' = live h
         | Some r \<Rightarrow> st = MCP_OK \<and> live h' = live h + msg_blocks r \<and>
             (\<exists>rpc_code \<in> {MCP_RPC_INVALID_REQUEST, MCP_RPC_METHOD_NOT_FOUND, MCP_RPC_INVALID_PARAMS}.
                \<exists>msg. error_reply req rpc_code msg r)))"
proof (cases "admitted s req")
  case True
  then have valid: "fst (mcp_message_validate (Some req)) = MCP_OK" "request_id req \<notin> seen s"
    by (simp_all add: admitted_def)
  note adm = valid_request [OF assms(1) valid(1) assms(2)]
  obtain m where m: "mcp_message_method (Some req) = Some m" using adm(1) by blast
  obtain t i n where arg: "id_arg_of req = (t, i, n)" by (cases "id_arg_of req")
  obtain r h1 where run: "run_state (mcp_idset_add (ses_ids s) t i n) h = (r, h1)" by fastforce
  note track = wp_track [OF assms(3) adm(2) valid(2) arg, of h, unfolded wp_run_state run fst_conv snd_conv]
  have disp: "run_state (mcp_server_dispatch route t0 t1 (Some srv) (Some s) (Some req)) h =
      run_state (run_route route t0 t1 (apply_log_level req (counted srv)) (s\<lparr>ses_ids := snd r\<rparr>) req m) h1"
    if "fst r = MCP_OK"
    unfolding dispatch_admitted [OF assms True arg m] by (simp add: that run)
  show ?thesis unfolding if_P [OF True] m option.sel
  proof (intro impI exI conjI)
    assume "script h = []"
    with track have ok: "fst r = MCP_OK" "script h1 = []" by (auto simp: steps_def)
    from track show "session_ok (s\<lparr>ses_ids := snd r\<rparr>)" by simp
    from track ok show "seen (s\<lparr>ses_ids := snd r\<rparr>) = insert (request_id req) (seen s)" by simp
    show "run_state (mcp_server_dispatch route t0 t1 (Some srv) (Some s) (Some req)) h =
      run_state (run_route route t0 t1 (apply_log_level req (counted srv)) (s\<lparr>ses_ids := snd r\<rparr>) req m) h1"
      by (rule disp [OF ok(1)])
  qed (use track in \<open>auto simp: steps_def\<close>)
next
  case False
  obtain level event rpc_code msg srv' where eq: "\<And>route :: ('z, 'r) router.
      mcp_server_dispatch route t0 t1 (Some srv) (Some s) (Some req) = refuse level event rpc_code msg srv' s req"
    and rpc_code: "rpc_code \<in> {MCP_RPC_INVALID_REQUEST, MCP_RPC_METHOD_NOT_FOUND, MCP_RPC_INVALID_PARAMS}"
    and msg: "msg \<in> refuse_texts"
    using dispatch_refused [OF assms False, of t0 t1 srv] by blast
  have "wp (refuse level event rpc_code msg srv' s req) (\<lambda>(out, srv1, s') h'. s' = Some s \<and>
      (case snd out of None \<Rightarrow> fst out = MCP_ERR_NOMEM \<and> script h \<noteq> [] \<and> live h' = live h
       | Some r \<Rightarrow> fst out = MCP_OK \<and> live h' = live h + msg_blocks r \<and> error_reply req rpc_code msg r)) h"
    by (rule wp_refuse [OF assms(2) _ refuse_texts_wf [OF msg]]) (use rpc_code in \<open>auto simp: steps_def\<close>)
  moreover obtain out h' where run: "run_state (refuse level event rpc_code msg srv' s req) h = (out, h')"
    by (meson surj_pair)
  moreover obtain st resp srv1 s' where out: "out = ((st, resp), srv1, s')" by (metis surj_pair)
  ultimately have "s' = Some s \<and> (case resp of None \<Rightarrow> st = MCP_ERR_NOMEM \<and> script h \<noteq> [] \<and> live h' = live h
       | Some r \<Rightarrow> st = MCP_OK \<and> live h' = live h + msg_blocks r \<and> error_reply req rpc_code msg r)"
    by (simp add: wp_run_state cong: option.case_cong)
  then show ?thesis
    unfolding if_not_P [OF False] eq run out prod.case
    by (intro conjI refl) (blast, use rpc_code in \<open>cases resp; auto\<close>)
qed

theorem dispatch_gate_witness:
  "(mcp_server_dispatch ok_router 0 0 (Some idle_server) (Some fresh_session) (Some (ping ''1'')) :: (heap, _) state) =
     mcp_server_dispatch failing_router 0 0 (Some idle_server) (Some fresh_session) (Some (ping ''1''))"
proof -
  have "wf_json (dom (ping ''1''))" by (intro ping_facts) (simp add: wf_text_def utf8_valid_ascii)
  moreover have "\<not> admitted fresh_session (ping ''1'')"
    by (simp add: admitted_def gate_open_def ping_facts) (simp add: fresh_session_def zeroed_session_def)
  ultimately show ?thesis
    using dispatch_gate [OF ping_facts(1) _ fresh_session_ok(1), where route = ok_router and route' = failing_router
        and srv = idle_server and ?t0.0 = 0 and ?t1.0 = 0 and h = "\<lparr>live = 0, script = []\<rparr>"] by simp
qed

section \<open>No id is routed twice\<close>

text \<open>A router under observation: the ids it is called with are appended to a log kept beside the heap.\<close>

definition spy :: "(rpc_id list, 'r) router \<Rightarrow> (rpc_id list, 'r) router" where
  "spy route srv s req m = do {
     h \<leftarrow> State_Monad.get;
     State_Monad.set (heap.more_update (\<lambda>l. l @ [request_id req]) h);
     route srv s req m
   }"

text \<open>What the dispatcher relies on: the handlers do not remove ids from the set of the session.\<close>

definition keeps_ids :: "(rpc_id list, 'r) router \<Rightarrow> bool" where
  "keeps_ids route \<longleftrightarrow> (\<forall>srv s req m h. session_ok s \<longrightarrow> wf_json (dom req) \<longrightarrow>
     wp (route srv s req m) (\<lambda>(resp, srv', s') h'. session_ok s' \<and> seen s \<subseteq> seen s' \<and> heap.more h' = heap.more h) h)"

fun dispatch_all ::
  "('z, 'r) router \<Rightarrow> mcp_message list \<Rightarrow> 'r mcp_server_scheme option \<Rightarrow> mcp_session option \<Rightarrow>
   ('z heap_scheme, mcp_message option list \<times> 'r mcp_server_scheme option \<times> mcp_session option) state" where
  "dispatch_all route [] server session = ret ([], server, session)"
| "dispatch_all route (req # reqs) server session = do {
     (out, server, session) \<leftarrow> mcp_server_dispatch route 0 0 server session (Some req);
     (outs, server, session) \<leftarrow> dispatch_all route reqs server session;
     ret (snd out # outs, server, session)
   }"

lemma wp_spy:
  assumes "keeps_ids route" and "session_ok s" and "wf_json (dom req)"
  shows "wp (spy route srv s req m) (\<lambda>(resp, srv', s') h'. session_ok s' \<and> seen s \<subseteq> seen s' \<and>
     heap.more h' = heap.more h @ [request_id req]) h"
proof -
  let ?h = "heap.more_update (\<lambda>l. l @ [request_id req]) h"
  have "wp (route srv s req m) (\<lambda>(resp, srv', s') h'. session_ok s' \<and> seen s \<subseteq> seen s' \<and>
      heap.more h' = heap.more ?h) ?h"
    using assms unfolding keeps_ids_def by blast
  then show ?thesis by (simp add: spy_def wp_run_state State_Monad.get_def State_Monad.set_def)
qed

definition spied :: "mcp_message \<Rightarrow> mcp_session \<Rightarrow> rpc_id list heap_scheme \<Rightarrow> 'a \<times> 'b option \<times> mcp_session option \<Rightarrow>
    rpc_id list heap_scheme \<Rightarrow> bool" where
  "spied req s h r h' \<longleftrightarrow> (\<exists>srv' s'. snd r = (Some srv', Some s') \<and> session_ok s' \<and> seen s \<subseteq> seen s' \<and>
     (heap.more h' = heap.more h \<or>
      heap.more h' = heap.more h @ [request_id req] \<and> request_id req \<notin> seen s \<and> request_id req \<in> seen s'))"

lemma wp_run_route_spied:
  assumes "keeps_ids route" and "session_ok s1" and "wf_json (dom req)" and "seen s1 = insert (request_id req) (seen s)"
    and "request_id req \<notin> seen s" and "heap.more h1 = heap.more h"
  shows "wp (run_route (spy route) t0 t1 srv s1 req m) (spied req s h) h1"
  unfolding run_route_def Let_def wp_bind
proof (rule wp_mono [OF wp_spy [OF assms(1-3)]], goal_cases)
  case (1 r h2)
  obtain resp srv2 s2 where r: "r = (resp, srv2, s2)" by (cases r)
  with 1 have *: "session_ok s2" "seen s1 \<subseteq> seen s2" "heap.more h2 = heap.more h @ [request_id req]"
    using assms(6) by simp_all
  show ?case
  proof (cases resp)
    case None
    show ?thesis unfolding r None prod.case option.case wp_bind
      by (rule wp_err_resp [OF assms(3)])
         (use * assms(4,5) in \<open>auto simp: spied_def steps_def wf_text_def utf8_valid_ascii\<close>)
  next
    case (Some a)
    with * assms(4,5) show ?thesis by (auto simp: r spied_def)
  qed
qed

lemma wp_dispatch_spied:
  assumes "keeps_ids route" and "mcp_message_kind (Some req) = MCP_MSG_REQUEST" and "wf_json (dom req)" and "session_ok s"
  shows "wp (mcp_server_dispatch (spy route) t0 t1 (Some srv) (Some s) (Some req)) (spied req s h) h"
proof (cases "admitted s req")
  case True
  then have valid: "fst (mcp_message_validate (Some req)) = MCP_OK" "request_id req \<notin> seen s"
    by (simp_all add: admitted_def)
  note adm = valid_request [OF assms(2) valid(1) assms(3)]
  obtain m where m: "mcp_message_method (Some req) = Some m" using adm(1) by blast
  obtain t i n where arg: "id_arg_of req = (t, i, n)" by (cases "id_arg_of req")
  show ?thesis unfolding dispatch_admitted [OF assms(2-4) True arg m] wp_bind
  proof (rule wp_mono [OF wp_track [OF assms(4) adm(2) valid(2) arg]], goal_cases)
    case (1 r h1)
    show ?case
    proof (cases "fst r = MCP_OK")
      case True
      with 1 show ?thesis
        by (simp, intro wp_run_route_spied [OF assms(1) _ assms(3) _ valid(2)]) (auto simp: steps_def)
    next
      case False
      have "wf_text ''id tracking failed''" by (rule refuse_texts_wf) (simp add: refuse_texts_def)
      with False 1 show ?thesis
        by (simp, intro wp_refuse [OF assms(3)]) (auto simp: spied_def steps_def)
    qed
  qed
next
  case False
  obtain level event rpc_code msg srv' where eq: "\<And>route :: (rpc_id list, 'a) router.
      mcp_server_dispatch route t0 t1 (Some srv) (Some s) (Some req) = refuse level event rpc_code msg srv' s req"
    and rpc_code: "rpc_code \<in> {MCP_RPC_INVALID_REQUEST, MCP_RPC_METHOD_NOT_FOUND, MCP_RPC_INVALID_PARAMS}"
    and msg: "msg \<in> refuse_texts"
    using dispatch_refused [OF assms(2-4) False, of t0 t1 srv] by blast
  show ?thesis unfolding eq
    by (rule wp_refuse [OF assms(3) _ refuse_texts_wf [OF msg]])
       (use rpc_code assms(4) in \<open>auto simp: steps_def spied_def\<close>)
qed

lemma wp_dispatch_all_spied:
  assumes "keeps_ids route" and "\<forall>req \<in> set reqs. mcp_message_kind (Some req) = MCP_MSG_REQUEST \<and> wf_json (dom req)"
    and "session_ok s" and "distinct (heap.more h)" and "set (heap.more h) \<subseteq> seen s"
  shows "wp (dispatch_all (spy route) reqs (Some srv) (Some s)) (\<lambda>r h'. distinct (heap.more h')) h"
  using assms(2-)
proof (induction reqs arbitrary: srv s h)
  case (Cons req reqs)
  show ?case unfolding dispatch_all.simps wp_bind
  proof (rule wp_mono [OF wp_dispatch_spied [OF assms(1)]], goal_cases)
    case (4 r h1)
    then obtain out srv1 s1 where r: "r = (out, Some srv1, Some s1)" and "session_ok s1" "seen s \<subseteq> seen s1"
      "heap.more h1 = heap.more h \<or> heap.more h1 = heap.more h @ [request_id req] \<and> request_id req \<notin> seen s \<and> request_id req \<in> seen s1"
      by (cases r) (auto simp: spied_def)
    then have "wp (dispatch_all (spy route) reqs (Some srv1) (Some s1)) (\<lambda>r h'. distinct (heap.more h')) h1"
      using Cons.prems by (intro Cons.IH) auto
    then show ?case unfolding r prod.case wp_bind by (rule wp_mono) (simp split: prod.splits)
  qed (use Cons.prems in auto)
qed simp

text \<open>
  C2: the router is never called twice with the same id in a session, for any requests, any
  behaviour of the allocator, and every router that does not remove ids from the session.
\<close>
theorem no_id_routed_twice:
  assumes "keeps_ids route" and "\<forall>req \<in> set reqs. mcp_message_kind (Some req) = MCP_MSG_REQUEST \<and> wf_json (dom req)"
    and "session_ok s" and "heap.more h = []"
  shows "distinct (heap.more (snd (run_state (dispatch_all (spy route) reqs (Some srv) (Some s)) h)))"
  using wp_dispatch_all_spied [OF assms(1-3), of h srv] assms(4) by (simp add: wp_run_state)

lemma keeps_ids_ok_router: "keeps_ids ok_router"
  unfolding keeps_ids_def ok_router_def wp_bind
proof (intro allI impI, goal_cases)
  case (1 srv s req m h)
  then show ?case
    by (intro wp_mono [OF wp_response_ok_new]) (auto simp: msg_post_def steps_def split: option.splits)
qed

theorem no_id_routed_twice_witness:
  "distinct (heap.more (snd (run_state (dispatch_all (spy ok_router) [ping ''1'', ping ''2'', ping ''1'']
     (Some idle_server) (Some (fresh_session\<lparr>initialized := True\<rparr>))) \<lparr>live = 0, script = [], \<dots> = []\<rparr>)))"
proof (rule no_id_routed_twice [OF keeps_ids_ok_router])
  show "session_ok (fresh_session\<lparr>initialized := True\<rparr>)" using fresh_session_ok by (simp add: session_ok_def)
  show "\<forall>req \<in> set [ping ''1'', ping ''2'', ping ''1'']. mcp_message_kind (Some req) = MCP_MSG_REQUEST \<and> wf_json (dom req)"
    by (simp add: ping_facts wf_text_def utf8_valid_ascii)
qed simp

section \<open>The queue is served in order\<close>

text \<open>Serving one message of a session, and the loop of a server over its queue: \<open>clk\<close> gives the
  clock readings of each round.\<close>

definition serve ::
  "('z, 'r) router \<Rightarrow> 64 word \<times> 64 word \<Rightarrow> 'r mcp_server_scheme option \<Rightarrow> (nat \<rightharpoonup> mcp_session) \<Rightarrow> nat \<times> mcp_message \<Rightarrow>
   ('z heap_scheme, (mcp_status \<times> mcp_message option) \<times> 'r mcp_server_scheme option \<times> (nat \<rightharpoonup> mcp_session)) state" where
  "serve route t server mem x =
     (if mcp_message_kind (Some (snd x)) = MCP_MSG_NOTIFICATION
      then (case mcp_server_notify server (mem (fst x)) (Some (snd x)) of
        (st, server, session) \<Rightarrow> do { mcp_message_destroy (Some (snd x)); ret ((st, None), server, mem(fst x := session)) })
      else do {
        (out, server, session) \<leftarrow> mcp_server_dispatch route (fst t) (snd t) server (mem (fst x)) (Some (snd x));
        mcp_message_destroy (Some (snd x));
        ret (out, server, mem(fst x := session))
      })"

fun serve_all ::
  "('z, 'r) router \<Rightarrow> (nat \<Rightarrow> 64 word \<times> 64 word) \<Rightarrow> 'r mcp_server_scheme option \<Rightarrow> (nat \<rightharpoonup> mcp_session) \<Rightarrow>
   (nat \<times> mcp_message) list \<Rightarrow>
   ('z heap_scheme, (mcp_status \<times> mcp_message option) list \<times> 'r mcp_server_scheme option \<times> (nat \<rightharpoonup> mcp_session)) state" where
  "serve_all route clk server mem [] = ret ([], server, mem)"
| "serve_all route clk server mem (x # xs) = do {
     (out, server, mem) \<leftarrow> serve route (clk (length xs)) server mem x;
     (outs, server, mem) \<leftarrow> serve_all route clk server mem xs;
     ret (out # outs, server, mem)
   }"

fun process_all ::
  "('z, 'r) router \<Rightarrow> (nat \<Rightarrow> 64 word \<times> 64 word) \<Rightarrow> nat \<Rightarrow> 'r mcp_server_scheme option \<Rightarrow> (nat \<rightharpoonup> mcp_session) \<Rightarrow>
   nat mcp_queue option \<Rightarrow>
   ('z heap_scheme, (mcp_status \<times> mcp_message option) list \<times> 'r mcp_server_scheme option \<times> (nat \<rightharpoonup> mcp_session) \<times>
      nat mcp_queue option) state" where
  "process_all route clk 0 server mem q = ret ([], server, mem, q)"
| "process_all route clk (Suc n) server mem q = do {
     (out, server, mem, q) \<leftarrow> mcp_server_process_one route (fst (clk n)) (snd (clk n)) server mem q;
     (outs, server, mem, q) \<leftarrow> process_all route clk n server mem q;
     ret (out # outs, server, mem, q)
   }"

lemma process_one_serves:
  assumes "queue_invar q" and "queue_items q = x # xs"
  shows "\<exists>q'. mcp_server_process_one route t0 t1 (Some srv) mem (Some q) = do {
        (out, server, mem) \<leftarrow> serve route (t0, t1) (Some srv) mem x;
        ret (out, server, mem, Some q')
      } \<and> queue_invar q' \<and> queue_items q' = xs"
proof -
  obtain q' where "mcp_queue_pop (Some q) = (MCP_OK, (Some (fst x), Some (snd x)), Some q')" "queue_invar q'" "queue_items q' = xs"
    using mcp_queue_pop_items [OF assms(1), of "fst x" "snd x" xs] assms(2) by auto
  then show ?thesis
    by (intro exI [of _ q']) (simp add: mcp_server_process_one_def serve_def case_prod_unfold Let_def)
qed

text \<open>The server is still there after serving a message.\<close>

definition serves :: "('z heap_scheme, 'a \<times> 'b option \<times> 'c) state \<Rightarrow> bool" where
  "serves m \<longleftrightarrow> (\<forall>h. fst (snd (fst (run_state m h))) \<noteq> None)"

lemma serves_bind: "(\<And>x. serves (f x)) \<Longrightarrow> serves (State_Monad.bind m f)"
  by (simp add: serves_def case_prod_beta)

lemma serves_ret: "serves (ret (a, Some b, c))"
  by (simp add: serves_def)

lemma serves_refuse: "serves (refuse level event rpc_code msg srv s req)"
  unfolding refuse_def Let_def by (intro serves_bind serves_ret)

lemma serves_run_route: "serves (run_route route t0 t1 srv s req m)"
  unfolding run_route_def Let_def
  by (intro serves_bind) (auto intro!: serves_bind serves_ret split: prod.split option.split)

lemma serves_track: "serves (track_id route t0 t1 srv s req m)"
  unfolding track_id_def Let_def
  by (auto intro!: serves_bind serves_refuse serves_run_route split: prod.split)

lemma serves_dispatch: "serves (mcp_server_dispatch route t0 t1 (Some srv) session req)"
  unfolding mcp_server_dispatch_def Let_def
  by (auto intro!: serves_track serves_refuse serves_ret split: prod.split option.split)

lemma notify_keeps_server: "fst (snd (mcp_server_notify (Some srv) session notif)) \<noteq> None"
  by (simp add: mcp_server_notify_def Let_def split: option.split)

lemma serves_serve: "serves (serve route t (Some srv) mem x)"
proof (cases "mcp_message_kind (Some (snd x)) = MCP_MSG_NOTIFICATION")
  case True
  obtain st srv' session where "mcp_server_notify (Some srv) (mem (fst x)) (Some (snd x)) = (st, Some srv', session)"
    using notify_keeps_server [of srv "mem (fst x)" "Some (snd x)"] by (metis eq_fst_iff eq_snd_iff option.exhaust)
  then show ?thesis unfolding serve_def if_P [OF True] by (simp add: serves_bind serves_ret)
next
  case False
  show ?thesis
    using serves_dispatch [of route "fst t" "snd t" srv "mem (fst x)" "Some (snd x)"]
    unfolding serve_def if_not_P [OF False] by (auto simp: serves_def case_prod_beta)
qed

text \<open>
  C18: a server that processes as many messages as its queue holds serves them all in the order of
  arrival: the replies, the server, the sessions and the heap are those of serving the
  messages one after the other, and the queue is empty afterwards, so that the next call
  finds nothing.
\<close>
theorem process_queue_in_order:
  assumes "queue_invar q" and "queue_items q = xs"
  shows "\<exists>q'. run_state (process_all route clk (length xs) (Some srv) mem (Some q)) h =
      run_state (do { (outs, server, mem) \<leftarrow> serve_all route clk (Some srv) mem xs; ret (outs, server, mem, Some q') }) h \<and>
    queue_invar q' \<and> queue_items q' = [] \<and>
    mcp_server_process_one route t0 t1 (Some srv') mem' (Some q') = ret ((MCP_ERR_NOT_FOUND, None), Some srv', mem', Some q')"
  using assms
proof (induction xs arbitrary: q srv mem h)
  case Nil
  then show ?case by (auto simp: mcp_server_process_one_def mcp_queue_pop_def queue_items_simps)
next
  case (Cons x xs)
  let ?t = "clk (length xs)"
  obtain q1 where one: "mcp_server_process_one route (fst ?t) (snd ?t) (Some srv) mem (Some q) = do {
        (out, server, mem) \<leftarrow> serve route ?t (Some srv) mem x;
        ret (out, server, mem, Some q1)
      }" and q1: "queue_invar q1" "queue_items q1 = xs"
    using process_one_serves [OF Cons.prems, of route "fst ?t" "snd ?t" srv mem] by auto
  obtain out srv1 mem1 h1 where run: "run_state (serve route ?t (Some srv) mem x) h = ((out, Some srv1, mem1), h1)"
    using serves_serve [of route ?t srv mem x, unfolded serves_def, THEN spec, of h]
    by (metis eq_fst_iff eq_snd_iff option.exhaust)
  obtain q2 where q2: "run_state (process_all route clk (length xs) (Some srv1) mem1 (Some q1)) h1 =
      run_state (do { (outs, server, mem) \<leftarrow> serve_all route clk (Some srv1) mem1 xs; ret (outs, server, mem, Some q2) }) h1"
    "queue_invar q2" "queue_items q2 = []"
    "mcp_server_process_one route t0 t1 (Some srv') mem' (Some q2) = ret ((MCP_ERR_NOT_FOUND, None), Some srv', mem', Some q2)"
    using Cons.IH [OF q1, of srv1 mem1 h1] by blast
  have "run_state (process_all route clk (length (x # xs)) (Some srv) mem (Some q)) h =
      run_state (do { (outs, server, mem) \<leftarrow> serve_all route clk (Some srv) mem (x # xs); ret (outs, server, mem, Some q2) }) h"
    using q2(1) by (simp add: one run case_prod_beta split: prod.splits)
  with q2 show ?case by blast
qed

theorem process_queue_in_order_witness:
  "\<exists>q'. run_state (process_all ok_router (\<lambda>n. (0, 0)) 2 (Some idle_server) [8 \<mapsto> fresh_session]
       (Some \<lparr>q_sessions = [Some 8, Some 8], q_msgs = [Some (ping ''a''), Some (ping ''b'')], q_head = 0, q_len = 2, q_cap = 2\<rparr>))
       \<lparr>live = 20, script = []\<rparr> =
     run_state (do { (outs, server, mem) \<leftarrow> serve_all ok_router (\<lambda>n. (0, 0)) (Some idle_server) [8 \<mapsto> fresh_session]
       [(8, ping ''a''), (8, ping ''b'')]; ret (outs, server, mem, Some q') }) \<lparr>live = 20, script = []\<rparr> \<and> queue_items q' = []"
proof -
  let ?q = "\<lparr>q_sessions = [Some (8 :: nat), Some 8], q_msgs = [Some (ping ''a''), Some (ping ''b'')], q_head = 0, q_len = 2, q_cap = 2\<rparr>"
  have "queue_invar ?q" "queue_items ?q = [(8, ping ''a''), (8, ping ''b'')]"
    by (simp_all add: queue_invar_def queue_items_def MCP_QUEUE_MAX_LEN_def less_2_cases_iff upt_conv_Cons)
  note process_queue_in_order [OF this, of ok_router "\<lambda>n. (0, 0)" idle_server "[8 \<mapsto> fresh_session]"
      "\<lparr>live = 20, script = []\<rparr>" 0 0 idle_server Map.empty]
  moreover have "length [(8 :: nat, ping ''a''), (8, ping ''b'')] = 2" by simp
  ultimately show ?thesis by metis
qed

end
