(* ===== verification/Block_Hash.thy ===== *)
theory Block_Hash
  imports Mcp_Prelude "HOL-Library.Word"
begin

text \<open>
  What the two hash functions of the library have in common: they fold a compression function
  over the 64-byte blocks of the padded message. This is the reference that the buffered code
  is compared with.
\<close>

unbundle bit_operations_syntax

type_synonym byte = "8 word"

section \<open>Folding over the blocks\<close>

function hash_blocks :: "('s \<Rightarrow> byte list \<Rightarrow> 's) \<Rightarrow> 's \<Rightarrow> byte list \<Rightarrow> 's" where
  "hash_blocks tr s bs = (if length bs < 64 then s else hash_blocks tr (tr s (take 64 bs)) (drop 64 bs))"
  by pat_completeness auto
termination by (relation "measure (\<lambda>(_, _, bs). length bs)") auto

declare hash_blocks.simps [simp del]

lemma hash_blocks_short [simp]: "length bs < 64 \<Longrightarrow> hash_blocks tr s bs = s"
  by (simp add: hash_blocks.simps)

lemma hash_blocks_step: "length b = 64 \<Longrightarrow> hash_blocks tr s (b @ bs) = hash_blocks tr (tr s b) bs"
  by (subst hash_blocks.simps) simp

lemma hash_blocks_one: "length b = 64 \<Longrightarrow> hash_blocks tr s b = tr s b"
  using hash_blocks_step [of b tr s "[]"] by simp

text \<open>The bytes behind the last whole block.\<close>

definition tail_bytes :: "byte list \<Rightarrow> byte list" where
  "tail_bytes bs = drop (64 * (length bs div 64)) bs"

lemma length_tail_bytes: "length (tail_bytes bs) = length bs mod 64"
  by (simp add: tail_bytes_def minus_mult_div_eq_mod)

lemma tail_bytes_short: "length bs < 64 \<Longrightarrow> tail_bytes bs = bs"
  by (simp add: tail_bytes_def)

lemma tail_bytes_aligned: "64 dvd length b \<Longrightarrow> tail_bytes (b @ bs) = tail_bytes bs"
  by (auto simp: tail_bytes_def elim!: dvdE)

lemma tail_bytes_step: "length b = 64 \<Longrightarrow> tail_bytes (b @ bs) = tail_bytes bs"
  by (simp add: tail_bytes_aligned)

lemma tail_bytes_append: "tail_bytes (xs @ ys) = tail_bytes (tail_bytes xs @ ys)"
proof -
  have "xs = take (64 * (length xs div 64)) xs @ tail_bytes xs" by (simp add: tail_bytes_def)
  moreover have "64 dvd length (take (64 * (length xs div 64)) xs)" by (simp add: min_absorb2)
  ultimately show ?thesis using tail_bytes_aligned [of _ "tail_bytes xs @ ys"] by (metis append_assoc)
qed

lemma hash_blocks_append:
  "hash_blocks tr s (xs @ ys) = hash_blocks tr (hash_blocks tr s xs) (tail_bytes xs @ ys)"
proof (induction tr s xs rule: hash_blocks.induct)
  case (1 tr s xs)
  show ?case
  proof (cases "length xs < 64")
    case False
    let ?b = "take 64 xs" and ?r = "drop 64 xs"
    have b: "length ?b = 64" and xs: "xs = ?b @ ?r" using False by simp_all
    have "hash_blocks tr s (xs @ ys) = hash_blocks tr (tr s ?b) (?r @ ys)"
      using hash_blocks_step [OF b, of tr s "?r @ ys"] by (simp flip: append_assoc)
    also have "\<dots> = hash_blocks tr (hash_blocks tr (tr s ?b) ?r) (tail_bytes ?r @ ys)" by (rule 1 [OF False])
    also have "hash_blocks tr (tr s ?b) ?r = hash_blocks tr s xs" using hash_blocks_step [OF b, of tr s ?r] by simp
    also have "tail_bytes ?r = tail_bytes xs" using tail_bytes_step [OF b, of ?r] by simp
    finally show ?thesis .
  qed (simp add: tail_bytes_short)
qed

section \<open>Words and padding\<close>

definition bytes_of :: "string \<Rightarrow> byte list" where
  "bytes_of s = map (\<lambda>c. of_nat (of_char c)) s"

definition be64 :: "64 word \<Rightarrow> byte list" where
  "be64 n = map (\<lambda>i. ucast (drop_bit (8 * (7 - i)) n)) [0..<8]"

definition be32 :: "32 word \<Rightarrow> byte list" where
  "be32 n = map (\<lambda>i. ucast (drop_bit (8 * (3 - i)) n)) [0..<4]"

text \<open>One bit, as many zeros as fill the block up to its last eight bytes, and the length in bits.\<close>

definition hash_pad :: "nat \<Rightarrow> byte list" where
  "hash_pad n = 0x80 # replicate ((119 - n mod 64) mod 64) 0 @ be64 (of_nat (8 * n))"

lemma low_byte: "ucast (x AND 0xFF) = (ucast x :: byte)" for x :: "'a::len word"
proof -
  have mask: "(0xFF :: 'a word) = mask 8" by (simp add: mask_eq_exp_minus_1)
  show ?thesis unfolding mask by (rule bit_word_eqI) (auto simp: bit_simps dest: bit_imp_le_length)
qed

lemma length_be64 [simp]: "length (be64 n) = 8"
  by (simp add: be64_def)

text \<open>The last one or two blocks: the rest of the message and the padding.\<close>

lemma hash_blocks_padded:
  assumes "length r < 64" and "length r mod 64 = n mod 64"
  defines "len \<equiv> be64 (of_nat (8 * n))"
  shows "hash_blocks tr s (r @ hash_pad n) =
    (if length r < 56 then tr s (r @ 0x80 # replicate (55 - length r) 0 @ len)
     else tr (tr s (r @ 0x80 # replicate (63 - length r) 0)) (replicate 56 0 @ len))"
proof -
  have n: "n mod 64 = length r" using assms(1,2) by simp
  show ?thesis
  proof (cases "length r < 56")
    case True
    have "(119 - n mod 64) mod 64 = 55 - length r" using True n by (simp add: mod_if)
    then have "r @ hash_pad n = r @ 0x80 # replicate (55 - length r) 0 @ len" by (simp add: hash_pad_def len_def)
    then show ?thesis using True by (simp add: hash_blocks_one len_def)
  next
    case False
    have "(119 - n mod 64) mod 64 = (63 - length r) + 56" using False assms(1) n by simp
    then have "r @ hash_pad n = (r @ 0x80 # replicate (63 - length r) 0) @ (replicate 56 0 @ len)"
      by (simp add: hash_pad_def len_def replicate_add)
    then show ?thesis using False assms(1) by (simp only: if_False) (simp add: hash_blocks_step hash_blocks_one len_def del: append_assoc append.simps)
  qed
qed

end
