(* ===== verification/Sha1.thy ===== *)
theory Sha1
  imports Block_Hash
begin

text \<open>
  SHA-1 and the accept key of the WebSocket handshake (\<open>src/src/core/sha1.c\<close>).
\<close>

section \<open>The compression function\<close>

type_synonym sha1_state = "32 word \<times> 32 word \<times> 32 word \<times> 32 word \<times> 32 word"

definition SHA1_ROL :: "32 word \<Rightarrow> nat \<Rightarrow> 32 word" where
  "SHA1_ROL x n = push_bit n x OR drop_bit (32 - n) x"

definition block_word :: "byte list \<Rightarrow> nat \<Rightarrow> 32 word" where
  "block_word block i =
     push_bit 24 (ucast (block ! (i * 4 + 0))) OR push_bit 16 (ucast (block ! (i * 4 + 1))) OR
     push_bit 8 (ucast (block ! (i * 4 + 2))) OR ucast (block ! (i * 4 + 3))"

fun sha1_expand :: "nat \<Rightarrow> 32 word list \<Rightarrow> 32 word list" where
  "sha1_expand 0 w = w"
| "sha1_expand (Suc n) w =
     (let i = length w
      in sha1_expand n (w @ [SHA1_ROL (w ! (i - 3) XOR w ! (i - 8) XOR w ! (i - 14) XOR w ! (i - 16)) 1]))"

fun sha1_round :: "32 word list \<Rightarrow> nat \<Rightarrow> sha1_state \<Rightarrow> sha1_state" where
  "sha1_round w i (a, b, c, d, e) =
     (let (f, k) =
        (if i < 20 then ((b AND c) OR (NOT b AND d), 0x5A827999)
         else if i < 40 then (b XOR c XOR d, 0x6ED9EBA1)
         else if i < 60 then ((b AND c) OR (b AND d) OR (c AND d), 0x8F1BBCDC)
         else (b XOR c XOR d, 0xCA62C1D6));
        temp = SHA1_ROL a 5 + f + e + k + w ! i
      in (temp, a, SHA1_ROL b 30, c, d))"

definition sha1_transform :: "sha1_state \<Rightarrow> byte list \<Rightarrow> sha1_state" where
  "sha1_transform state block =
     (let w = sha1_expand 64 (map (block_word block) [0..<16]);
          (s0, s1, s2, s3, s4) = state;
          (a, b, c, d, e) = fold (sha1_round w) [0..<80] state
      in (s0 + a, s1 + b, s2 + c, s3 + d, s4 + e))"

section \<open>The hash\<close>

definition sha1_init :: sha1_state where
  "sha1_init = (0x67452301, 0xEFCDAB89, 0x98BADCFE, 0x10325476, 0xC3D2E1F0)"

text \<open>\<open>while (len >= 64)\<close>: the state and the bytes that are left.\<close>

function sha1_loop :: "sha1_state \<Rightarrow> byte list \<Rightarrow> sha1_state \<times> byte list" where
  "sha1_loop state data =
     (if 64 \<le> length data then sha1_loop (sha1_transform state (take 64 data)) (drop 64 data) else (state, data))"
  by pat_completeness auto
termination by (relation "measure (\<lambda>(_, data). length data)") auto

definition put_total_bits :: "64 word \<Rightarrow> byte list \<Rightarrow> byte list" where
  "put_total_bits total_bits buffer =
     fold (\<lambda>i b. b[63 - i := ucast (drop_bit (i * 8) total_bits AND 0xFF)]) [0..<8] buffer"

definition state_bytes :: "32 word \<Rightarrow> byte list" where
  "state_bytes s = [ucast (drop_bit 24 s AND 0xFF), ucast (drop_bit 16 s AND 0xFF), ucast (drop_bit 8 s AND 0xFF),
     ucast (s AND 0xFF)]"

definition mcp_sha1 :: "byte list \<Rightarrow> byte list" where
  "mcp_sha1 data =
     (let total_bits = of_nat (length data) * 8;
          (state, rest) = sha1_loop sha1_init data;
          buffer = (rest @ replicate (64 - length rest) 0)[length rest := 0x80];
          (state, buffer) = (if 56 \<le> length rest then (sha1_transform state buffer, replicate 64 0) else (state, buffer));
          (a, b, c, d, e) = sha1_transform state (put_total_bits total_bits buffer)
      in concat (map state_bytes [a, b, c, d, e]))"

definition kBase64Chars :: string where
  "kBase64Chars = ''ABCDEFGHIJKLMNOPQRSTUVWXYZabcdefghijklmnopqrstuvwxyz0123456789+/''"

definition b64_char :: "32 word \<Rightarrow> nat \<Rightarrow> char" where
  "b64_char v n = kBase64Chars ! unat (drop_bit n v AND 0x3F)"

definition base64_encode_20 :: "byte list \<Rightarrow> string" where
  "base64_encode_20 bs =
     concat (map (\<lambda>k. let v = push_bit 16 (ucast (bs ! (3 * k))) OR push_bit 8 (ucast (bs ! (3 * k + 1))) OR ucast (bs ! (3 * k + 2))
        in [b64_char v 18, b64_char v 12, b64_char v 6, b64_char v 0]) [0..<6]) @
     (let v = push_bit 16 (ucast (bs ! 18)) OR push_bit 8 (ucast (bs ! 19))
      in [b64_char v 18, b64_char v 12, b64_char v 6, CHR ''=''])"

definition WS_GUID :: string where
  "WS_GUID = ''258EAFA5-E914-47DA-95CA-C5AB0DC85B11''"

definition mcp_ws_compute_accept_key :: "string option \<Rightarrow> mcp_status \<times> string option" where
  "mcp_ws_compute_accept_key client_key =
     (case client_key of
        None \<Rightarrow> (MCP_ERR_INVALID_ARGUMENT, None)
      | Some k \<Rightarrow>
          if 256 < length k then (MCP_ERR_INVALID_ARGUMENT, None)
          else (MCP_OK, Some (base64_encode_20 (mcp_sha1 (bytes_of (k @ WS_GUID))))))"

section \<open>The code computes SHA-1\<close>

declare sha1_loop.simps [simp del]

lemma sha1_loop_blocks: "sha1_loop s data = (hash_blocks sha1_transform s data, tail_bytes data)"
proof (induction s data rule: sha1_loop.induct)
  case (1 s data)
  show ?case
  proof (cases "64 \<le> length data")
    case True
    have b: "length (take 64 data) = 64" using True by simp
    show ?thesis using 1 [OF True] True hash_blocks_step [OF b, of sha1_transform s "drop 64 data"]
        tail_bytes_step [OF b, of "drop 64 data"] by (simp add: sha1_loop.simps [of s data])
  qed (simp add: sha1_loop.simps [of s data] tail_bytes_short)
qed

lemma put_total_bits: "length xs = 56 \<Longrightarrow> length ys = 8 \<Longrightarrow> put_total_bits n (xs @ ys) = xs @ be64 n"
  by (rule nth_equalityI) (auto simp: put_total_bits_def be64_def upt_rec nth_append nth_list_update low_byte)

lemma state_bytes_be32: "state_bytes = be32"
  by (simp add: fun_eq_iff state_bytes_def be32_def upt_rec low_byte)

definition sha1_spec :: "byte list \<Rightarrow> byte list" where
  "sha1_spec data =
     (case hash_blocks sha1_transform sha1_init (data @ hash_pad (length data)) of
        (a, b, c, d, e) \<Rightarrow> concat (map be32 [a, b, c, d, e]))"

lemma mcp_sha1_eq: "mcp_sha1 data = sha1_spec data"
proof -
  define r where "r = tail_bytes data"
  define s where "s = hash_blocks sha1_transform sha1_init data"
  have r: "length r < 64" "length r mod 64 = length data mod 64" by (simp_all add: r_def length_tail_bytes)
  have buf: "(r @ replicate (64 - length r) 0)[length r := 0x80] = r @ 0x80 # replicate (63 - length r) 0"
  proof -
    have "64 - length r = Suc (63 - length r)" using r(1) by simp
    then show ?thesis by (simp add: list_update_append)
  qed
  have bits: "of_nat (length data) * 8 = (of_nat (8 * length data) :: 64 word)" by simp
  have "replicate (63 - length r) (0 :: byte) = replicate (55 - length r) 0 @ replicate 8 0" if "length r < 56"
    using that by (simp flip: replicate_add)
  then have short: "put_total_bits n (r @ 0x80 # replicate (63 - length r) 0) = r @ 0x80 # replicate (55 - length r) 0 @ be64 n"
    if "length r < 56" for n
    using that put_total_bits [of "r @ 0x80 # replicate (55 - length r) 0" "replicate 8 0" n] by simp
  have "replicate 64 (0 :: byte) = replicate 56 0 @ replicate 8 0" by (simp flip: replicate_add)
  then have long: "put_total_bits n (replicate 64 0) = replicate 56 0 @ be64 n" for n
    using put_total_bits [of "replicate 56 0" "replicate 8 0" n] by simp
  show ?thesis
    unfolding mcp_sha1_def sha1_spec_def Let_def sha1_loop_blocks prod.case
      hash_blocks_append [of _ _ data] r_def [symmetric] s_def [symmetric] hash_blocks_padded [OF r] buf bits
    by (cases "length r < 56") (simp_all only: short long state_bytes_be32 not_le [symmetric] if_True if_False simp_thms
       not_True_eq_False not_False_eq_True prod.case)
qed

text \<open>
  C30: \<open>mcp_sha1\<close> is the fold of the compression function over the 64-byte blocks of the padded
  message, for messages of every length: the loop over the whole blocks, the extra block when
  the length does not fit behind the rest, and the big-endian bit count (modulo \<open>2^64\<close>).
\<close>

theorem mcp_sha1_correct: "mcp_sha1 data = sha1_spec data"
  by (rule mcp_sha1_eq)

end
