(* ===== verification/Sha256.thy ===== *)
theory Sha256
  imports Block_Hash
begin

text \<open>
  SHA-256 with its incremental interface, HMAC-SHA256 and the comparison of signatures
  (\<open>src/src/protocol/mrtr_state.c\<close>).
\<close>

section \<open>The compression function\<close>

type_synonym sha256_state =
  "32 word \<times> 32 word \<times> 32 word \<times> 32 word \<times> 32 word \<times> 32 word \<times> 32 word \<times> 32 word"

definition rotr32 :: "32 word \<Rightarrow> nat \<Rightarrow> 32 word" where
  "rotr32 x n = drop_bit n x OR push_bit (32 - n) x"

definition SHA256_CH :: "32 word \<Rightarrow> 32 word \<Rightarrow> 32 word \<Rightarrow> 32 word" where
  "SHA256_CH x y z = (x AND y) XOR (NOT x AND z)"

definition SHA256_MAJ :: "32 word \<Rightarrow> 32 word \<Rightarrow> 32 word \<Rightarrow> 32 word" where
  "SHA256_MAJ x y z = (x AND y) XOR (x AND z) XOR (y AND z)"

definition SHA256_EP0 :: "32 word \<Rightarrow> 32 word" where
  "SHA256_EP0 x = rotr32 x 2 XOR rotr32 x 13 XOR rotr32 x 22"

definition SHA256_EP1 :: "32 word \<Rightarrow> 32 word" where
  "SHA256_EP1 x = rotr32 x 6 XOR rotr32 x 11 XOR rotr32 x 25"

definition SHA256_SIG0 :: "32 word \<Rightarrow> 32 word" where
  "SHA256_SIG0 x = rotr32 x 7 XOR rotr32 x 18 XOR drop_bit 3 x"

definition SHA256_SIG1 :: "32 word \<Rightarrow> 32 word" where
  "SHA256_SIG1 x = rotr32 x 17 XOR rotr32 x 19 XOR drop_bit 10 x"

text \<open>The round constants, row by row as the source lists them.\<close>

definition K256 :: "32 word list" where
  "K256 =
    [0x428a2f98, 0x71374491, 0xb5c0fbcf, 0xe9b5dba5] @
    [0x3956c25b, 0x59f111f1, 0x923f82a4, 0xab1c5ed5] @
    [0xd807aa98, 0x12835b01, 0x243185be, 0x550c7dc3] @
    [0x72be5d74, 0x80deb1fe, 0x9bdc06a7, 0xc19bf174] @
    [0xe49b69c1, 0xefbe4786, 0x0fc19dc6, 0x240ca1cc] @
    [0x2de92c6f, 0x4a7484aa, 0x5cb0a9dc, 0x76f988da] @
    [0x983e5152, 0xa831c66d, 0xb00327c8, 0xbf597fc7] @
    [0xc6e00bf3, 0xd5a79147, 0x06ca6351, 0x14292967] @
    [0x27b70a85, 0x2e1b2138, 0x4d2c6dfc, 0x53380d13] @
    [0x650a7354, 0x766a0abb, 0x81c2c92e, 0x92722c85] @
    [0xa2bfe8a1, 0xa81a664b, 0xc24b8b70, 0xc76c51a3] @
    [0xd192e819, 0xd6990624, 0xf40e3585, 0x106aa070] @
    [0x19a4c116, 0x1e376c08, 0x2748774c, 0x34b0bcb5] @
    [0x391c0cb3, 0x4ed8aa4a, 0x5b9cca4f, 0x682e6ff3] @
    [0x748f82ee, 0x78a5636f, 0x84c87814, 0x8cc70208] @
    [0x90befffa, 0xa4506ceb, 0xbef9a3f7, 0xc67178f2]"

definition message_word :: "byte list \<Rightarrow> nat \<Rightarrow> 32 word" where
  "message_word bs i =
     push_bit 24 (ucast (bs ! (i * 4))) OR push_bit 16 (ucast (bs ! (i * 4 + 1))) OR
     push_bit 8 (ucast (bs ! (i * 4 + 2))) OR ucast (bs ! (i * 4 + 3))"

fun sha256_expand :: "nat \<Rightarrow> 32 word list \<Rightarrow> 32 word list" where
  "sha256_expand 0 m = m"
| "sha256_expand (Suc n) m =
     (let i = length m
      in sha256_expand n (m @ [SHA256_SIG1 (m ! (i - 2)) + m ! (i - 7) + SHA256_SIG0 (m ! (i - 15)) + m ! (i - 16)]))"

fun sha256_round :: "32 word list \<Rightarrow> nat \<Rightarrow> sha256_state \<Rightarrow> sha256_state" where
  "sha256_round m i (a, b, c, d, e, f, g, h) =
     (let t1 = h + SHA256_EP1 e + SHA256_CH e f g + K256 ! i + m ! i;
          t2 = SHA256_EP0 a + SHA256_MAJ a b c
      in (t1 + t2, a, b, c, d + t1, e, f, g))"

definition sha256_transform :: "sha256_state \<Rightarrow> byte list \<Rightarrow> sha256_state" where
  "sha256_transform state block =
     (let m = sha256_expand 48 (map (message_word block) [0..<16]);
          (s0, s1, s2, s3, s4, s5, s6, s7) = state;
          (a, b, c, d, e, f, g, h) = fold (sha256_round m) [0..<64] state
      in (s0 + a, s1 + b, s2 + c, s3 + d, s4 + e, s5 + f, s6 + g, s7 + h))"

section \<open>The incremental interface\<close>

record sha256 =
  sha_state :: sha256_state
  sha_count :: "64 word"
  sha_buffer :: "byte list"

definition sha256_iv :: sha256_state where
  "sha256_iv = (0x6a09e667, 0xbb67ae85, 0x3c6ef372, 0xa54ff53a, 0x510e527f, 0x9b05688c, 0x1f83d9ab, 0x5be0cd19)"

text \<open>The buffer of a context on the stack holds \<open>junk\<close> until it is written.\<close>

definition sha256_init :: "byte list \<Rightarrow> sha256" where
  "sha256_init junk = \<lparr>sha_state = sha256_iv, sha_count = 0, sha_buffer = junk\<rparr>"

text \<open>\<open>memcpy(&buf[at], data, n)\<close>\<close>

definition splice :: "byte list \<Rightarrow> nat \<Rightarrow> byte list \<Rightarrow> byte list" where
  "splice buf at data = take at buf @ data @ drop (at + length data) buf"

function sha256_loop :: "sha256 \<Rightarrow> nat \<Rightarrow> byte list \<Rightarrow> sha256" where
  "sha256_loop c buf_idx p =
     (if p = [] \<or> 64 \<le> buf_idx then c
      else
        let take_n = min (64 - buf_idx) (length p);
            c = c\<lparr>sha_buffer := splice (sha_buffer c) buf_idx (take take_n p)\<rparr>;
            buf_idx = buf_idx + take_n
        in if buf_idx = 64
           then sha256_loop (c\<lparr>sha_state := sha256_transform (sha_state c) (sha_buffer c)\<rparr>) 0 (drop take_n p)
           else sha256_loop c buf_idx (drop take_n p))"
  by pat_completeness auto
termination by (relation "measure (\<lambda>(_, _, p). length p)") (auto simp: min_def)

definition sha256_update :: "sha256 \<Rightarrow> byte list \<Rightarrow> sha256" where
  "sha256_update c data =
     sha256_loop (c\<lparr>sha_count := sha_count c + of_nat (length data)\<rparr>) (unat (sha_count c mod 64)) data"

definition sha256_digest :: "sha256_state \<Rightarrow> byte list" where
  "sha256_digest s = (case s of (a, b, c, d, e, f, g, h) \<Rightarrow>
     concat (map (\<lambda>w. [ucast (drop_bit 24 w), ucast (drop_bit 16 w), ucast (drop_bit 8 w), ucast w]) [a, b, c, d, e, f, g, h]))"

definition sha256_final :: "sha256 \<Rightarrow> byte list" where
  "sha256_final c =
     (let i = unat (sha_count c mod 64);
          c = c\<lparr>sha_buffer := splice (sha_buffer c) i [0x80]\<rparr>;
          i = i + 1;
          c = (if 56 < i
               then let c = c\<lparr>sha_buffer := splice (sha_buffer c) i (replicate (64 - i) 0)\<rparr>;
                        c = c\<lparr>sha_state := sha256_transform (sha_state c) (sha_buffer c)\<rparr>
                    in c\<lparr>sha_buffer := splice (sha_buffer c) 0 (replicate 56 0)\<rparr>
               else c\<lparr>sha_buffer := splice (sha_buffer c) i (replicate (56 - i) 0)\<rparr>);
          total_bits = sha_count c * 8;
          buf = fold (\<lambda>b buf. buf[56 + b := ucast (drop_bit ((7 - b) * 8) total_bits)]) [0..<8] (sha_buffer c)
      in sha256_digest (sha256_transform (sha_state c) buf))"

definition fresh_buffer :: "byte list" where
  "fresh_buffer = replicate 64 0"

definition sha256_hash :: "byte list \<Rightarrow> byte list" where
  "sha256_hash data = sha256_final (sha256_update (sha256_init fresh_buffer) data)"

section \<open>HMAC\<close>

definition hmac_sha256 :: "byte list \<Rightarrow> byte list \<Rightarrow> byte list" where
  "hmac_sha256 key data =
     (let k_pad = (if 64 < length key then splice (replicate 64 0) 0 (sha256_hash key)
                   else splice (replicate 64 0) 0 key);
          i_key_pad = map (\<lambda>b. b XOR 0x36) k_pad;
          o_key_pad = map (\<lambda>b. b XOR 0x5c) k_pad;
          inner_hash = sha256_final (sha256_update (sha256_update (sha256_init fresh_buffer) i_key_pad) data)
      in sha256_final (sha256_update (sha256_update (sha256_init fresh_buffer) o_key_pad) inner_hash))"

definition mcp_crypto_subtle_equal :: "byte list \<Rightarrow> byte list \<Rightarrow> nat \<Rightarrow> bool" where
  "mcp_crypto_subtle_equal a b len = (fold (\<lambda>i diff. diff OR (a ! i XOR b ! i)) [0..<len] 0 = 0)"

section \<open>The buffered code computes SHA-256\<close>

text \<open>The context after reading \<open>xs\<close>, in any number of calls.\<close>

definition sha256_read :: "byte list \<Rightarrow> sha256 \<Rightarrow> bool" where
  "sha256_read xs c \<longleftrightarrow> length (sha_buffer c) = 64 \<and> sha_count c = of_nat (length xs) \<and>
     sha_state c = hash_blocks sha256_transform sha256_iv xs \<and>
     take (length xs mod 64) (sha_buffer c) = tail_bytes xs"

declare sha256_loop.simps [simp del]

lemma length_splice [simp]: "at + length data \<le> length buf \<Longrightarrow> length (splice buf at data) = length buf"
  by (simp add: splice_def)

lemma take_splice: "at \<le> length buf \<Longrightarrow> take (at + length data) (splice buf at data) = take at buf @ data"
  by (simp add: splice_def)

lemma sha256_loop_reads:
  assumes "length (sha_buffer c) = 64" and "i < 64"
  shows "length (sha_buffer (sha256_loop c i p)) = 64 \<and> sha_count (sha256_loop c i p) = sha_count c \<and>
    sha_state (sha256_loop c i p) = hash_blocks sha256_transform (sha_state c) (take i (sha_buffer c) @ p) \<and>
    take ((i + length p) mod 64) (sha_buffer (sha256_loop c i p)) = tail_bytes (take i (sha_buffer c) @ p)"
  using assms
proof (induction c i p rule: sha256_loop.induct)
  case (1 c i p)
  define n where "n = min (64 - i) (length p)"
  define c' where "c' = c\<lparr>sha_buffer := splice (sha_buffer c) i (take n p)\<rparr>"
  have buf: "length (sha_buffer c') = 64" "take (i + n) (sha_buffer c') = take i (sha_buffer c) @ take n p"
    using 1(3,4) take_splice [of i "sha_buffer c" "take n p"] by (auto simp: c'_def n_def splice_def min_def)
  show ?case
  proof (cases "p = []")
    case True
    then show ?thesis using 1(3,4) by (simp add: sha256_loop.simps [of c i "[]"] tail_bytes_short)
  next
    case p: False
    show ?thesis
    proof (cases "i + n = 64")
      case True
      then have whole: "sha_buffer c' = take i (sha_buffer c) @ take n p" using buf by simp
      let ?c = "c'\<lparr>sha_state := sha256_transform (sha_state c') (sha_buffer c')\<rparr>"
      have run: "sha256_loop c i p = sha256_loop ?c 0 (drop n p)"
        using p True 1(4) unfolding sha256_loop.simps [of c i p] Let_def n_def [symmetric] c'_def [symmetric] by simp
      have split: "take i (sha_buffer c) @ p = sha_buffer c' @ drop n p" using whole by simp
      have "(i + length p) mod 64 = length (drop n p) mod 64"
      proof -
        have "i + length p = 64 + length (drop n p)" using True by (simp add: n_def)
        then show ?thesis by simp
      qed
      moreover have "length (sha_buffer ?c) = 64" using buf by simp
      moreover have "\<not> (p = [] \<or> 64 \<le> i)" using p 1(4) by simp
      note 1(1) [OF this n_def c'_def refl True]
      ultimately show ?thesis
        unfolding run split hash_blocks_step [OF buf(1)] tail_bytes_step [OF buf(1)] by (simp add: c'_def)
    next
      case False
      have run: "sha256_loop c i p = sha256_loop c' (i + n) (drop n p)"
        using p False 1(4) unfolding sha256_loop.simps [of c i p] Let_def n_def [symmetric] c'_def [symmetric] by simp
      have "n = length p" using False 1(4) by (auto simp: n_def min_def split: if_splits)
      then have "sha256_loop c i p = c'" "i + length p < 64" using run False 1(4) by (auto simp: sha256_loop.simps n_def)
      then show ?thesis using buf \<open>n = length p\<close> 1(3) by (simp add: tail_bytes_short c'_def)
    qed
  qed
qed

lemma count_mod: "unat (of_nat n mod 64 :: 64 word) = n mod 64"
  by (simp add: unat_mod unat_of_nat mod_mod_cancel)

lemma sha256_read_init: "length junk = 64 \<Longrightarrow> sha256_read [] (sha256_init junk)"
  by (simp add: sha256_read_def sha256_init_def tail_bytes_def)

lemma sha256_read_update:
  assumes "sha256_read xs c"
  shows "sha256_read (xs @ ys) (sha256_update c ys)"
proof -
  let ?c = "c\<lparr>sha_count := sha_count c + of_nat (length ys)\<rparr>"
  have c: "length (sha_buffer ?c) = 64" "sha_count c = of_nat (length xs)"
    "sha_state ?c = hash_blocks sha256_transform sha256_iv xs" "take (length xs mod 64) (sha_buffer ?c) = tail_bytes xs"
    using assms by (auto simp: sha256_read_def)
  have "(length xs mod 64 + length ys) mod 64 = (length xs + length ys) mod 64" by (simp add: mod_add_left_eq)
  with sha256_loop_reads [OF c(1), of "length xs mod 64" ys] c show ?thesis
    unfolding sha256_read_def sha256_update_def c(2) count_mod
    by (simp add: hash_blocks_append [of _ _ xs] tail_bytes_append [of xs])
qed

definition sha256_spec :: "byte list \<Rightarrow> byte list" where
  "sha256_spec data =
     (case hash_blocks sha256_transform sha256_iv (data @ hash_pad (length data)) of
        (a, b, c, d, e, f, g, h) \<Rightarrow> concat (map be32 [a, b, c, d, e, f, g, h]))"

lemma sha256_digest_be32:
  "sha256_digest s = (case s of (a, b, c, d, e, f, g, h) \<Rightarrow> concat (map be32 [a, b, c, d, e, f, g, h]))"
  by (simp add: sha256_digest_def be32_def upt_rec)

lemma put_bits: "length xs = 56 \<Longrightarrow> length ys = 8 \<Longrightarrow>
   fold (\<lambda>b buf. buf[56 + b := ucast (drop_bit ((7 - b) * 8) n)]) [0..<8] (xs @ ys) = xs @ be64 n"
  by (rule nth_equalityI) (auto simp: be64_def upt_rec nth_append nth_list_update)

lemma sha256_final_reads:
  assumes "sha256_read xs c"
  shows "sha256_final c = sha256_spec xs"
proof -
  define r where "r = tail_bytes xs"
  define s where "s = sha_state c"
  have r: "length r < 64" "length r mod 64 = length xs mod 64" by (simp_all add: r_def length_tail_bytes)
  have i: "unat (sha_count c mod 64) = length r" using assms by (simp add: sha256_read_def count_mod r_def length_tail_bytes)
  have buf: "length (sha_buffer c) = 64" "take (length r) (sha_buffer c) = r"
    using assms by (simp_all add: sha256_read_def r_def length_tail_bytes)
  have bits: "sha_count c * 8 = of_nat (8 * length xs)" using assms by (simp add: sha256_read_def)
  have spec: "sha256_spec xs = sha256_digest (hash_blocks sha256_transform s (r @ hash_pad (length xs)))"
    using assms by (simp add: sha256_spec_def hash_blocks_append [of _ _ xs] sha256_digest_be32 s_def r_def sha256_read_def)
  define b1 where "b1 = splice (sha_buffer c) (length r) [0x80]"
  have b1: "length b1 = 64" "take (length r + 1) b1 = r @ [0x80]"
    using r(1) buf take_splice [of "length r" "sha_buffer c" "[0x80]"] by (auto simp: b1_def)
  show ?thesis
  proof (cases "length r < 56")
    case True
    define b2 where "b2 = splice b1 (Suc (length r)) (replicate (55 - length r) 0)"
    have "take 56 b2 = r @ 0x80 # replicate (55 - length r) 0" "length b2 = 64"
      using True b1 take_splice [of "length r + 1" b1 "replicate (55 - length r) 0"] by (auto simp: b2_def)
    then have b2: "b2 = (r @ 0x80 # replicate (55 - length r) 0) @ drop 56 b2" "length (drop 56 b2) = 8"
      using append_take_drop_id [of 56 b2] by simp_all
    have "fold (\<lambda>b buf. buf[56 + b := ucast (drop_bit ((7 - b) * 8) n)]) [0..<8] b2 =
        r @ 0x80 # replicate (55 - length r) 0 @ be64 n" for n
      using put_bits [of "r @ 0x80 # replicate (55 - length r) 0" "drop 56 b2" n] b2 True by simp
    then show ?thesis
      using True spec hash_blocks_padded [OF r, of sha256_transform s] bits
      by (simp add: sha256_final_def i Let_def b1_def [symmetric] b2_def [symmetric] s_def)
  next
    case False
    define b2 where "b2 = splice b1 (Suc (length r)) (replicate (63 - length r) 0)"
    have b2: "b2 = r @ 0x80 # replicate (63 - length r) 0"
      using r(1) b1 by (simp add: b2_def splice_def)
    define b3 where "b3 = splice b2 0 (replicate 56 0)"
    have "length (drop 56 b2) = 8" using r(1) by (simp add: b2)
    then have b3: "fold (\<lambda>b buf. buf[56 + b := ucast (drop_bit ((7 - b) * 8) n)]) [0..<8] b3 = replicate 56 0 @ be64 n" for n
      using put_bits [of "replicate 56 0" "drop 56 b2" n] by (simp add: b3_def splice_def)
    have "\<not> length r + 1 \<le> 56" using False by simp
    then show ?thesis
      using False spec hash_blocks_padded [OF r, of sha256_transform s] bits b3
      by (simp add: sha256_final_def i Let_def b1_def [symmetric] b2_def [symmetric] b3_def [symmetric] s_def b2 [symmetric])
  qed
qed

section \<open>Hashing in pieces\<close>

text \<open>The contract of an incremental hash, on which HMAC relies.\<close>

locale streaming_hash =
  fixes reads :: "byte list \<Rightarrow> 'c \<Rightarrow> bool" and start :: "'c \<Rightarrow> bool" and update :: "'c \<Rightarrow> byte list \<Rightarrow> 'c"
    and final :: "'c \<Rightarrow> byte list" and spec :: "byte list \<Rightarrow> byte list"
  assumes reads_start: "start c \<Longrightarrow> reads [] c"
    and reads_update: "reads xs c \<Longrightarrow> reads (xs @ ys) (update c ys)"
    and final_reads: "reads xs c \<Longrightarrow> final c = spec xs"
begin

lemma reads_foldl: "reads xs c \<Longrightarrow> reads (xs @ concat chunks) (foldl update c chunks)"
proof (induction chunks arbitrary: xs c)
  case (Cons y chunks)
  from Cons.IH [OF reads_update [OF Cons.prems]] show ?case by simp
qed simp

lemma final_pieces: "start c \<Longrightarrow> final (foldl update c chunks) = spec (concat chunks)"
  using final_reads [OF reads_foldl [OF reads_start]] by simp

lemma final_one: "start c \<Longrightarrow> final (update c x) = spec x"
  using final_pieces [of c "[x]"] by simp

lemma final_two: "start c \<Longrightarrow> final (update (update c x) y) = spec (x @ y)"
  using final_pieces [of c "[x, y]"] by simp

end

interpretation sha256_stream: streaming_hash sha256_read "\<lambda>c. \<exists>junk. length junk = 64 \<and> c = sha256_init junk"
    sha256_update sha256_final sha256_spec
  by unfold_locales (auto intro: sha256_read_init sha256_read_update sha256_final_reads)

text \<open>
  C33: the incremental SHA-256 computes the hash of everything it was given, however it is cut
  into pieces and whatever the buffer of the context held before: the fold of the compression
  function over the 64-byte blocks of the padded message.
\<close>

theorem sha256_pieces:
  assumes "length junk = 64"
  shows "sha256_final (foldl sha256_update (sha256_init junk) chunks) = sha256_spec (concat chunks)"
  using assms by (intro sha256_stream.final_pieces) auto

theorem sha256_pieces_witness:
  "sha256_final (foldl sha256_update (sha256_init (replicate 64 7)) [bytes_of ''a'', [], bytes_of ''bc'']) =
     sha256_spec (bytes_of ''a'' @ bytes_of ''bc'')"
  using sha256_pieces [of "replicate 64 7" "[bytes_of ''a'', [], bytes_of ''bc'']"] by simp

lemma sha256_fresh: "\<exists>junk. length junk = 64 \<and> sha256_init fresh_buffer = sha256_init junk"
  by (rule exI [of _ fresh_buffer]) (simp add: fresh_buffer_def)

lemma length_concat_be32: "length (concat (map be32 ws)) = 4 * length ws"
  by (induction ws) (simp_all add: be32_def)

lemma length_sha256_spec [simp]: "length (sha256_spec data) = 32"
  unfolding sha256_spec_def by (simp split: prod.split add: length_concat_be32 del: concat.simps list.map)

lemma sha256_hash_spec: "sha256_hash data = sha256_spec data"
  unfolding sha256_hash_def by (rule sha256_stream.final_one [OF sha256_fresh])

definition hmac_key :: "byte list \<Rightarrow> byte list" where
  "hmac_key key = (let k = (if 64 < length key then sha256_spec key else key) in k @ replicate (64 - length k) 0)"

definition hmac_spec :: "byte list \<Rightarrow> byte list \<Rightarrow> byte list" where
  "hmac_spec key data =
     sha256_spec (map (\<lambda>b. b XOR 0x5c) (hmac_key key) @ sha256_spec (map (\<lambda>b. b XOR 0x36) (hmac_key key) @ data))"

text \<open>
  C19: \<open>hmac_sha256\<close> is HMAC as RFC 2104 defines it over SHA-256, for keys and messages of every
  length: a key longer than a block is hashed first, a shorter one is padded with zeros.
\<close>

theorem hmac_sha256_correct: "hmac_sha256 key data = hmac_spec key data"
proof -
  have "splice (replicate 64 0) 0 k = k @ replicate (64 - length k) 0" if "length k \<le> 64" for k
    using that by (simp add: splice_def drop_replicate)
  then have "(if 64 < length key then splice (replicate 64 0) 0 (sha256_hash key) else splice (replicate 64 0) 0 key) =
      hmac_key key"
    by (simp add: hmac_key_def sha256_hash_spec)
  then show ?thesis
    unfolding hmac_sha256_def hmac_spec_def Let_def
    by (simp only: sha256_stream.final_two [OF sha256_fresh])
qed

lemma length_hmac [simp]: "length (hmac_sha256 key data) = 32"
  by (simp add: hmac_sha256_def Let_def sha256_stream.final_two [OF sha256_fresh])

lemma word_or_eq_0: "a OR b = 0 \<longleftrightarrow> a = 0 \<and> b = 0" for a b :: "'a::len word"
  by (auto simp: bit_eq_iff bit_or_iff)

lemma word_xor_eq_0: "a XOR b = 0 \<longleftrightarrow> a = b" for a b :: "'a::len word"
  by (metis xor.assoc xor.right_neutral xor_self_eq)

lemma subtle_equal_iff:
  "length a = n \<Longrightarrow> length b = n \<Longrightarrow> mcp_crypto_subtle_equal a b n \<longleftrightarrow> a = b"
proof -
  have "fold (\<lambda>i diff. diff OR (a ! i XOR b ! i)) [0..<k] 0 = 0 \<longleftrightarrow> (\<forall>i < k. a ! i = b ! i)" for k
    by (induction k) (auto simp: word_or_eq_0 word_xor_eq_0 less_Suc_eq)
  then show "length a = n \<Longrightarrow> length b = n \<Longrightarrow> mcp_crypto_subtle_equal a b n \<longleftrightarrow> a = b"
    by (simp add: mcp_crypto_subtle_equal_def list_eq_iff_nth_eq)
qed

end
