(* ===== verification/Base64url.thy ===== *)
theory Base64url
  imports Sha1 Sha256
begin

text \<open>
  URL-safe Base64 as the request-state tokens use it (\<open>src/src/protocol/mrtr_state.c\<close>). The encoder
  writes no padding; the decoder reads both alphabets, with and without padding.
\<close>

section \<open>The code\<close>

definition k_b64url_chars :: string where
  "k_b64url_chars = ''ABCDEFGHIJKLMNOPQRSTUVWXYZabcdefghijklmnopqrstuvwxyz0123456789-_''"

definition code_of :: "char \<Rightarrow> int" where
  "code_of c = of_char c"

definition b64url_char_val :: "char \<Rightarrow> int" where
  "b64url_char_val c =
     (if 65 \<le> code_of c \<and> code_of c \<le> 90 then code_of c - 65
      else if 97 \<le> code_of c \<and> code_of c \<le> 122 then code_of c - 97 + 26
      else if 48 \<le> code_of c \<and> code_of c \<le> 57 then code_of c - 48 + 52
      else if c = CHR ''-'' \<or> c = CHR ''+'' then 62
      else if c = CHR ''_'' \<or> c = CHR ''/'' then 63
      else if c = CHR ''='' then - 2
      else - 1)"

definition sextet :: "32 word \<Rightarrow> nat \<Rightarrow> 32 word" where
  "sextet v n = drop_bit n v AND 0x3F"

definition b64url_char :: "32 word \<Rightarrow> nat \<Rightarrow> char" where
  "b64url_char v n = k_b64url_chars ! unat (sextet v n)"

fun b64url_text :: "byte list \<Rightarrow> string" where
  "b64url_text (x # y # z # data) =
     (let v = push_bit 16 (ucast x) OR push_bit 8 (ucast y) OR ucast z
      in [b64url_char v 18, b64url_char v 12, b64url_char v 6, b64url_char v 0] @ b64url_text data)"
| "b64url_text [x] = (let v = push_bit 16 (ucast x) in [b64url_char v 18, b64url_char v 12])"
| "b64url_text [x, y] =
     (let v = push_bit 16 (ucast x) OR push_bit 8 (ucast y) in [b64url_char v 18, b64url_char v 12, b64url_char v 6])"
| "b64url_text [] = []"

definition b64url_encode :: "byte list \<Rightarrow> ('z heap_scheme, string option) state" where
  "b64url_encode data = do { ok \<leftarrow> xmalloc; ret (if ok then Some (b64url_text data) else None) }"

text \<open>The loop of the decoder: the accumulated bits, how many of them are pending, and the output.\<close>

fun b64url_loop :: "32 word \<Rightarrow> nat \<Rightarrow> byte list \<Rightarrow> string \<Rightarrow> (32 word \<times> nat \<times> byte list) option" where
  "b64url_loop val bits out [] = Some (val, bits, out)"
| "b64url_loop val bits out (c # cs) =
     (let v = b64url_char_val c
      in if v = - 2 then (if list_all (\<lambda>k. k = CHR ''='') cs then Some (val, bits, out) else None)
         else if v < 0 then None
         else let val = push_bit 6 val OR word_of_int v; bits = bits + 6
              in if 8 \<le> bits then b64url_loop val (bits - 8) (out @ [ucast (drop_bit (bits - 8) val)]) cs
                 else b64url_loop val bits out cs)"

definition b64url_result :: "string \<Rightarrow> byte list option" where
  "b64url_result str =
     (case b64url_loop 0 0 [] str of
        None \<Rightarrow> None
      | Some (val, bits, out) \<Rightarrow>
          if 6 \<le> bits \<or> 0 < bits \<and> val AND (push_bit bits 1 - 1) \<noteq> 0 then None else Some out)"

definition b64url_decode :: "string \<Rightarrow> ('z heap_scheme, byte list option) state" where
  "b64url_decode str = do {
     ok \<leftarrow> xmalloc;
     (if \<not> ok then ret None
      else (case b64url_result str of
              None \<Rightarrow> do { xfree True; ret None }
            | Some out \<Rightarrow> ret (Some out)))
   }"

section \<open>Round trip\<close>

lemma char_val_alphabet:
  "n < 64 \<Longrightarrow> b64url_char_val (k_b64url_chars ! n) = int n"
  "n < 64 \<Longrightarrow> b64url_char_val (kBase64Chars ! n) = int n"
proof -
  have "list_all (\<lambda>n. b64url_char_val (k_b64url_chars ! n) = int n \<and> b64url_char_val (kBase64Chars ! n) = int n) [0..<64]"
    by code_simp
  then show "n < 64 \<Longrightarrow> b64url_char_val (k_b64url_chars ! n) = int n"
    "n < 64 \<Longrightarrow> b64url_char_val (kBase64Chars ! n) = int n"
    by (simp_all add: list_all_iff)
qed

lemma sextet_mask: "sextet v n = take_bit 6 (drop_bit n v)"
proof -
  have "(0x3F :: 32 word) = mask 6" by (simp add: mask_eq_exp_minus_1)
  then show ?thesis by (simp add: sextet_def take_bit_eq_mask)
qed

lemma sextet_less: "unat (sextet v n) < 64"
  unfolding sextet_mask unsigned_take_bit_eq by (rule less_le_trans [OF take_bit_nat_less_exp]) simp

lemma char_val_sextet:
  "b64url_char_val (b64url_char v n) = uint (sextet v n)" "b64url_char_val (b64_char v n) = uint (sextet v n)"
  using char_val_alphabet [OF sextet_less, of v n]
  by (simp_all add: b64url_char_def b64_char_def flip: sextet_def)

text \<open>One character that the encoder wrote.\<close>

lemma b64url_loop_sextet:
  assumes "b64url_char_val c = uint (sextet v n)"
  shows "b64url_loop val bits out (c # cs) =
    (let val = push_bit 6 val OR sextet v n
     in if 2 \<le> bits then b64url_loop val (bits - 2) (out @ [ucast (drop_bit (bits - 2) val)]) cs
        else b64url_loop val (bits + 6) out cs)"
proof -
  have "0 \<le> uint (sextet v n)" by simp
  then have ne: "uint (sextet v n) \<noteq> - 2" and nonneg: "\<not> uint (sextet v n) < 0" by linarith+
  show ?thesis unfolding b64url_loop.simps Let_def assms if_not_P [OF ne] if_not_P [OF nonneg] by simp
qed

declare b64url_loop.simps(2) [simp del]

lemma less_8_cases: "(n::nat) < 8 \<Longrightarrow> n = 0 \<or> n = 1 \<or> n = 2 \<or> n = 3 \<or> n = 4 \<or> n = 5 \<or> n = 6 \<or> n = 7"
  by auto

lemma bit_byte_high: "8 \<le> n \<Longrightarrow> \<not> bit x n" for x :: byte
  using bit_imp_le_length [of x n] by auto

lemmas bit_ops = bit_or_iff bit_push_bit_iff bit_drop_bit_eq bit_take_bit_iff bit_unsigned_iff

text \<open>What the decoder has after reading two, three and four characters of a group.\<close>

lemma pack_bytes:
  fixes x y z :: byte and v0 :: "32 word"
  defines "v \<equiv> push_bit 16 (ucast x) OR push_bit 8 (ucast y) OR ucast z :: 32 word"
  defines "v2 \<equiv> push_bit 6 (push_bit 6 v0 OR sextet v 18) OR sextet v 12"
  defines "v3 \<equiv> push_bit 6 v2 OR sextet v 6"
  shows "ucast (drop_bit 4 v2) = x" "ucast (drop_bit 2 v3) = y" "ucast (push_bit 6 v3 OR sextet v 0) = z"
    "y = 0 \<Longrightarrow> z = 0 \<Longrightarrow> take_bit 4 v2 = 0" "z = 0 \<Longrightarrow> take_bit 2 v3 = 0"
proof -
  note defs = v_def v2_def v3_def sextet_mask
  have "bit (ucast (drop_bit 4 v2) :: byte) n = bit x n" "bit (ucast (drop_bit 2 v3) :: byte) n = bit y n"
    "bit (ucast (push_bit 6 v3 OR sextet v 0) :: byte) n = bit z n" if "n < 8" for n
    using less_8_cases [OF that] unfolding defs by (elim disjE; simp add: bit_ops bit_byte_high)+
  then show "ucast (drop_bit 4 v2) = x" "ucast (drop_bit 2 v3) = y" "ucast (push_bit 6 v3 OR sextet v 0) = z"
    by (simp_all add: bit_eq_iff bit_byte_high)
  have "n = 0 \<or> n = 1 \<or> n = 2 \<or> n = 3" if "n < 4" for n :: nat using that by auto
  then have "\<not> bit v2 n" if "y = 0" "z = 0" "n < 4" for n
    using that unfolding defs by (fastforce simp: bit_ops bit_byte_high)
  then show "take_bit 4 v2 = 0" if "y = 0" "z = 0" using that by (auto simp: bit_eq_iff bit_take_bit_iff)
  have "n = 0 \<or> n = 1" if "n < 2" for n :: nat using that by auto
  then have "\<not> bit v3 n" if "z = 0" "n < 2" for n
    using that unfolding defs by (fastforce simp: bit_ops bit_byte_high)
  then show "take_bit 2 v3 = 0" if "z = 0" using that by (auto simp: bit_eq_iff bit_take_bit_iff)
qed

section \<open>Decoding what was encoded\<close>

lemma b64url_loop_group:
  fixes x y z :: byte
  defines "v \<equiv> push_bit 16 (ucast x) OR push_bit 8 (ucast y) OR ucast z :: 32 word"
  assumes "b64url_char_val c0 = uint (sextet v 18)" "b64url_char_val c1 = uint (sextet v 12)"
    "b64url_char_val c2 = uint (sextet v 6)" "b64url_char_val c3 = uint (sextet v 0)"
  shows "\<exists>val'. b64url_loop val 0 out (c0 # c1 # c2 # c3 # cs) = b64url_loop val' 0 (out @ [x, y, z]) cs"
    and "\<exists>val'. b64url_loop val 0 out (c0 # c1 # c2 # cs) = b64url_loop val' 2 (out @ [x, y]) cs \<and> (z = 0 \<longrightarrow> take_bit 2 val' = 0)"
    and "\<exists>val'. b64url_loop val 0 out (c0 # c1 # cs) = b64url_loop val' 4 (out @ [x]) cs \<and> (y = 0 \<and> z = 0 \<longrightarrow> take_bit 4 val' = 0)"
proof -
  note step = assms(2-5) [THEN b64url_loop_sextet]
  define v2 where "v2 = push_bit 6 (push_bit 6 val OR sextet v 18) OR sextet v 12"
  define v3 where "v3 = push_bit 6 v2 OR sextet v 6"
  define v4 where "v4 = push_bit 6 v3 OR sextet v 0"
  have eq: "b64url_loop val 0 out (c0 # c1 # cs) = b64url_loop v2 4 (out @ [ucast (drop_bit 4 v2)]) cs"
    "b64url_loop v2 4 out (c2 # cs) = b64url_loop v3 2 (out @ [ucast (drop_bit 2 v3)]) cs"
    "b64url_loop v3 2 out (c3 # cs) = b64url_loop v4 0 (out @ [ucast v4]) cs" for out cs
    by (simp_all add: step Let_def v2_def [symmetric] v3_def [symmetric] v4_def [symmetric] del: push_bit_or drop_bit_or)
  note pack = pack_bytes [where ?v0.0 = val and x = x and y = y and z = z, folded v_def, folded v2_def, folded v3_def, folded v4_def]
  show "\<exists>val'. b64url_loop val 0 out (c0 # c1 # cs) = b64url_loop val' 4 (out @ [x]) cs \<and> (y = 0 \<and> z = 0 \<longrightarrow> take_bit 4 val' = 0)"
    using pack(1,4) by (intro exI [of _ v2]) (simp add: eq)
  show "\<exists>val'. b64url_loop val 0 out (c0 # c1 # c2 # cs) = b64url_loop val' 2 (out @ [x, y]) cs \<and> (z = 0 \<longrightarrow> take_bit 2 val' = 0)"
    using pack(1,2,5) by (intro exI [of _ v3]) (simp add: eq)
  show "\<exists>val'. b64url_loop val 0 out (c0 # c1 # c2 # c3 # cs) = b64url_loop val' 0 (out @ [x, y, z]) cs"
    using pack(1,2,3) by (intro exI [of _ v4]) (simp add: eq)
qed

lemma b64url_loop_text:
  "\<exists>val' bits. b64url_loop val 0 out (b64url_text data) = Some (val', bits, out @ data) \<and> bits < 6 \<and> take_bit bits val' = 0"
proof (induction data arbitrary: val out rule: b64url_text.induct)
  case (1 x y z data)
  let ?v = "push_bit 16 (ucast x) OR push_bit 8 (ucast y) OR ucast z :: 32 word"
  obtain val' where "b64url_loop val 0 out (b64url_text (x # y # z # data)) = b64url_loop val' 0 (out @ [x, y, z]) (b64url_text data)"
    using b64url_loop_group(1) [OF char_val_sextet(1) [of ?v] char_val_sextet(1) [of ?v] char_val_sextet(1) [of ?v]
      char_val_sextet(1) [of ?v], of val out "b64url_text data"] by (auto simp: Let_def)
  then show ?case using 1 [of _ val' "out @ [x, y, z]"] by simp
next
  case (2 x)
  let ?v = "push_bit 16 (ucast x) OR push_bit 8 (ucast (0 :: byte)) OR ucast (0 :: byte) :: 32 word"
  show ?case
    using b64url_loop_group(3) [OF char_val_sextet(1) [of ?v] char_val_sextet(1) [of ?v] char_val_sextet(1) [of ?v]
      char_val_sextet(1) [of ?v], of val out "[]"] by (auto simp: Let_def)
next
  case (3 x y)
  let ?v = "push_bit 16 (ucast x) OR push_bit 8 (ucast y) OR ucast (0 :: byte) :: 32 word"
  show ?case
    using b64url_loop_group(2) [OF char_val_sextet(1) [of ?v] char_val_sextet(1) [of ?v] char_val_sextet(1) [of ?v]
      char_val_sextet(1) [of ?v], of val out "[]"] by (auto simp: Let_def)
qed simp

lemma low_bits_mask: "val AND (push_bit bits 1 - 1) = take_bit bits val" for val :: "32 word"
  by (simp add: take_bit_eq_mask mask_eq_exp_minus_1 push_bit_eq_mult)


lemma b64url_result_text: "b64url_result (b64url_text data) = Some data"
  using b64url_loop_text [of 0 "[]" data] by (auto simp: b64url_result_def low_bits_mask simp del: push_bit_of_1)

section \<open>Properties\<close>

text \<open>The size of the block that the encoder allocates, without the terminator.\<close>

definition b64url_out_len :: "nat \<Rightarrow> nat" where
  "b64url_out_len len = (len div 3) * 4 + (if len mod 3 = 1 then 2 else if len mod 3 = 2 then 3 else 0)"

lemma length_b64url_text: "length (b64url_text data) = b64url_out_len (length data)"
proof (induction data rule: b64url_text.induct)
  case (1 x y z data)
  have "b64url_out_len (length (x # y # z # data)) = 4 + b64url_out_len (length data)"
  proof -
    have "length (x # y # z # data) = 3 + length data" by simp
    then show ?thesis unfolding b64url_out_len_def by (simp only:) (simp add: div_add_self1)
  qed
  then show ?case using 1 by (simp add: Let_def)
qed (simp_all add: b64url_out_len_def Let_def)

lemma b64url_loop_bound:
  "b64url_loop val bits out str = Some (val', bits', out') \<Longrightarrow> bits < 8 \<Longrightarrow>
   8 * length out' + bits' \<le> 8 * length out + bits + 6 * length str \<and> bits' < 8"
proof (induction val bits out str arbitrary: val' bits' out' rule: b64url_loop.induct)
  case (2 val bits out c cs)
  define v where "v = b64url_char_val c"
  define w where "w = push_bit 6 val OR word_of_int v"
  show ?case
  proof (cases "v < 0")
    case True
    then show ?thesis using 2(3,4) by (auto simp: b64url_loop.simps(2) v_def Let_def split: if_splits)
  next
    case False
    then have v: "v \<noteq> - 2" by auto
    show ?thesis
    proof (cases "8 \<le> bits + 6")
      case True
      then have "b64url_loop w (bits + 6 - 8) (out @ [ucast (drop_bit (bits + 6 - 8) w)]) cs = Some (val', bits', out')"
        using 2(3) v False by (simp add: b64url_loop.simps(2) v_def [symmetric] w_def Let_def del: drop_bit_or)
      moreover have "bits + 6 - 8 < 8" using 2(4) by simp
      ultimately show ?thesis using 2(1) [OF v_def v False w_def refl True] True by fastforce
    next
      case small: False
      then have "b64url_loop w (bits + 6) out cs = Some (val', bits', out')"
        using 2(3) v False by (simp add: b64url_loop.simps(2) v_def [symmetric] w_def Let_def)
      moreover have "bits + 6 < 8" using small by simp
      ultimately show ?thesis using 2(2) [OF v_def v False w_def refl small] by fastforce
    qed
  qed
qed simp

text \<open>
  C34: URL-safe Base64. Decoding the text of any bytes gives the bytes back. The encoder writes
  exactly the characters it allocates room for, and whatever text the decoder reads, what it has
  written at any point fits the \<open>(len / 4 + 1) * 3\<close> bytes it allocates.
\<close>

theorem b64url_roundtrip:
  "b64url_result (b64url_text data) = Some data \<and> length (b64url_text data) = b64url_out_len (length data) \<and>
   (case b64url_loop 0 0 [] str of None \<Rightarrow> True | Some (val, bits, out) \<Rightarrow> length out \<le> (length str div 4 + 1) * 3)"
proof (intro conjI)
  have "length out \<le> (length str div 4 + 1) * 3" if "b64url_loop 0 0 [] str = Some (val, bits, out)" for val bits out
  proof -
    have "8 * length out \<le> 6 * length str" using b64url_loop_bound [OF that] by simp
    moreover have "length str < 4 * (length str div 4) + 4" by (simp add: dividend_less_times_div)
    ultimately show ?thesis by arith
  qed
  then show "case b64url_loop 0 0 [] str of None \<Rightarrow> True | Some (val, bits, out) \<Rightarrow> length out \<le> (length str div 4 + 1) * 3"
    by (auto split: option.split)
qed (rule b64url_result_text length_b64url_text)+

section \<open>The accept key\<close>

definition b64_group :: "byte list \<Rightarrow> nat \<Rightarrow> string" where
  "b64_group bs k =
     (let v = push_bit 16 (ucast (bs ! (3 * k))) OR push_bit 8 (ucast (bs ! (3 * k + 1))) OR ucast (bs ! (3 * k + 2))
      in [b64_char v 18, b64_char v 12, b64_char v 6, b64_char v 0])"

lemma b64url_loop_groups:
  "3 * n \<le> length bs \<Longrightarrow>
   \<exists>val'. b64url_loop val 0 out (concat (map (b64_group bs) [0..<n]) @ cs) = b64url_loop val' 0 (out @ take (3 * n) bs) cs"
proof (induction n arbitrary: cs)
  case (Suc n)
  let ?x = "bs ! (3 * n)" and ?y = "bs ! (3 * n + 1)" and ?z = "bs ! (3 * n + 2)"
  let ?v = "push_bit 16 (ucast ?x) OR push_bit 8 (ucast ?y) OR ucast ?z :: 32 word"
  note val = char_val_sextet(2) [of ?v]
  obtain val' where 1: "b64url_loop val 0 out (concat (map (b64_group bs) [0..<n]) @ (b64_group bs n @ cs)) =
      b64url_loop val' 0 (out @ take (3 * n) bs) (b64_group bs n @ cs)"
    using Suc.IH [of "b64_group bs n @ cs"] Suc.prems by auto
  obtain val'' where 2: "b64url_loop val' 0 (out @ take (3 * n) bs) (b64_group bs n @ cs) =
      b64url_loop val'' 0 ((out @ take (3 * n) bs) @ [?x, ?y, ?z]) cs"
    using b64url_loop_group(1) [OF val val val val, of val' "out @ take (3 * n) bs" cs] by (auto simp: b64_group_def Let_def)
  have "take (3 * Suc n) bs = take (3 * n) bs @ [?x, ?y, ?z]"
    using Suc.prems by (simp add: numeral_3_eq_3 take_Suc_conv_app_nth)
  with 1 2 show ?case by auto
qed auto

lemma base64_20_decodes:
  assumes "length bs = 20"
  shows "b64url_result (base64_encode_20 bs) = Some bs"
proof -
  let ?v = "push_bit 16 (ucast (bs ! 18)) OR push_bit 8 (ucast (bs ! 19)) OR ucast (0 :: byte) :: 32 word"
  note val = char_val_sextet(2) [of ?v]
  have enc: "base64_encode_20 bs =
      concat (map (b64_group bs) [0..<6]) @ [b64_char ?v 18, b64_char ?v 12, b64_char ?v 6, CHR ''='']"
    by (simp add: base64_encode_20_def b64_group_def [abs_def] Let_def)
  obtain val' where 1: "b64url_loop 0 0 [] (base64_encode_20 bs) =
      b64url_loop val' 0 (take 18 bs) [b64_char ?v 18, b64_char ?v 12, b64_char ?v 6, CHR ''='']"
    using b64url_loop_groups [of 6 bs 0 "[]"] assms unfolding enc by auto
  obtain val'' where 2: "b64url_loop val' 0 (take 18 bs) [b64_char ?v 18, b64_char ?v 12, b64_char ?v 6, CHR ''=''] =
      b64url_loop val'' 2 (take 18 bs @ [bs ! 18, bs ! 19]) [CHR ''='']" "take_bit 2 val'' = 0"
    using b64url_loop_group(2) [OF val val val val, of val' "take 18 bs" "[CHR ''='']"] by auto
  have "take 18 bs @ [bs ! 18, bs ! 19] = bs"
    using assms by (auto simp: list_eq_iff_nth_eq nth_append less_Suc_eq numeral_eq_Suc)
  moreover have "b64url_char_val (CHR ''='') = - 2" by code_simp
  ultimately have "b64url_loop 0 0 [] (base64_encode_20 bs) = Some (val'', 2, bs)"
    unfolding 1 2(1) by (simp add: b64url_loop.simps(2))
  with 2(2) show ?thesis by (simp add: b64url_result_def low_bits_mask del: push_bit_of_1)
qed


end
