(* ===== verification/Mrtr_State.thy ===== *)
theory Mrtr_State
  imports Message Base64url
begin

text \<open>
  The request-state tokens of multi round-trip requests (\<open>src/src/protocol/mrtr_state.c\<close>). A token is
  \<open>payload.issued.ttl.signature\<close>: the payload in URL-safe Base64, two decimal times and the HMAC of
  what comes before it, or the word \<open>unsigned\<close>. The current time is an argument.
\<close>

section \<open>Packing\<close>

definition token_meta :: "64 word \<Rightarrow> 64 word \<Rightarrow> string" where
  "token_meta issued_at_ms ttl_ms = ''.'' @ digit_chars (unat issued_at_ms) @ ''.'' @ digit_chars (unat ttl_ms)"

text \<open>The signature of the signed part, in its own block.\<close>

definition token_signature :: "byte list option \<Rightarrow> string \<Rightarrow> ('z heap_scheme, string option) state" where
  "token_signature key signed_part =
     (case key of
        Some (k # ks) \<Rightarrow> b64url_encode (hmac_sha256 (k # ks) (bytes_of signed_part))
      | _ \<Rightarrow> do { ok \<leftarrow> xmalloc; ret (if ok then Some ''unsigned'' else None) })"

text \<open>A NULL pointer with length 0 is allowed as data, as is a NULL or empty key.\<close>

definition mcp_mrtr_state_pack_raw_ex ::
  "byte list option \<Rightarrow> nat \<Rightarrow> byte list option \<Rightarrow> 64 word \<Rightarrow> 64 word \<Rightarrow>
   ('z heap_scheme, mcp_status \<times> string option) state" where
  "mcp_mrtr_state_pack_raw_ex data data_len key issued_at_ms ttl_ms =
     (if data = None \<and> 0 < data_len then ret (MCP_ERR_INVALID_ARGUMENT, None)
      else do {
        b64_payload \<leftarrow> b64url_encode (case data of None \<Rightarrow> [] | Some bs \<Rightarrow> take data_len bs);
        (case b64_payload of
           None \<Rightarrow> ret (MCP_ERR_NOMEM, None)
         | Some payload \<Rightarrow>
             if 64 \<le> length (token_meta issued_at_ms ttl_ms)
             then do { xfree True; ret (MCP_ERR_NOMEM, None) }
             else do {
               ok \<leftarrow> xmalloc;
               (if \<not> ok then do { xfree True; ret (MCP_ERR_NOMEM, None) }
                else let signed_part = payload @ token_meta issued_at_ms ttl_ms in do {
                  xfree True;
                  sig_str \<leftarrow> token_signature key signed_part;
                  (case sig_str of
                     None \<Rightarrow> do { xfree True; ret (MCP_ERR_NOMEM, None) }
                   | Some sig \<Rightarrow> do {
                       ok \<leftarrow> xmalloc;
                       xfree True;
                       xfree True;
                       ret (if ok then (MCP_OK, Some (signed_part @ ''.'' @ sig)) else (MCP_ERR_NOMEM, None))
                     })
                })
             })
      })"

definition mcp_mrtr_state_pack_raw ::
  "64 word \<Rightarrow> byte list option \<Rightarrow> nat \<Rightarrow> byte list option \<Rightarrow> 64 word \<Rightarrow>
   ('z heap_scheme, mcp_status \<times> string option) state" where
  "mcp_mrtr_state_pack_raw current_time_ms data data_len key ttl_ms =
     mcp_mrtr_state_pack_raw_ex data data_len key current_time_ms ttl_ms"

section \<open>Unpacking\<close>

fun parse_digits :: "64 word \<Rightarrow> string \<Rightarrow> 64 word option" where
  "parse_digits val [] = Some val"
| "parse_digits val (c # cs) =
     (if code_of c < 48 \<or> 57 < code_of c then None
      else let digit = word_of_int (code_of c - 48)
           in if (- 1 - digit) div 10 < val then None else parse_digits (val * 10 + digit) cs)"

definition parse_uint64 :: "string \<Rightarrow> 64 word option" where
  "parse_uint64 s = (if s = [] \<or> 20 < length s then None else parse_digits 0 s)"

text \<open>\<open>strchr(s, '.')\<close>: what stands before the first dot and what stands behind it.\<close>

fun cut_dot :: "string \<Rightarrow> (string \<times> string) option" where
  "cut_dot [] = None"
| "cut_dot (c # cs) = (if c = CHR ''.'' then Some ([], cs) else map_option (apfst (Cons c)) (cut_dot cs))"

definition token_parts :: "string \<Rightarrow> (string \<times> string \<times> string \<times> string) option" where
  "token_parts state_str =
     (case cut_dot state_str of
        None \<Rightarrow> None
      | Some (part0, r1) \<Rightarrow>
          (case cut_dot r1 of
             None \<Rightarrow> None
           | Some (part1, r2) \<Rightarrow>
               (case cut_dot r2 of
                  None \<Rightarrow> None
                | Some (part2, part3) \<Rightarrow>
                    if cut_dot part3 \<noteq> None then None else Some (part0, part1, part2, part3))))"

definition token_signed_ok :: "byte list option \<Rightarrow> string \<Rightarrow> string \<Rightarrow> ('z heap_scheme, bool) state" where
  "token_signed_ok key signed_part part3 =
     (case key of
        Some (k # ks) \<Rightarrow>
          if part3 = ''unsigned'' then ret False
          else do {
            sig \<leftarrow> b64url_decode part3;
            (case sig of
               None \<Rightarrow> ret False
             | Some sig_bytes \<Rightarrow>
                 if length sig_bytes \<noteq> 32 then do { xfree True; ret False }
                 else do {
                   xfree True;
                   ret (mcp_crypto_subtle_equal (hmac_sha256 (k # ks) (bytes_of signed_part)) sig_bytes 32)
                 })
          }
      | _ \<Rightarrow> ret (part3 = ''unsigned''))"

definition token_time_check :: "64 word \<Rightarrow> 64 word \<Rightarrow> 64 word \<Rightarrow> mcp_status" where
  "token_time_check issued_at ttl now_ms =
     (if 0 < ttl then
        if now_ms < issued_at \<and> 10000 < issued_at - now_ms then MCP_ERR_INVALID_ARGUMENT
        else if issued_at + ttl < now_ms then MCP_ERR_TIMEOUT
        else MCP_OK
      else MCP_OK)"

definition mcp_mrtr_state_unpack_raw_ex ::
  "string option \<Rightarrow> byte list option \<Rightarrow> 64 word \<Rightarrow> ('z heap_scheme, mcp_status \<times> byte list option) state" where
  "mcp_mrtr_state_unpack_raw_ex state_str key now_ms =
     (case state_str of
        None \<Rightarrow> ret (MCP_ERR_INVALID_ARGUMENT, None)
      | Some s \<Rightarrow>
          (case token_parts s of
             None \<Rightarrow> ret (MCP_ERR_INVALID_ARGUMENT, None)
           | Some (part0, part1, part2, part3) \<Rightarrow>
               (case (parse_uint64 part1, parse_uint64 part2) of
                  (Some issued_at, Some ttl) \<Rightarrow> do {
                    ok \<leftarrow> token_signed_ok key (part0 @ ''.'' @ part1 @ ''.'' @ part2) part3;
                    (if \<not> ok then ret (MCP_ERR_PERMISSION, None)
                     else if token_time_check issued_at ttl now_ms \<noteq> MCP_OK
                     then ret (token_time_check issued_at ttl now_ms, None)
                     else do {
                       payload \<leftarrow> b64url_decode part0;
                       ret (if payload = None \<and> part0 \<noteq> [] then (MCP_ERR_INVALID_ARGUMENT, None) else (MCP_OK, payload))
                     })
                  }
                | _ \<Rightarrow> ret (MCP_ERR_INVALID_ARGUMENT, None))))"

definition mcp_mrtr_state_unpack_raw ::
  "64 word \<Rightarrow> string option \<Rightarrow> byte list option \<Rightarrow> ('z heap_scheme, mcp_status \<times> byte list option) state" where
  "mcp_mrtr_state_unpack_raw current_time_ms state_str key = mcp_mrtr_state_unpack_raw_ex state_str key current_time_ms"

definition mcp_mrtr_state_free :: "'a option \<Rightarrow> ('z heap_scheme, unit) state" where
  "mcp_mrtr_state_free state = xfree (state \<noteq> None)"

section \<open>JSON states\<close>

definition string_of :: "byte list \<Rightarrow> string" where
  "string_of bs = map (\<lambda>b. char_of (unat b)) bs"

definition mcp_mrtr_state_pack ::
  "64 word \<Rightarrow> json option \<Rightarrow> byte list option \<Rightarrow> 64 word \<Rightarrow> ('z heap_scheme, mcp_status \<times> string option) state" where
  "mcp_mrtr_state_pack current_time_ms state key ttl_ms =
     (case state of
        None \<Rightarrow> ret (MCP_ERR_INVALID_ARGUMENT, None)
      | Some _ \<Rightarrow> do {
          json_str \<leftarrow> builtin_serialize state;
          (case json_str of
             None \<Rightarrow> ret (MCP_ERR_NOMEM, None)
           | Some s \<Rightarrow> do {
               st \<leftarrow> mcp_mrtr_state_pack_raw current_time_ms (Some (bytes_of s)) (length (cstr s)) key ttl_ms;
               xfree True;
               ret st
             })
        })"

definition mcp_mrtr_state_unpack ::
  "64 word \<Rightarrow> string option \<Rightarrow> byte list option \<Rightarrow> ('z heap_scheme, mcp_status \<times> json option) state" where
  "mcp_mrtr_state_unpack current_time_ms state_str key =
     (case state_str of
        None \<Rightarrow> ret (MCP_ERR_INVALID_ARGUMENT, None)
      | Some _ \<Rightarrow> do {
          r \<leftarrow> mcp_mrtr_state_unpack_raw current_time_ms state_str key;
          (if fst r \<noteq> MCP_OK then ret (fst r, None)
           else do {
             val \<leftarrow> builtin_parse (map_option string_of (snd r));
             mcp_mrtr_state_free (snd r);
             ret (if val = None then MCP_ERR_INVALID_ARGUMENT else MCP_OK, val)
           })
        })"

section \<open>Decimal numbers\<close>

lemma digit_chars_bound: "n < 10 ^ Suc k \<Longrightarrow> length (digit_chars n) \<le> Suc k"
proof (induction k arbitrary: n)
  case (Suc k)
  then show ?case
    by (subst digit_chars.simps) (auto simp: less_mult_imp_div_less)
qed (simp add: digit_chars.simps)

lemma unat_64: "unat (n :: 64 word) < 18446744073709551616"
  using unsigned_less [of n, where ?'a = nat] by simp

lemma digit_chars_20: "length (digit_chars (unat (n :: 64 word))) \<le> 20"
proof -
  have "unat n < 10 ^ Suc 19" using unat_64 [of n] by simp
  from digit_chars_bound [OF this] show ?thesis by simp
qed

lemma digits_val_ge: "acc \<le> digits_val acc ds"
proof (induction ds arbitrary: acc)
  case (Cons c cs)
  have "acc \<le> acc * 10 + (of_char c - 48)" by simp
  also have "\<dots> \<le> digits_val (acc * 10 + (of_char c - 48)) cs" by (rule Cons)
  finally show ?case by simp
qed simp

lemma digit_room:
  fixes val digit :: "64 word"
  shows "(- 1 - digit) div 10 < val \<longleftrightarrow> 2 ^ 64 \<le> unat val * 10 + unat digit"
proof -
  have d: "unat digit < 2 ^ 64" using unat_64 [of digit] by simp
  have "unat (- 1 - digit) = 2 ^ 64 - 1 - unat digit"
    by (subst unat_sub) (simp_all add: unsigned_minus_1_eq_mask mask_eq_exp_minus_1)
  then have "unat ((- 1 - digit) div 10) = (2 ^ 64 - 1 - unat digit) div 10" by (simp add: unat_div)
  then show ?thesis using d by (auto simp: word_less_nat_alt)
qed

lemma parse_digits_val:
  "list_all is_digit ds \<Longrightarrow> parse_digits val ds =
     (if digits_val (unat val) ds < 2 ^ 64 then Some (of_nat (digits_val (unat val) ds)) else None)"
proof (induction ds arbitrary: val)
  case (Cons c cs)
  define d where "d = (of_char c - 48 :: nat)"
  define w where "w = (word_of_int (code_of c - 48) :: 64 word)"
  have c: "48 \<le> (of_char c :: nat)" "(of_char c :: nat) \<le> 57" using Cons.prems by (auto simp: is_digit_def)
  have code: "code_of c = int (of_char c)" by (simp only: code_of_def of_nat_of_char)
  have ok: "\<not> (code_of c < 48 \<or> 57 < code_of c)" and "code_of c - 48 = int d" using c by (simp_all add: code d_def)
  moreover have "d < 2 ^ 64" using c by (simp add: d_def)
  ultimately have w: "unat w = d" by (simp add: w_def unat_of_nat)
  have step: "parse_digits val (c # cs) = (if 2 ^ 64 \<le> unat val * 10 + d then None else parse_digits (val * 10 + w) cs)"
    unfolding parse_digits.simps if_not_P [OF ok] Let_def w_def [symmetric] digit_room w ..
  have digits: "digits_val (unat val) (c # cs) = digits_val (unat val * 10 + d) cs" by (simp add: d_def)
  show ?case
  proof (cases "2 ^ 64 \<le> unat val * 10 + d")
    case True
    have "unat val * 10 + d \<le> digits_val (unat val * 10 + d) cs" by (rule digits_val_ge)
    with True have "\<not> digits_val (unat val * 10 + d) cs < 2 ^ 64" by linarith
    then show ?thesis unfolding step digits using True by (simp only: if_True if_False)
  next
    case False
    then have "unat (val * 10 + w) = unat val * 10 + d"
      by (subst unat_add_lem [THEN iffD1]; (subst unat_mult_lem [THEN iffD1])?) (simp_all add: w)
    then show ?thesis unfolding step digits using False Cons by (simp only: if_False) simp
  qed
qed (simp add: unat_64)

lemma parse_uint64_digit_chars: "parse_uint64 (digit_chars (unat n)) = Some n"
proof -
  have "unat n < 2 ^ 64" using unat_64 [of n] by simp
  then show ?thesis
    using digit_chars_20 [of n] parse_digits_val [OF digit_chars_digits, of 0 "unat n"]
    by (simp add: parse_uint64_def digits_val_digit_chars)
qed

section \<open>The parts of a token\<close>

lemma cut_dot_None: "cut_dot s = None \<longleftrightarrow> CHR ''.'' \<notin> set s"
  by (induction s) auto

lemma cut_dot_append: "CHR ''.'' \<notin> set a \<Longrightarrow> cut_dot (a @ CHR ''.'' # b) = Some (a, b)"
  by (induction a) auto

lemma cut_dot_Some: "cut_dot s = Some (a, b) \<longleftrightarrow> s = a @ CHR ''.'' # b \<and> CHR ''.'' \<notin> set a"
proof
  show "cut_dot s = Some (a, b) \<Longrightarrow> s = a @ CHR ''.'' # b \<and> CHR ''.'' \<notin> set a"
    by (induction s arbitrary: a) (auto split: if_splits)
qed (auto simp: cut_dot_append)

lemma token_parts_iff:
  "token_parts s = Some (p0, p1, p2, p3) \<longleftrightarrow>
     s = p0 @ ''.'' @ p1 @ ''.'' @ p2 @ ''.'' @ p3 \<and> CHR ''.'' \<notin> set (p0 @ p1 @ p2 @ p3)"
proof
  show "token_parts s = Some (p0, p1, p2, p3) \<Longrightarrow>
      s = p0 @ ''.'' @ p1 @ ''.'' @ p2 @ ''.'' @ p3 \<and> CHR ''.'' \<notin> set (p0 @ p1 @ p2 @ p3)"
    by (auto simp: token_parts_def cut_dot_Some cut_dot_None split: option.splits prod.splits if_splits)
qed (auto simp: token_parts_def cut_dot_append cut_dot_None)

lemma alphabet_no_dot: "n < 64 \<Longrightarrow> k_b64url_chars ! n \<noteq> CHR ''.''"
proof -
  have "list_all (\<lambda>c. c \<noteq> CHR ''.'') k_b64url_chars" by code_simp
  moreover have "length k_b64url_chars = 64" by code_simp
  ultimately show "n < 64 \<Longrightarrow> k_b64url_chars ! n \<noteq> CHR ''.''" by (simp add: list_all_length)
qed

lemma b64url_text_no_dot: "CHR ''.'' \<notin> set (b64url_text data)"
proof -
  have "b64url_char v n \<noteq> CHR ''.''" for v n unfolding b64url_char_def by (rule alphabet_no_dot [OF sextet_less])
  note neq = this this [symmetric]
  show ?thesis by (induction data rule: b64url_text.induct) (simp_all add: Let_def neq)
qed

lemma digit_chars_no_dot: "CHR ''.'' \<notin> set (digit_chars n)"
  using digit_chars_digits [of n] by (auto simp: list_all_iff)

section \<open>What packing writes\<close>

definition token_sig :: "byte list option \<Rightarrow> string \<Rightarrow> string" where
  "token_sig key signed_part =
     (case key of
        Some (k # ks) \<Rightarrow> b64url_text (hmac_sha256 (k # ks) (bytes_of signed_part))
      | _ \<Rightarrow> ''unsigned'')"

definition token_text :: "byte list \<Rightarrow> byte list option \<Rightarrow> 64 word \<Rightarrow> 64 word \<Rightarrow> string" where
  "token_text data key issued ttl =
     (let signed_part = b64url_text data @ token_meta issued ttl
      in signed_part @ ''.'' @ token_sig key signed_part)"

lemma token_meta_fits: "length (token_meta issued ttl) < 64"
  using digit_chars_20 [of issued] digit_chars_20 [of ttl] by (simp add: token_meta_def)

lemma wp_token_signature:
  assumes "\<And>h'. steps 1 h h' \<Longrightarrow> Q (Some (token_sig key s)) h'"
    and "\<And>h'. steps 0 h h' \<Longrightarrow> script h \<noteq> [] \<Longrightarrow> Q None h'"
  shows "wp (token_signature key s) Q h"
proof -
  have eq: "token_signature key s = do { ok \<leftarrow> xmalloc; ret (if ok then Some (token_sig key s) else None) }"
    by (cases key; cases "the key") (simp_all add: token_signature_def token_sig_def b64url_encode_def cong: if_cong)
  show ?thesis unfolding eq wp_bind wp_return by (rule wp_xmalloc) (use assms in auto)
qed

lemma wp_pack_raw_ex:
  assumes ok: "\<And>h'. steps 1 h h' \<Longrightarrow> Q (MCP_OK, Some (token_text data key issued ttl)) h'"
    and fail: "\<And>h'. steps 0 h h' \<Longrightarrow> script h \<noteq> [] \<Longrightarrow> Q (MCP_ERR_NOMEM, None) h'"
  shows "wp (mcp_mrtr_state_pack_raw_ex (Some data) (length data) key issued ttl) Q h"
  unfolding mcp_mrtr_state_pack_raw_ex_def some_none simp_thms if_False option.case take_all_iff [THEN iffD2, OF order_refl]
    b64url_encode_def wp_bind wp_return
proof (rule wp_xmalloc, goal_cases)
  case (1 ok1 h1)
  have fits: "\<not> 64 \<le> length (token_meta issued ttl)" using token_meta_fits [of issued ttl] by simp
  show ?case
  proof (cases ok1)
    case True
    then have ok1: "ok1 = True" by simp
    show ?thesis unfolding ok1 if_True option.case if_not_P [OF fits] wp_bind
    proof (rule wp_xmalloc, goal_cases)
      case (1 ok2 h2)
      show ?case
      proof (cases ok2)
        case True
        then have ok2: "ok2 = True" by simp
        show ?thesis unfolding ok2 not_True_eq_False if_False Let_def wp_bind wp_xfree
        proof (rule wp_token_signature, goal_cases)
          case (1 h3)
          show ?case unfolding option.case wp_bind
            by (rule wp_xmalloc)
               (use 1 \<open>steps (if ok2 then 1 else 0) h1 h2\<close> \<open>steps (if ok1 then 1 else 0) h h1\<close> \<open>ok1\<close> \<open>ok2\<close>
                in \<open>auto simp: steps_def intro!: ok [unfolded token_text_def Let_def, simplified] fail\<close>)
        next
          case (2 h3)
          then show ?case
            using \<open>steps (if ok2 then 1 else 0) h1 h2\<close> \<open>steps (if ok1 then 1 else 0) h h1\<close> \<open>ok1\<close> \<open>ok2\<close>
            by (auto simp: steps_def intro!: fail)
        qed
      qed (use 1 \<open>steps (if ok1 then 1 else 0) h h1\<close> \<open>ok1\<close> in \<open>auto simp: steps_def intro!: fail\<close>)
    qed
  qed (use 1 in \<open>auto intro!: fail\<close>)
qed

lemma token_parts_text:
  "token_parts (token_text data key issued ttl) =
     Some (b64url_text data, digit_chars (unat issued), digit_chars (unat ttl),
       token_sig key (b64url_text data @ token_meta issued ttl))"
proof -
  have "CHR ''.'' \<notin> set (token_sig key s)" for s
    by (auto simp: token_sig_def b64url_text_no_dot split: option.splits list.splits)
  then show ?thesis
    by (simp add: token_parts_iff token_text_def token_meta_def Let_def b64url_text_no_dot digit_chars_no_dot)
qed

section \<open>Reading it back\<close>

lemma yields_decode_text: "yields (b64url_decode (b64url_text data)) (Some data)"
  unfolding b64url_decode_def
  by (rule yields_bind [OF yields_xmalloc]) (simp add: b64url_result_text yields_ret)

lemma token_sig_not_unsigned: "token_sig (Some (k # ks)) s \<noteq> ''unsigned''"
proof
  assume "token_sig (Some (k # ks)) s = ''unsigned''"
  then have "length (b64url_text (hmac_sha256 (k # ks) (bytes_of s))) = 8" by (simp add: token_sig_def)
  then show False by (simp add: length_b64url_text b64url_out_len_def)
qed

lemma yields_signed_ok: "yields (token_signed_ok key s (token_sig key s)) True"
proof (cases "\<exists>k ks. key = Some (k # ks)")
  case True
  then obtain k ks where key: "key = Some (k # ks)" by auto
  let ?mac = "hmac_sha256 (k # ks) (bytes_of s)"
  have "mcp_crypto_subtle_equal ?mac ?mac 32" by (simp add: subtle_equal_iff)
  moreover have "yields (b64url_decode (token_sig key s)) (Some ?mac)"
    using yields_decode_text [of ?mac] by (simp add: key token_sig_def)
  ultimately show ?thesis
    using token_sig_not_unsigned [of k ks s]
    by (auto simp: token_signed_ok_def key intro!: yields_bind [where x = "Some ?mac"] yields_bind [OF yields_xfree] yields_ret)
next
  case False
  then show ?thesis by (auto simp: token_signed_ok_def token_sig_def yields_ret split: option.splits list.splits)
qed

lemma yields_unpack_token:
  assumes "token_time_check issued ttl now = MCP_OK"
  shows "yields (mcp_mrtr_state_unpack_raw_ex (Some (token_text data key issued ttl)) key now) (MCP_OK, Some data)"
proof -
  have signed_part: "b64url_text data @ ''.'' @ digit_chars (unat issued) @ ''.'' @ digit_chars (unat ttl) =
      b64url_text data @ token_meta issued ttl" by (simp add: token_meta_def)
  show ?thesis
    unfolding mcp_mrtr_state_unpack_raw_ex_def option.case token_parts_text prod.case parse_uint64_digit_chars signed_part
    by (rule yields_bind [OF yields_signed_ok])
       (auto simp: assms intro!: yields_bind [OF yields_decode_text] yields_ret)
qed

section \<open>Properties of the tokens\<close>

text \<open>
  C17: a token carries its data. Packing, for any behaviour of the allocator, returns a token in
  one block or fails for lack of memory with nothing left allocated; and unpacking that token
  with the same key, signed or unsigned, gives the data back as long as it is neither expired
  nor issued more than ten seconds in the future.
\<close>

theorem mrtr_token_roundtrip:
  assumes "token_time_check issued ttl now = MCP_OK"
  shows "wp (mcp_mrtr_state_pack_raw_ex (Some data) (length data) key issued ttl) (\<lambda>(st, tok) h'.
      if st = MCP_OK
      then steps 1 h h' \<and> tok \<noteq> None \<and>
        fst (run_state (mcp_mrtr_state_unpack_raw_ex tok key now) \<lparr>live = n, script = []\<rparr>) = (MCP_OK, Some data)
      else st = MCP_ERR_NOMEM \<and> tok = None \<and> script h \<noteq> [] \<and> steps 0 h h') h"
  by (rule wp_pack_raw_ex) (simp_all add: yields_unique [OF yields_unpack_token [OF assms]])

theorem mrtr_token_roundtrip_witness:
  "wp (mcp_mrtr_state_pack_raw_ex (Some [1, 2, 3, 4]) (length [1, 2, 3, 4 :: byte]) (Some [7]) 1000 500) (\<lambda>(st, tok) h'.
      if st = MCP_OK
      then steps 1 \<lparr>live = 0, script = [True, False]\<rparr> h' \<and> tok \<noteq> None \<and>
        fst (run_state (mcp_mrtr_state_unpack_raw_ex tok (Some [7]) 1200) \<lparr>live = 0, script = []\<rparr>) = (MCP_OK, Some [1, 2, 3, 4])
      else st = MCP_ERR_NOMEM \<and> tok = None \<and> script \<lparr>live = 0, script = [True, False]\<rparr> \<noteq> [] \<and>
        steps 0 \<lparr>live = 0, script = [True, False]\<rparr> h') \<lparr>live = 0, script = [True, False]\<rparr>"
proof -
  have "token_time_check 1000 500 1200 = MCP_OK" by (simp add: token_time_check_def)
  then show ?thesis by (rule mrtr_token_roundtrip)
qed

lemma wp_b64url_decode:
  assumes "\<And>d h'. b64url_result s = Some d \<Longrightarrow> steps 1 h h' \<Longrightarrow> Q (Some d) h'"
    and "\<And>h'. b64url_result s = None \<or> script h \<noteq> [] \<Longrightarrow> steps 0 h h' \<Longrightarrow> Q None h'"
  shows "wp (b64url_decode s) Q h"
  unfolding b64url_decode_def wp_bind
proof (rule wp_xmalloc, goal_cases)
  case (1 ok h')
  then show ?case
    by (cases ok; cases "b64url_result s") (auto simp: steps_def intro!: assms)
qed

lemma wp_token_signed_ok:
  assumes "\<And>ok h'. steps 0 h h' \<Longrightarrow> (ok \<Longrightarrow>
      (if key = None \<or> key = Some [] then part3 = ''unsigned''
       else b64url_result part3 = Some (hmac_sha256 (the key) (bytes_of s)))) \<Longrightarrow> Q ok h'"
  shows "wp (token_signed_ok key s part3) Q h"
proof (cases "\<exists>k ks. key = Some (k # ks)")
  case True
  then obtain k ks where key: "key = Some (k # ks)" by auto
  show ?thesis
  proof (cases "part3 = ''unsigned''")
    case False
    show ?thesis unfolding token_signed_ok_def key option.case list.case if_not_P [OF False] wp_bind
    proof (rule wp_b64url_decode, goal_cases)
      case (1 d h')
      then show ?case
        by (auto simp: steps_def key subtle_equal_iff intro!: assms)
    qed (use assms in auto)
  qed (use assms in \<open>auto simp: token_signed_ok_def key\<close>)
next
  case False
  then have "key = None \<or> key = Some []" by (cases key; cases "the key") auto
  then show ?thesis using assms by (auto simp: token_signed_ok_def)
qed

text \<open>\<open>tok\<close> is a token under \<open>key\<close> that is valid at \<open>now\<close> and carries \<open>data\<close>.\<close>

definition token_valid :: "byte list \<Rightarrow> 64 word \<Rightarrow> string \<Rightarrow> byte list option \<Rightarrow> bool" where
  "token_valid key now tok data \<longleftrightarrow>
     (\<exists>p0 p1 p2 p3 issued ttl.
        tok = p0 @ ''.'' @ p1 @ ''.'' @ p2 @ ''.'' @ p3 \<and>
        b64url_result p3 = Some (hmac_sha256 key (bytes_of (p0 @ ''.'' @ p1 @ ''.'' @ p2))) \<and>
        parse_uint64 p1 = Some issued \<and> parse_uint64 p2 = Some ttl \<and> token_time_check issued ttl now = MCP_OK \<and>
        (data = b64url_result p0 \<or> data = None \<and> p0 = []))"


text \<open>
  C40: a lifetime that passes the end of the 64-bit range is taken for one that is over. The sum
  \<open>issued_at + ttl\<close> wraps round, so that a token with such a lifetime, although correctly signed,
  is refused as expired when it is used from the moment it was issued.
\<close>

theorem long_ttl_expires_at_once:
  assumes "2 ^ 64 \<le> unat issued + unat ttl" and "issued \<le> now"
  shows "fst (run_state (mcp_mrtr_state_unpack_raw_ex (Some (token_text data key issued ttl)) key now) \<lparr>live = n, script = []\<rparr>) =
    (MCP_ERR_TIMEOUT, None)"
proof -
  have ttl: "unat ttl < 2 ^ 64" using unat_64 [of ttl] by simp
  have "unat (issued + ttl) = unat issued + unat ttl - 2 ^ 64" using assms(1) by (simp add: unat_plus_if')
  then have "unat (issued + ttl) < unat issued" using assms(1) ttl by linarith
  then have late: "issued + ttl < now" using assms(2) by (auto simp: word_less_nat_alt word_le_nat_alt)
  have "0 < ttl"
  proof -
    have "unat ttl \<noteq> 0" using assms(1) unat_64 [of issued] by auto
    then show ?thesis by (simp add: word_gt_0 unat_eq_0)
  qed
  with late assms(2) have check: "token_time_check issued ttl now = MCP_ERR_TIMEOUT"
    using leD [OF assms(2)] by (simp add: token_time_check_def)
  have signed_part: "b64url_text data @ ''.'' @ digit_chars (unat issued) @ ''.'' @ digit_chars (unat ttl) =
      b64url_text data @ token_meta issued ttl" by (simp add: token_meta_def)
  have "yields (mcp_mrtr_state_unpack_raw_ex (Some (token_text data key issued ttl)) key now) (MCP_ERR_TIMEOUT, None)"
    unfolding mcp_mrtr_state_unpack_raw_ex_def option.case token_parts_text prod.case parse_uint64_digit_chars signed_part
    by (rule yields_bind [OF yields_signed_ok]) (simp add: check yields_ret)
  then show ?thesis by (rule yields_unique) simp
qed

theorem long_ttl_expires_at_once_witness:
  "fst (run_state (mcp_mrtr_state_unpack_raw_ex (Some (token_text [1] (Some [7]) 1000 (- 1))) (Some [7]) 1000) \<lparr>live = 0, script = []\<rparr>) =
    (MCP_ERR_TIMEOUT, None)"
  by (rule long_ttl_expires_at_once) (simp_all add: unsigned_minus_1_eq_mask mask_eq_exp_minus_1)

section \<open>States that are JSON values\<close>

lemma string_of_bytes: "string_of (bytes_of s) = s"
proof -
  have "unat (of_nat (of_char c) :: byte) = of_char c" for c
  proof -
    have "(of_char c :: nat) < 256" by (rule nat_of_char_less_256)
    then show ?thesis by (simp add: unat_of_nat)
  qed
  then show ?thesis by (induction s) (simp_all add: string_of_def bytes_of_def)
qed

lemma digits_no_nul: "list_all is_digit ds \<Longrightarrow> CHR 0x00 \<notin> set ds"
  by (auto simp: list_all_iff is_digit_def)

lemma number_no_nul: "json_number s \<Longrightarrow> CHR 0x00 \<notin> set s"
  by (auto simp: json_number_def json_int_def json_frac_def json_exp_def digits_no_nul)

lemma esc_char_no_nul: "CHR 0x00 \<notin> set (esc_char c)"
proof -
  have "list_all (\<lambda>n. k_hex ! n \<noteq> CHR 0x00) [0..<16]" by code_simp
  then have hex: "k_hex ! n \<noteq> CHR 0x00" if "n < 16" for n using that by (simp add: list_all_iff)
  have "k_hex ! (code c div 16) \<noteq> CHR 0x00" if "code c < 0x20" by (rule hex) (use that in simp)
  moreover have "k_hex ! (code c mod 16) \<noteq> CHR 0x00" by (rule hex) simp
  moreover have "c \<noteq> CHR 0x00" if "\<not> code c < 0x20" using that by auto
  ultimately show ?thesis unfolding esc_char_def by (simp add: eq_commute [of "CHR 0x00"])
qed

lemma print_json_no_nul:
  "wf_json v \<Longrightarrow> CHR 0x00 \<notin> set (print_json v)"
  "(\<forall>x \<in> set xs. wf_json x) \<Longrightarrow> CHR 0x00 \<notin> set (print_items first xs)"
  "(\<forall>m \<in> set ms. wf_json (snd m)) \<Longrightarrow> CHR 0x00 \<notin> set (print_members first' ms)"
proof (induction v and first xs and first' ms rule: print_json_print_items_print_members.induct)
  case (3 d)
  then show ?case using number_no_nul [OF print_number(1), of d] by auto
qed (auto simp: print_string_def esc_char_no_nul)

lemma cstr_print_json: "wf_json v \<Longrightarrow> cstr (print_json v) = print_json v"
  using print_json_no_nul(1) [of v] unfolding cstr_def takeWhile_eq_all_conv by auto

text \<open>
  C32: a JSON state survives the trip to the client and back. A well-formed value of admissible
  depth, packed at the time \<open>t0\<close> and unpacked with the same key at the time \<open>t1\<close> within its lifetime,
  is the value, with containers of the capacity that parsing gives them.
\<close>

theorem mrtr_json_roundtrip:
  assumes "wf_json v" and "json_depth v \<le> MCP_JSON_MAX_DEPTH" and "token_time_check t0 ttl t1 = MCP_OK"
  shows "fst (run_state (do { r \<leftarrow> mcp_mrtr_state_pack t0 (Some v) key ttl; mcp_mrtr_state_unpack t1 (snd r) key })
     \<lparr>live = n, script = []\<rparr>) = (MCP_OK, Some (recap v))"
proof -
  let ?s = "print_json v"
  let ?tok = "token_text (bytes_of ?s) key t0 ttl"
  have len: "length (cstr ?s) = length (bytes_of ?s)" using assms(1) by (simp add: cstr_print_json bytes_of_def)
  have raw: "yields (mcp_mrtr_state_pack_raw t0 (Some (bytes_of ?s)) (length (cstr ?s)) key ttl) (MCP_OK, Some ?tok)"
    unfolding mcp_mrtr_state_pack_raw_def len
    by (rule yieldsI, rule wp_pack_raw_ex) (auto simp: steps_def)
  have pack: "yields (mcp_mrtr_state_pack t0 (Some v) key ttl) (MCP_OK, Some ?tok)"
    unfolding mcp_mrtr_state_pack_def option.case
    by (rule yields_bind [OF builtin_serialize_yields])
       (auto intro!: yields_bind [OF raw] yields_bind [OF yields_xfree] yields_ret)
  have parse: "yields (builtin_parse (map_option string_of (Some (bytes_of ?s)))) (Some (recap v))"
    using builtin_parse_complete [OF utf8_valid_print(1) [OF assms(1)]]
      json_documentI [OF json_text_print [OF assms(1,2)], of "[]" "[]"] by (simp add: string_of_bytes)
  have unpack: "yields (mcp_mrtr_state_unpack t1 (Some ?tok) key) (MCP_OK, Some (recap v))"
    unfolding mcp_mrtr_state_unpack_def option.case mcp_mrtr_state_unpack_raw_def mcp_mrtr_state_free_def
    by (rule yields_bind [OF yields_unpack_token [OF assms(3)]])
       (use parse in \<open>auto intro!: yields_bind [OF parse [simplified]] yields_bind [OF yields_xfree] yields_ret\<close>)
  show ?thesis by (rule yields_unique [OF yields_bind [OF pack]]) (use unpack in simp_all)
qed

theorem mrtr_json_roundtrip_witness:
  "fst (run_state (do { r \<leftarrow> mcp_mrtr_state_pack 1000 (Some (JArray [JBool True] 1)) (Some [7]) 60000;
      mcp_mrtr_state_unpack 31000 (snd r) (Some [7]) }) \<lparr>live = 0, script = []\<rparr>) = (MCP_OK, Some (recap (JArray [JBool True] 1)))"
  by (rule mrtr_json_roundtrip) (simp_all add: token_time_check_def MCP_JSON_MAX_DEPTH_def)

end
