(* ===== verification/Schema.thy ===== *)
theory Schema
  imports Json_Build
begin

text \<open>
  JSON schemas (\<open>src/src/json/schema.c\<close>): the builders and the recursive validator. A pointer to a
  member of a schema that the code writes through is the schema with that member replaced.
  A failed check is the path and the reason that \<open>fail_at\<close> prints.
\<close>

section \<open>Builders\<close>

definition typed_new :: "string \<Rightarrow> ('z heap_scheme, json option) state" where
  "typed_new type = do {
     s \<leftarrow> mcp_json_object_new;
     t \<leftarrow> (if s \<noteq> None then mcp_json_string_new (Some type) else ret None);
     (if s = None \<or> t = None then do { mcp_json_destroy s; mcp_json_destroy t; ret None }
      else do {
        r \<leftarrow> mcp_json_object_set s (Some ''type'') t;
        (if fst r \<noteq> MCP_OK then do { mcp_json_destroy (snd r); ret None } else ret (snd r))
      })
   }"

definition mcp_schema_object_new :: "('z heap_scheme, json option) state" where
  "mcp_schema_object_new = typed_new ''object''"

definition mcp_schema_string_new :: "('z heap_scheme, json option) state" where
  "mcp_schema_string_new = typed_new ''string''"

definition mcp_schema_integer_new :: "('z heap_scheme, json option) state" where
  "mcp_schema_integer_new = typed_new ''integer''"

definition mcp_schema_number_new :: "('z heap_scheme, json option) state" where
  "mcp_schema_number_new = typed_new ''number''"

definition mcp_schema_boolean_new :: "('z heap_scheme, json option) state" where
  "mcp_schema_boolean_new = typed_new ''boolean''"

definition mcp_schema_array_new :: "json option \<Rightarrow> ('z heap_scheme, json option) state" where
  "mcp_schema_array_new items = do {
     s \<leftarrow> typed_new ''array'';
     (if s = None then do { mcp_json_destroy items; ret None }
      else if items = None then ret s
      else do {
        r \<leftarrow> mcp_json_object_set s (Some ''items'') items;
        (if fst r \<noteq> MCP_OK then do { mcp_json_destroy items; mcp_json_destroy (snd r); ret None } else ret (snd r))
      })
   }"

text \<open>The child, or None, and the schema with the child in it.\<close>

definition ensure_child :: "json \<Rightarrow> string \<Rightarrow> bool \<Rightarrow> ('z heap_scheme, json option \<times> json) state" where
  "ensure_child schema key want_array =
     (case mcp_json_object_get (Some schema) key of
        Some old \<Rightarrow>
          ret (if mcp_json_type (Some old) = (if want_array then MCP_JSON_ARRAY else MCP_JSON_OBJECT) then Some old else None,
               schema)
      | None \<Rightarrow> do {
          fresh \<leftarrow> (if want_array then mcp_json_array_new else mcp_json_object_new);
          (if fresh = None then ret (None, schema)
           else do {
             r \<leftarrow> mcp_json_object_set (Some schema) (Some key) fresh;
             (if fst r \<noteq> MCP_OK then do { mcp_json_destroy fresh; ret (None, the (snd r)) }
              else ret (fresh, the (snd r)))
           })
        })"

definition is_schema :: "json option \<Rightarrow> bool" where
  "is_schema schema \<longleftrightarrow> schema \<noteq> None \<and> mcp_json_type schema = MCP_JSON_OBJECT"

definition mcp_schema_add_property ::
  "json option \<Rightarrow> string option \<Rightarrow> json option \<Rightarrow> ('z heap_scheme, mcp_status \<times> json option) state" where
  "mcp_schema_add_property schema name prop =
     (if \<not> is_schema schema \<or> name = None \<or> prop = None then ret (MCP_ERR_INVALID_ARGUMENT, schema)
      else do {
        (props, s) \<leftarrow> ensure_child (the schema) ''properties'' False;
        (if props = None then ret (MCP_ERR_INVALID_ARGUMENT, Some s)
         else do {
           r \<leftarrow> mcp_json_object_set props name prop;
           let s = object_put s ''properties'' (the (snd r));
           ret (if fst r \<noteq> MCP_OK then MCP_ERR_INVALID_ARGUMENT else MCP_OK, Some s)
         })
      })"

definition mcp_schema_add_required ::
  "json option \<Rightarrow> string option \<Rightarrow> ('z heap_scheme, mcp_status \<times> json option) state" where
  "mcp_schema_add_required schema name =
     (if \<not> is_schema schema \<or> name = None then ret (MCP_ERR_INVALID_ARGUMENT, schema)
      else do {
        (req, s) \<leftarrow> ensure_child (the schema) ''required'' True;
        v \<leftarrow> (if req \<noteq> None then mcp_json_string_new name else ret None);
        (if v = None then ret (MCP_ERR_INVALID_ARGUMENT, Some s)
         else do {
           r \<leftarrow> mcp_json_array_append req v;
           let s = object_put s ''required'' (the (snd r));
           (if fst r \<noteq> MCP_OK then do { mcp_json_destroy v; ret (MCP_ERR_INVALID_ARGUMENT, Some s) }
            else ret (MCP_OK, Some s))
         })
      })"

definition mcp_schema_add_enum ::
  "json option \<Rightarrow> json option \<Rightarrow> ('z heap_scheme, mcp_status \<times> json option) state" where
  "mcp_schema_add_enum schema values =
     (if \<not> is_schema schema \<or> values = None \<or> mcp_json_type values \<noteq> MCP_JSON_ARRAY then ret (MCP_ERR_INVALID_ARGUMENT, schema)
      else do {
        r \<leftarrow> mcp_json_object_set schema (Some ''enum'') values;
        ret (if fst r \<noteq> MCP_OK then MCP_ERR_INVALID_ARGUMENT else MCP_OK, snd r)
      })"

text \<open>Setting a member to a new value that is destroyed when it cannot be stored.\<close>

definition set_fresh :: "json option \<Rightarrow> string \<Rightarrow> ('z heap_scheme, json option) state \<Rightarrow> ('z heap_scheme, mcp_status \<times> json option) state" where
  "set_fresh schema key mk = do {
     v \<leftarrow> mk;
     (if v = None then ret (MCP_ERR_NOMEM, schema)
      else do {
        r \<leftarrow> mcp_json_object_set schema (Some key) v;
        (if fst r \<noteq> MCP_OK then do { mcp_json_destroy v; ret (MCP_ERR_NOMEM, snd r) } else ret (MCP_OK, snd r))
      })
   }"

definition set_bound :: "json option \<Rightarrow> string \<Rightarrow> double \<Rightarrow> ('z heap_scheme, mcp_status \<times> json option) state" where
  "set_bound schema key b =
     (if \<not> is_schema schema \<or> \<not> isfinite b then ret (MCP_ERR_INVALID_ARGUMENT, schema)
      else set_fresh schema key (mcp_json_number_new b))"

definition mcp_schema_set_minimum :: "json option \<Rightarrow> double \<Rightarrow> ('z heap_scheme, mcp_status \<times> json option) state" where
  "mcp_schema_set_minimum schema lo = set_bound schema ''minimum'' lo"

definition mcp_schema_set_maximum :: "json option \<Rightarrow> double \<Rightarrow> ('z heap_scheme, mcp_status \<times> json option) state" where
  "mcp_schema_set_maximum schema hi = set_bound schema ''maximum'' hi"

definition mcp_schema_set_description ::
  "json option \<Rightarrow> string option \<Rightarrow> ('z heap_scheme, mcp_status \<times> json option) state" where
  "mcp_schema_set_description schema desc =
     (if \<not> is_schema schema \<or> desc = None then ret (MCP_ERR_INVALID_ARGUMENT, schema)
      else set_fresh schema ''description'' (mcp_json_string_new desc))"

section \<open>Validation\<close>

definition is_integer_value :: "double \<Rightarrow> bool" where
  "is_integer_value d \<longleftrightarrow> isfinite d \<and> \<not> dlt d (double_of_int (- 9007199254740991)) \<and>
     \<not> dlt (double_of_int 9007199254740991) d \<and> deq d (double_of_int (double_trunc d))"

lemma list_all_zip_cong [fundef_cong]:
  "xs = xs' \<Longrightarrow> ys = ys' \<Longrightarrow> (\<And>x y. (x, y) \<in> set (zip xs' ys') \<Longrightarrow> P x y = Q x y) \<Longrightarrow>
   list_all (\<lambda>(x, y). P x y) (zip xs ys) = list_all (\<lambda>(x, y). Q x y) (zip xs' ys')"
  by (auto simp: list_all_iff)

function (sequential) value_equal :: "json \<Rightarrow> json \<Rightarrow> bool" where
  "value_equal JNull JNull = True"
| "value_equal (JBool x) (JBool y) = (x = y)"
| "value_equal (JNumber x) (JNumber y) = deq x y"
| "value_equal (JString x) (JString y) = (x = y)"
| "value_equal (JArray xs c) (JArray ys d) =
     (length xs = length ys \<and> list_all (\<lambda>(x, y). value_equal x y) (zip xs ys))"
| "value_equal (JObject ms c) (JObject ns d) =
     (length ms = length ns \<and>
      list_all (\<lambda>k. if \<not> utf8_valid k then False
        else (case lookup_member ns k of
          None \<Rightarrow> False
        | Some w \<Rightarrow> (case lookup_member ms k of None \<Rightarrow> False | Some v \<Rightarrow> value_equal v w))) (map fst ms))"
| "value_equal _ _ = False"
  by pat_completeness auto
termination
  by (relation "measure (\<lambda>(a, b). size a)")
     (auto dest!: set_zip_leftD lookup_member_size simp: less_Suc_eq_le size_list_estimation')

fun first_fail :: "('a \<Rightarrow> 'e option) \<Rightarrow> 'a list \<Rightarrow> 'e option" where
  "first_fail f [] = None"
| "first_fail f (x # xs) = (case f x of None \<Rightarrow> first_fail f xs | Some e \<Rightarrow> Some e)"

lemma first_fail_cong [fundef_cong]:
  "xs = ys \<Longrightarrow> (\<And>x. x \<in> set ys \<Longrightarrow> f x = g x) \<Longrightarrow> first_fail f xs = first_fail g ys"
  by (induction xs arbitrary: ys) (auto split: option.splits)

type_synonym failure = "string \<times> string"

definition type_matches :: "string \<Rightarrow> json \<Rightarrow> bool option" where
  "type_matches type inst =
     (if type = ''string'' then Some (mcp_json_type (Some inst) = MCP_JSON_STRING)
      else if type = ''integer'' then Some (case mcp_json_number_value (Some inst) of None \<Rightarrow> False | Some d \<Rightarrow> is_integer_value d)
      else if type = ''number'' then Some (case mcp_json_number_value (Some inst) of None \<Rightarrow> False | Some d \<Rightarrow> isfinite d)
      else if type = ''boolean'' then Some (mcp_json_type (Some inst) = MCP_JSON_BOOL)
      else if type = ''array'' then Some (mcp_json_type (Some inst) = MCP_JSON_ARRAY)
      else if type = ''object'' then Some (mcp_json_type (Some inst) = MCP_JSON_OBJECT)
      else None)"

definition check_type :: "json \<Rightarrow> json \<Rightarrow> string option" where
  "check_type schema inst =
     (case mcp_json_object_get (Some schema) ''type'' of
        None \<Rightarrow> None
      | Some typev \<Rightarrow>
          (case mcp_json_string_value (Some typev) of
             None \<Rightarrow> Some ''type is not a string''
           | Some type \<Rightarrow>
               (case type_matches type inst of
                  None \<Rightarrow> Some ''unknown type''
                | Some match \<Rightarrow> if match then None else Some ''type mismatch'')))"

definition elements :: "json \<Rightarrow> json list" where
  "elements v = (case v of JArray xs cap \<Rightarrow> xs | _ \<Rightarrow> [])"

definition check_enum :: "json \<Rightarrow> json \<Rightarrow> string option" where
  "check_enum schema inst =
     (case mcp_json_object_get (Some schema) ''enum'' of
        None \<Rightarrow> None
      | Some en \<Rightarrow>
          if mcp_json_type (Some en) \<noteq> MCP_JSON_ARRAY then Some ''enum is not an array''
          else if list_ex (\<lambda>e. value_equal inst e) (elements en) then None
          else Some ''not in enum'')"

definition check_required :: "json \<Rightarrow> json \<Rightarrow> string option" where
  "check_required schema inst =
     (case mcp_json_object_get (Some schema) ''required'' of
        None \<Rightarrow> None
      | Some req \<Rightarrow>
          if mcp_json_type (Some req) \<noteq> MCP_JSON_ARRAY then Some ''required is not an array''
          else first_fail (\<lambda>e. case mcp_json_string_value (Some e) of
              None \<Rightarrow> Some ''missing required property''
            | Some name \<Rightarrow> if mcp_json_object_has (Some inst) name then None else Some ''missing required property'')
            (elements req))"

definition check_bounds :: "json \<Rightarrow> double \<Rightarrow> string option" where
  "check_bounds schema d =
     (let below = (case mcp_json_number_value (mcp_json_object_get (Some schema) ''minimum'') of None \<Rightarrow> False | Some b \<Rightarrow> dlt d b);
          above = (case mcp_json_number_value (mcp_json_object_get (Some schema) ''maximum'') of None \<Rightarrow> False | Some b \<Rightarrow> dlt b d)
      in if below then Some ''below minimum'' else if above then Some ''above maximum'' else None)"

definition keys_of :: "json \<Rightarrow> string list" where
  "keys_of v = (case v of JObject ms cap \<Rightarrow> map fst ms | _ \<Rightarrow> [])"

definition member_path :: "string \<Rightarrow> string \<Rightarrow> string" where
  "member_path path name = take 255 (path @ (if path \<noteq> [] then ''.'' else []) @ name)"

definition item_path :: "string \<Rightarrow> nat \<Rightarrow> string" where
  "item_path path i = take 255 (path @ ''['' @ digit_chars i @ '']'')"

lemma object_get_size: "builtin_object_get (Some v) k = Some w \<Longrightarrow> size w < size v"
  by (auto simp: builtin_object_get_def dest!: lookup_member_size split: json.splits if_splits)

lemma elements_size: "x \<in> set (elements v) \<Longrightarrow> size x < size v"
  by (auto simp: elements_def less_Suc_eq_le size_list_estimation' split: json.splits)

function check :: "json option \<Rightarrow> json option \<Rightarrow> string \<Rightarrow> failure option" where
  "check schema inst path =
     (case (schema, inst) of
        (Some s, Some v) \<Rightarrow>
          if mcp_json_type schema \<noteq> MCP_JSON_OBJECT then Some (path, ''bad schema or instance'')
          else (case check_type s v of
            Some e \<Rightarrow> Some (path, e)
          | None \<Rightarrow>
              (case check_enum s v of
                 Some e \<Rightarrow> Some (path, e)
               | None \<Rightarrow>
                   (case mcp_json_type inst of
                      MCP_JSON_OBJECT \<Rightarrow>
                        (case check_required s v of
                           Some e \<Rightarrow> Some (path, e)
                         | None \<Rightarrow>
                             (case mcp_json_object_get schema ''properties'' of
                                None \<Rightarrow> None
                              | Some props \<Rightarrow>
                                  if mcp_json_type (Some props) \<noteq> MCP_JSON_OBJECT then Some (path, ''properties is not an object'')
                                  else first_fail (\<lambda>name. case mcp_json_object_get inst name of
                                      None \<Rightarrow> None
                                    | Some w \<Rightarrow> check (mcp_json_object_get (Some props) name) (Some w) (member_path path name))
                                    (keys_of props)))
                    | MCP_JSON_ARRAY \<Rightarrow>
                        (case mcp_json_object_get schema ''items'' of
                           None \<Rightarrow> None
                         | Some items \<Rightarrow> first_fail (\<lambda>(i, x). check (Some items) (Some x) (item_path path i)) (enumerate 0 (elements v)))
                    | MCP_JSON_NUMBER \<Rightarrow>
                        (case mcp_json_number_value inst of
                           None \<Rightarrow> None
                         | Some d \<Rightarrow> map_option (Pair path) (check_bounds s d))
                    | _ \<Rightarrow> None)))
      | _ \<Rightarrow> Some (path, ''bad schema or instance''))"
  by pat_completeness auto
termination
proof (relation "measure (\<lambda>(s, v, p). case v of None \<Rightarrow> 0 | Some v \<Rightarrow> size v)", goal_cases)
  case 1
  show ?case by simp
next
  case 2
  then show ?case by (auto simp: in_set_enumerate_eq intro!: elements_size)
next
  case 3
  then show ?case by (auto dest: object_get_size)
qed

declare check.simps [simp del]

text \<open>What \<open>fail_at\<close> leaves in a buffer of \<open>cap\<close> bytes.\<close>

definition fail_at :: "nat \<Rightarrow> string \<Rightarrow> string \<Rightarrow> string" where
  "fail_at cap path reason = take (cap - 1) ((if path \<noteq> [] then path else ''<root>'') @ '': '' @ reason)"

text \<open>The status, and the text in the caller's buffer of \<open>cap\<close> bytes when there is one.\<close>

definition mcp_schema_validate_verbose :: "json option \<Rightarrow> json option \<Rightarrow> nat \<Rightarrow> mcp_status \<times> string" where
  "mcp_schema_validate_verbose schema inst cap =
     (case check schema inst [] of
        None \<Rightarrow> (MCP_OK, [])
      | Some (path, reason) \<Rightarrow> (MCP_ERR_INVALID_ARGUMENT, fail_at cap path reason))"

definition mcp_schema_validate :: "json option \<Rightarrow> json option \<Rightarrow> mcp_status" where
  "mcp_schema_validate schema inst = fst (mcp_schema_validate_verbose schema inst 0)"

section \<open>What a schema means\<close>

text \<open>The declarative reading: an instance conforms to a schema when each keyword that is present holds of it.\<close>

definition keyword :: "json \<Rightarrow> string \<Rightarrow> json option" where
  "keyword s k = builtin_object_get (Some s) k"

definition type_ok :: "json \<Rightarrow> json \<Rightarrow> bool" where
  "type_ok s v \<longleftrightarrow> (\<forall>t. keyword s ''type'' = Some t \<longrightarrow>
     (case v of JNull \<Rightarrow> False
      | JBool b \<Rightarrow> t = JString ''boolean''
      | JNumber d \<Rightarrow> t = JString ''number'' \<and> isfinite d \<or> t = JString ''integer'' \<and> is_integer_value d
      | JString w \<Rightarrow> t = JString ''string''
      | JArray xs c \<Rightarrow> t = JString ''array''
      | JObject ms c \<Rightarrow> t = JString ''object''))"

definition enum_ok :: "json \<Rightarrow> json \<Rightarrow> bool" where
  "enum_ok s v \<longleftrightarrow> (\<forall>en. keyword s ''enum'' = Some en \<longrightarrow> (\<exists>xs c. en = JArray xs c \<and> (\<exists>x\<in>set xs. value_equal v x)))"

definition required_ok :: "json \<Rightarrow> json \<Rightarrow> bool" where
  "required_ok s v \<longleftrightarrow> is_object v \<longrightarrow> (\<forall>req. keyword s ''required'' = Some req \<longrightarrow>
     (\<exists>xs c. req = JArray xs c \<and> (\<forall>e\<in>set xs. \<exists>k. e = JString k \<and> keyword v k \<noteq> None)))"

definition bounds_ok :: "json \<Rightarrow> json \<Rightarrow> bool" where
  "bounds_ok s v \<longleftrightarrow> (\<forall>d. v = JNumber d \<longrightarrow>
     (\<forall>lo. keyword s ''minimum'' = Some (JNumber lo) \<longrightarrow> \<not> dlt d lo) \<and>
     (\<forall>hi. keyword s ''maximum'' = Some (JNumber hi) \<longrightarrow> \<not> dlt hi d))"

inductive conforms :: "json \<Rightarrow> json \<Rightarrow> bool" where
  conforms: "is_object s \<Longrightarrow> type_ok s v \<Longrightarrow> enum_ok s v \<Longrightarrow> required_ok s v \<Longrightarrow> bounds_ok s v \<Longrightarrow>
     (\<And>props. is_object v \<Longrightarrow> keyword s ''properties'' = Some props \<Longrightarrow> is_object props) \<Longrightarrow>
     (\<And>props k sub w. is_object v \<Longrightarrow> keyword s ''properties'' = Some props \<Longrightarrow> keyword props k = Some sub \<Longrightarrow>
        keyword v k = Some w \<Longrightarrow> conforms sub w) \<Longrightarrow>
     (\<And>items x. keyword s ''items'' = Some items \<Longrightarrow> x \<in> set (elements v) \<Longrightarrow> conforms items x) \<Longrightarrow>
     conforms s v"

inductive_simps conforms_unfold: "conforms s v"

lemma first_fail_None: "first_fail f xs = None \<longleftrightarrow> (\<forall>x\<in>set xs. f x = None)"
  by (induction xs) (auto split: option.splits)

lemma type_of_simps [simp]:
  "mcp_json_type (Some JNull) = MCP_JSON_NULL" "mcp_json_type (Some (JBool b)) = MCP_JSON_BOOL"
  "mcp_json_type (Some (JNumber d)) = MCP_JSON_NUMBER" "mcp_json_type (Some (JString x)) = MCP_JSON_STRING"
  "mcp_json_type (Some (JArray xs c)) = MCP_JSON_ARRAY" "mcp_json_type (Some (JObject ms c)) = MCP_JSON_OBJECT"
  by (simp_all add: builtin_type_of_def)

lemma type_is_object [simp]: "mcp_json_type (Some v) = MCP_JSON_OBJECT \<longleftrightarrow> is_object v"
  by (cases v) (simp_all add: is_object_iff)

lemma type_is_array [simp]: "mcp_json_type (Some v) = MCP_JSON_ARRAY \<longleftrightarrow> (\<exists>xs c. v = JArray xs c)"
  by (cases v) simp_all

lemma check_type_ok: "check_type s v = None \<longleftrightarrow> type_ok s v"
  by (cases v) (auto simp: check_type_def type_ok_def type_matches_def keyword_def builtin_get_string_def
      builtin_get_number_def builtin_type_of_def split: option.splits json.splits)

lemma check_enum_ok: "check_enum s v = None \<longleftrightarrow> enum_ok s v"
  by (auto simp: check_enum_def enum_ok_def keyword_def elements_def list_ex_iff split: option.splits)

lemma required_entry:
  "(case builtin_get_string (Some e) of None \<Rightarrow> Some r | Some k \<Rightarrow> if builtin_object_has (Some v) k then None else Some r) = None
   \<longleftrightarrow> (\<exists>k. e = JString k \<and> keyword v k \<noteq> None)"
  by (auto simp: builtin_get_string_def builtin_object_has_def keyword_def split: json.splits)

lemma check_required_ok: "is_object v \<Longrightarrow> check_required s v = None \<longleftrightarrow> required_ok s v"
  by (auto simp: check_required_def required_ok_def first_fail_None required_entry elements_def keyword_def [of s]
      split: option.splits)

lemma check_bounds_ok: "check_bounds s d = None \<longleftrightarrow> bounds_ok s (JNumber d)"
  by (auto simp: check_bounds_def bounds_ok_def keyword_def builtin_get_number_def Let_def split: option.splits json.splits)

lemma keyword_key: "keyword v k = Some w \<Longrightarrow> k \<in> set (keys_of v)"
proof -
  have "lookup_member ms k = Some w \<Longrightarrow> k \<in> fst ` set ms" for ms
    by (induction ms k rule: lookup_member.induct) (auto split: if_splits)
  then show "keyword v k = Some w \<Longrightarrow> k \<in> set (keys_of v)"
    by (auto simp: keyword_def builtin_object_get_def keys_of_def split: json.splits if_splits)
qed

lemma key_keyword: "k \<in> set (keys_of props) \<Longrightarrow> utf8_valid k \<Longrightarrow> keyword props k \<noteq> None"
proof -
  have "k \<in> fst ` set ms \<Longrightarrow> lookup_member ms k \<noteq> None" for ms
    by (induction ms k rule: lookup_member.induct) (auto split: if_splits)
  then show "k \<in> set (keys_of props) \<Longrightarrow> utf8_valid k \<Longrightarrow> keyword props k \<noteq> None"
    by (auto simp: keyword_def builtin_object_get_def keys_of_def split: json.splits)
qed

lemma keyword_utf8: "keyword v k = Some w \<Longrightarrow> utf8_valid k"
  by (auto simp: keyword_def builtin_object_get_def split: json.splits if_splits)

lemma check_properties:
  assumes IH: "\<And>w s p. size w < size v \<Longrightarrow> check (Some s) (Some w) p = None \<longleftrightarrow> conforms s w"
  shows "first_fail (\<lambda>k. case builtin_object_get (Some v) k of None \<Rightarrow> None
           | Some w \<Rightarrow> check (builtin_object_get (Some props) k) (Some w) (path k)) (keys_of props) = None
         \<longleftrightarrow> (\<forall>k sub w. keyword props k = Some sub \<longrightarrow> keyword v k = Some w \<longrightarrow> conforms sub w)"
proof -
  have entry: "(case builtin_object_get (Some v) k of None \<Rightarrow> None
       | Some w \<Rightarrow> check (builtin_object_get (Some props) k) (Some w) (path k)) = None
     \<longleftrightarrow> (\<forall>sub w. keyword props k = Some sub \<longrightarrow> keyword v k = Some w \<longrightarrow> conforms sub w)"
    if k: "k \<in> set (keys_of props)" for k
  proof (cases "keyword v k")
    case (Some w)
    then obtain sub where "keyword props k = Some sub" using key_keyword [OF k] keyword_utf8 by blast
    then show ?thesis using Some object_get_size [of v k w] by (auto simp: keyword_def IH)
  qed (simp add: keyword_def)
  show ?thesis
  proof
    assume none: "first_fail (\<lambda>k. case builtin_object_get (Some v) k of None \<Rightarrow> None
           | Some w \<Rightarrow> check (builtin_object_get (Some props) k) (Some w) (path k)) (keys_of props) = None"
    show "\<forall>k sub w. keyword props k = Some sub \<longrightarrow> keyword v k = Some w \<longrightarrow> conforms sub w"
    proof (intro allI impI)
      fix k sub w assume k: "keyword props k = Some sub" "keyword v k = Some w"
      then have "k \<in> set (keys_of props)" by (simp add: keyword_key)
      then show "conforms sub w" using none k entry by (simp add: first_fail_None)
    qed
  qed (simp add: first_fail_None entry)
qed

lemma check_items:
  assumes IH: "\<And>w s p. size w < size v \<Longrightarrow> check (Some s) (Some w) p = None \<longleftrightarrow> conforms s w"
  shows "first_fail (\<lambda>(i, x). check (Some items) (Some x) (path i)) (enumerate 0 (elements v)) = None
         \<longleftrightarrow> (\<forall>x\<in>set (elements v). conforms items x)"
proof -
  have "check (Some items) (Some (elements v ! i)) (path i) = None \<longleftrightarrow> conforms items (elements v ! i)"
    if "i < length (elements v)" for i
    using that by (intro IH elements_size) simp
  moreover have "first_fail (\<lambda>(i, x). f i x) (enumerate 0 xs) = None \<longleftrightarrow> (\<forall>i<length xs. f i (xs ! i) = None)"
    for f :: "nat \<Rightarrow> json \<Rightarrow> failure option" and xs
    unfolding first_fail_None all_set_conv_all_nth by (simp add: nth_enumerate_eq)
  ultimately show ?thesis by (simp add: all_set_conv_all_nth)
qed

text \<open>The rest of a step, once type and enumeration hold, by the kind of the instance.\<close>

definition parts_ok :: "json \<Rightarrow> json \<Rightarrow> bool" where
  "parts_ok s v \<longleftrightarrow>
     (is_object v \<longrightarrow> required_ok s v \<and> (\<forall>props. keyword s ''properties'' = Some props \<longrightarrow> is_object props \<and>
        (\<forall>k sub w. keyword props k = Some sub \<longrightarrow> keyword v k = Some w \<longrightarrow> conforms sub w))) \<and>
     (\<forall>items. keyword s ''items'' = Some items \<longrightarrow> (\<forall>x\<in>set (elements v). conforms items x)) \<and>
     bounds_ok s v"

lemma conforms_parts: "conforms s v \<longleftrightarrow> is_object s \<and> type_ok s v \<and> enum_ok s v \<and> parts_ok s v"
  by (subst conforms_unfold) (auto simp: parts_ok_def required_ok_def)

lemma check_step:
  assumes IH: "\<And>w s p. size w < size v \<Longrightarrow> check (Some s) (Some w) p = None \<longleftrightarrow> conforms s w"
    and ok: "is_object s" "check_type s v = None" "check_enum s v = None"
  shows "check (Some s) (Some v) path = None \<longleftrightarrow> parts_ok s v"
proof (cases v)
  case (JObject ms c)
  show ?thesis
    using ok check_properties [OF IH, where path = "member_path path" and v = v] unfolding JObject
    by (subst check.simps)
       (simp add: parts_ok_def check_required_ok [symmetric] keyword_def [of s] elements_def bounds_ok_def
        split: option.splits)
next
  case (JArray xs c)
  show ?thesis
    using ok check_items [OF IH, where path = "item_path path" and v = v] unfolding JArray
    by (subst check.simps)
       (simp add: parts_ok_def is_object_def [of "JArray xs c"] keyword_def [of s] bounds_ok_def split: option.splits)
next
  case (JNumber d)
  show ?thesis
    using ok unfolding JNumber
    by (subst check.simps)
       (simp add: parts_ok_def check_bounds_ok is_object_def [of "JNumber d"] elements_def builtin_get_number_def)
qed (use ok in \<open>subst check.simps; simp add: parts_ok_def is_object_def elements_def bounds_ok_def\<close>)+

lemma check_head: "check (Some s) (Some v) path = None \<Longrightarrow> is_object s \<and> type_ok s v \<and> enum_ok s v"
  by (subst (asm) check.simps) (auto simp flip: check_type_ok check_enum_ok split: option.splits if_splits)

lemma check_conforms: "check (Some s) (Some v) path = None \<longleftrightarrow> conforms s v"
proof (induction v arbitrary: s path rule: measure_induct_rule [of size])
  case (less v)
  show ?case
  proof (cases "is_object s \<and> type_ok s v \<and> enum_ok s v")
    case True
    then show ?thesis using check_step [of v s path, OF less] by (simp add: conforms_parts check_type_ok check_enum_ok)
  next
    case False
    then show ?thesis using check_head [of s v path] by (simp only: conforms_parts) blast
  qed
qed

lemma check_null: "check None inst path \<noteq> None" "check schema None path \<noteq> None"
  by (simp_all add: check.simps [of None] check.simps [of _ None] split: option.split)

section \<open>What a builder adds to a schema\<close>

lemma keyword_put:
  "is_object s \<Longrightarrow> utf8_valid k' \<Longrightarrow> keyword (object_put s k x) k' = (if k' = k then Some x else keyword s k')"
  by (simp add: keyword_def object_get_put)

definition nested_ok :: "json \<Rightarrow> json \<Rightarrow> bool" where
  "nested_ok s v \<longleftrightarrow>
     (is_object v \<longrightarrow> (\<forall>props. keyword s ''properties'' = Some props \<longrightarrow> is_object props \<and>
        (\<forall>k sub w. keyword props k = Some sub \<longrightarrow> keyword v k = Some w \<longrightarrow> conforms sub w))) \<and>
     (\<forall>items. keyword s ''items'' = Some items \<longrightarrow> (\<forall>x\<in>set (elements v). conforms items x))"

lemma conforms_split:
  "conforms s v \<longleftrightarrow> is_object s \<and> (type_ok s v \<and> enum_ok s v \<and> nested_ok s v) \<and> required_ok s v \<and> bounds_ok s v"
  unfolding conforms_parts [of s v] parts_ok_def nested_ok_def required_ok_def by (cases "is_object v") (simp_all add: conj_ac)

lemma conforms_same:
  assumes "keyword s' ''type'' = keyword s ''type''" "keyword s' ''enum'' = keyword s ''enum''"
    "keyword s' ''properties'' = keyword s ''properties''" "keyword s' ''items'' = keyword s ''items''"
  shows "type_ok s' v \<and> enum_ok s' v \<and> nested_ok s' v \<longleftrightarrow> type_ok s v \<and> enum_ok s v \<and> nested_ok s v"
  unfolding type_ok_def enum_ok_def nested_ok_def assms ..

lemma conforms_minimum:
  assumes "is_object s" and "keyword s ''minimum'' = None"
  shows "conforms (object_put s ''minimum'' (JNumber lo)) v \<longleftrightarrow> conforms s v \<and> (\<forall>d. v = JNumber d \<longrightarrow> \<not> dlt d lo)"
proof -
  let ?s = "object_put s ''minimum'' (JNumber lo)"
  have k: "keyword ?s k = (if k = ''minimum'' then Some (JNumber lo) else keyword s k)" if "list_all (\<lambda>c. code c < 0x80) k" for k
    using that assms by (simp add: keyword_put utf8_valid_ascii)
  have "bounds_ok ?s v \<longleftrightarrow> bounds_ok s v \<and> (\<forall>d. v = JNumber d \<longrightarrow> \<not> dlt d lo)"
    using assms(2) by (cases v) (auto simp: bounds_ok_def k)
  moreover have "required_ok ?s v = required_ok s v" by (simp add: required_ok_def k)
  ultimately show ?thesis
    unfolding conforms_split is_object_put by (subst conforms_same [of ?s s]) (simp_all add: k conj_ac)
qed

lemma conforms_required:
  assumes "is_object s" and "keyword s ''required'' = None"
  shows "conforms (object_put s ''required'' (JArray [JString name] cap)) v \<longleftrightarrow>
    conforms s v \<and> (is_object v \<longrightarrow> keyword v name \<noteq> None)"
proof -
  let ?s = "object_put s ''required'' (JArray [JString name] cap)"
  have k: "keyword ?s k = (if k = ''required'' then Some (JArray [JString name] cap) else keyword s k)"
    if "list_all (\<lambda>c. code c < 0x80) k" for k
    using that assms by (simp add: keyword_put utf8_valid_ascii)
  have "required_ok ?s v \<longleftrightarrow> required_ok s v \<and> (is_object v \<longrightarrow> keyword v name \<noteq> None)"
    using assms(2) by (auto simp: required_ok_def k)
  moreover have "bounds_ok ?s v = bounds_ok s v" by (simp add: bounds_ok_def k)
  ultimately show ?thesis
    unfolding conforms_split is_object_put by (subst conforms_same [of ?s s]) (simp_all add: k conj_ac)
qed

lemma is_schema_object [simp]: "is_schema (Some s) \<longleftrightarrow> is_object s"
  by (simp add: is_schema_def)

lemma yields_set_fresh:
  "is_object s \<Longrightarrow> utf8_valid key \<Longrightarrow> yields mk (Some x) \<Longrightarrow> yields (set_fresh (Some s) key mk) (MCP_OK, Some (object_put s key x))"
  unfolding set_fresh_def
  by (rule yields_bind, assumption) (simp, rule yields_bind [OF yields_object_set], simp_all add: yields_ret)

lemma yields_set_minimum:
  "is_object s \<Longrightarrow> isfinite lo \<Longrightarrow>
   yields (mcp_schema_set_minimum (Some s) lo) (MCP_OK, Some (object_put s ''minimum'' (JNumber lo)))"
  by (simp add: mcp_schema_set_minimum_def set_bound_def yields_set_fresh yields_new_number utf8_valid_ascii)

lemma yields_ensure_array:
  "is_object s \<Longrightarrow> utf8_valid key \<Longrightarrow> keyword s key = None \<Longrightarrow>
   yields (ensure_child s key True) (Some (JArray [] 0), object_put s key (JArray [] 0))"
  unfolding ensure_child_def keyword_def
  by (simp, rule yields_bind [OF yields_new(3)], simp, rule yields_bind [OF yields_object_set], simp_all add: yields_ret)

lemma yields_add_required:
  assumes "is_object s" and "keyword s ''required'' = None" and "wf_text name"
  shows "yields (mcp_schema_add_required (Some s) (Some name))
    (MCP_OK, Some (object_put s ''required'' (array_put (JArray [] 0) (JString name))))"
proof -
  have name: "yields (mcp_json_string_new (Some name)) (Some (JString name))"
  proof -
    have "cstr name = name" using assms(3) by (auto simp: wf_text_def cstr_def takeWhile_eq_all_conv)
    then show ?thesis using makes_yields [OF makes_string, of name] assms(3) by simp
  qed
  show ?thesis
    unfolding mcp_schema_add_required_def
    apply (simp add: assms)
    apply (rule yields_bind [OF yields_ensure_array])
       apply (simp_all add: assms utf8_valid_ascii)
    apply (rule yields_bind [OF name], simp)
    apply (rule yields_bind [OF yields_array_append])
     apply (simp_all add: is_array_def object_put_twice yields_ret)
    done
qed

lemma validate_conforms:
  "mcp_schema_validate schema inst = MCP_OK \<longleftrightarrow> (\<exists>s v. schema = Some s \<and> inst = Some v \<and> conforms s v)"
proof -
  have "mcp_schema_validate schema inst = MCP_OK \<longleftrightarrow> check schema inst [] = None"
    by (cases "check schema inst []") (auto simp: mcp_schema_validate_def mcp_schema_validate_verbose_def)
  moreover have "check schema inst [] = None \<longleftrightarrow> (\<exists>s v. schema = Some s \<and> inst = Some v \<and> conforms s v)"
    by (cases schema; cases inst) (simp_all add: check_null check_conforms)
  ultimately show ?thesis by simp
qed

text \<open>Requiring a member narrows a schema to the objects that have it; a lower bound narrows it to the numbers not below it.\<close>

lemma add_required_narrows:
  assumes "is_object s" and "keyword s ''required'' = None" and "wf_text name" and "script h = []"
  obtains s' where "fst (run_state (mcp_schema_add_required (Some s) (Some name)) h) = (MCP_OK, Some s')"
    and "\<And>v. mcp_schema_validate (Some s') (Some v) = MCP_OK \<longleftrightarrow>
      mcp_schema_validate (Some s) (Some v) = MCP_OK \<and> (is_object v \<longrightarrow> keyword v name \<noteq> None)"
  using yields_unique [OF yields_add_required [OF assms(1-3)] assms(4)] conforms_required [OF assms(1,2)]
  by (simp add: validate_conforms)

lemma set_minimum_narrows:
  assumes "is_object s" and "keyword s ''minimum'' = None" and "isfinite lo" and "script h = []"
  obtains s' where "fst (run_state (mcp_schema_set_minimum (Some s) lo) h) = (MCP_OK, Some s')"
    and "\<And>v. mcp_schema_validate (Some s') (Some v) = MCP_OK \<longleftrightarrow>
      mcp_schema_validate (Some s) (Some v) = MCP_OK \<and> (\<forall>d. v = JNumber d \<longrightarrow> \<not> dlt d lo)"
  using yields_unique [OF yields_set_minimum [OF assms(1,3)] assms(4)] conforms_minimum [OF assms(1,2)]
  by (simp add: validate_conforms)


end
