(* ===== verification/Tasks.thy ===== *)
theory Tasks
  imports Json_Build Store
begin

text \<open>
  The task manager (\<open>src/src/protocol/tasks.c\<close>): a growable table of tasks with a state, a message
  and three JSON values each, and the description of a task as JSON. The fields \<open>task_id[64]\<close> and
  \<open>status_message[256]\<close> hold C strings cut to their size.
\<close>

section \<open>The table\<close>

definition safe_copy_str :: "nat \<Rightarrow> string option \<Rightarrow> string" where
  "safe_copy_str dst_sz src =
     (case src of None \<Rightarrow> [] | Some s \<Rightarrow> if dst_sz \<le> length s then take (dst_sz - 1) s else s)"

datatype mcp_task_status =
  MCP_TASK_STATUS_WORKING | MCP_TASK_STATUS_INPUT_REQUIRED | MCP_TASK_STATUS_COMPLETED
| MCP_TASK_STATUS_FAILED | MCP_TASK_STATUS_CANCELLED

fun mcp_task_status_name :: "mcp_task_status \<Rightarrow> string" where
  "mcp_task_status_name MCP_TASK_STATUS_WORKING = ''working''"
| "mcp_task_status_name MCP_TASK_STATUS_INPUT_REQUIRED = ''input_required''"
| "mcp_task_status_name MCP_TASK_STATUS_COMPLETED = ''completed''"
| "mcp_task_status_name MCP_TASK_STATUS_FAILED = ''failed''"
| "mcp_task_status_name MCP_TASK_STATUS_CANCELLED = ''cancelled''"

text \<open>\<open>mcp_task_entry_t\<close>; the description \<open>mcp_task_desc_t\<close> that \<open>mcp_task_mgr_get\<close> fills has the same
  fields.\<close>

record task_entry =
  task_id :: string
  task_status :: mcp_task_status
  ttl_ms :: nat
  poll_interval_ms :: nat
  status_message :: string
  task_result :: "json option"
  task_error :: "json option"
  input_requests :: "json option"

record task_mgr =
  tasks :: "task_entry list"
  task_capacity :: nat

definition mcp_task_mgr_new :: "('z heap_scheme, task_mgr option) state" where
  "mcp_task_mgr_new = do {
     ok \<leftarrow> xmalloc;
     ret (if ok then Some \<lparr>tasks = [], task_capacity = 0\<rparr> else None)
   }"

fun free_tasks :: "task_entry list \<Rightarrow> ('z heap_scheme, unit) state" where
  "free_tasks [] = ret ()"
| "free_tasks (t # ts) = do {
     mcp_json_destroy (task_result t);
     mcp_json_destroy (task_error t);
     mcp_json_destroy (input_requests t);
     free_tasks ts
   }"

definition mcp_task_mgr_free :: "task_mgr option \<Rightarrow> ('z heap_scheme, unit) state" where
  "mcp_task_mgr_free mgr =
     (case mgr of
        None \<Rightarrow> ret ()
      | Some m \<Rightarrow> do { free_tasks (tasks m); xfree (task_capacity m \<noteq> 0); xfree True })"

definition find_task :: "task_mgr option \<Rightarrow> string option \<Rightarrow> nat option" where
  "find_task mgr i =
     (case (mgr, i) of
        (Some m, Some i) \<Rightarrow> first_index (\<lambda>t. task_id t = i) (tasks m)
      | _ \<Rightarrow> None)"

definition mcp_task_mgr_create ::
  "task_mgr option \<Rightarrow> string option \<Rightarrow> nat \<Rightarrow> nat \<Rightarrow> ('z heap_scheme, mcp_status \<times> task_mgr option) state" where
  "mcp_task_mgr_create mgr i ttl poll =
     (case (mgr, i) of
        (Some m, Some tid) \<Rightarrow>
          if tid = [] then ret (MCP_ERR_INVALID_ARGUMENT, mgr)
          else if find_task mgr i \<noteq> None then ret (MCP_ERR_ALREADY_EXISTS, mgr)
          else do {
            g \<leftarrow> grow_array 8 (length (tasks m)) (task_capacity m);
            (case g of
               None \<Rightarrow> ret (MCP_ERR_NOMEM, mgr)
             | Some cap \<Rightarrow>
                 let t = \<lparr>task_id = safe_copy_str 64 i, task_status = MCP_TASK_STATUS_WORKING, ttl_ms = ttl,
                          poll_interval_ms = poll, status_message = [], task_result = None,
                          task_error = None, input_requests = None\<rparr>
                 in ret (MCP_OK, Some (m\<lparr>tasks := tasks m @ [t], task_capacity := cap\<rparr>)))
          }
      | _ \<Rightarrow> ret (MCP_ERR_INVALID_ARGUMENT, mgr))"

text \<open>The operations that change the task they find. In the code they are one assignment each
  to the entry that \<open>find_task\<close> points to.\<close>

definition update_task ::
  "task_mgr option \<Rightarrow> string option \<Rightarrow> (task_entry \<Rightarrow> ('z heap_scheme, task_entry) state) \<Rightarrow>
   ('z heap_scheme, mcp_status \<times> task_mgr option) state" where
  "update_task mgr i f =
     (case (mgr, find_task mgr i) of
        (Some m, Some k) \<Rightarrow> do {
          t \<leftarrow> f (tasks m ! k);
          ret (MCP_OK, Some (m\<lparr>tasks := (tasks m)[k := t]\<rparr>))
        }
      | _ \<Rightarrow> ret (MCP_ERR_NOT_FOUND, mgr))"

definition mcp_task_mgr_set_status ::
  "task_mgr option \<Rightarrow> string option \<Rightarrow> mcp_task_status \<Rightarrow> string option \<Rightarrow>
   ('z heap_scheme, mcp_status \<times> task_mgr option) state" where
  "mcp_task_mgr_set_status mgr i status msg = update_task mgr i (\<lambda>t.
     ret (let t = t\<lparr>task_status := status\<rparr>
          in if msg \<noteq> None then t\<lparr>status_message := safe_copy_str 256 msg\<rparr> else t))"

definition mcp_task_mgr_set_result ::
  "task_mgr option \<Rightarrow> string option \<Rightarrow> json option \<Rightarrow> ('z heap_scheme, mcp_status \<times> task_mgr option) state" where
  "mcp_task_mgr_set_result mgr i result = update_task mgr i (\<lambda>t. do {
     mcp_json_destroy (task_result t);
     ret (t\<lparr>task_result := result, task_status := MCP_TASK_STATUS_COMPLETED\<rparr>)
   })"

definition mcp_task_mgr_set_error ::
  "task_mgr option \<Rightarrow> string option \<Rightarrow> json option \<Rightarrow> ('z heap_scheme, mcp_status \<times> task_mgr option) state" where
  "mcp_task_mgr_set_error mgr i error = update_task mgr i (\<lambda>t. do {
     mcp_json_destroy (task_error t);
     ret (t\<lparr>task_error := error, task_status := MCP_TASK_STATUS_FAILED\<rparr>)
   })"

definition mcp_task_mgr_set_input_requests ::
  "task_mgr option \<Rightarrow> string option \<Rightarrow> json option \<Rightarrow> ('z heap_scheme, mcp_status \<times> task_mgr option) state" where
  "mcp_task_mgr_set_input_requests mgr i reqs = update_task mgr i (\<lambda>t. do {
     mcp_json_destroy (input_requests t);
     ret (t\<lparr>input_requests := reqs, task_status := MCP_TASK_STATUS_INPUT_REQUIRED\<rparr>)
   })"

definition mcp_task_mgr_get :: "task_mgr option \<Rightarrow> string option \<Rightarrow> mcp_status \<times> task_entry option" where
  "mcp_task_mgr_get mgr i =
     (case (mgr, i) of
        (Some m, Some _) \<Rightarrow>
          (case find_task mgr i of
             None \<Rightarrow> (MCP_ERR_NOT_FOUND, None)
           | Some k \<Rightarrow>
               let t = tasks m ! k
               in (MCP_OK, Some (t\<lparr>task_id := safe_copy_str 64 (Some (task_id t)),
                                  status_message := safe_copy_str 256 (Some (status_message t))\<rparr>)))
      | _ \<Rightarrow> (MCP_ERR_INVALID_ARGUMENT, None))"

definition mcp_task_mgr_cancel ::
  "task_mgr option \<Rightarrow> string option \<Rightarrow> ('z heap_scheme, mcp_status \<times> task_mgr option) state" where
  "mcp_task_mgr_cancel mgr i =
     update_task mgr i (\<lambda>t. ret (t\<lparr>task_status := MCP_TASK_STATUS_CANCELLED\<rparr>))"

definition mcp_task_desc_to_json :: "task_entry option \<Rightarrow> ('z heap_scheme, json option) state" where
  "mcp_task_desc_to_json desc =
     (case desc of
        None \<Rightarrow> ret None
      | Some d \<Rightarrow>
          opt_bind mcp_json_object_new (\<lambda>obj.
          opt_bind (put_or_drop obj ''taskId'' (mcp_json_string_new (Some (task_id d)))) (\<lambda>obj.
          opt_bind (put_or_drop obj ''status'' (mcp_json_string_new (Some (mcp_task_status_name (task_status d))))) (\<lambda>obj.
          opt_bind (put_when (0 < ttl_ms d) ''ttlMs'' (mcp_json_number_new (double_of_int (int (ttl_ms d)))) obj) (\<lambda>obj.
          opt_bind (put_when (0 < poll_interval_ms d) ''pollIntervalMs''
              (mcp_json_number_new (double_of_int (int (poll_interval_ms d)))) obj) (\<lambda>obj.
          opt_bind (put_when (status_message d \<noteq> []) ''statusMessage'' (mcp_json_string_new (Some (status_message d))) obj) (\<lambda>obj.
          opt_bind (put_when (task_result d \<noteq> None) ''result'' (mcp_json_clone (task_result d)) obj) (\<lambda>obj.
          opt_bind (put_when (task_error d \<noteq> None) ''error'' (mcp_json_clone (task_error d)) obj) (\<lambda>obj.
          put_when (input_requests d \<noteq> None) ''inputRequests'' (mcp_json_clone (input_requests d)) obj)))))))))"


section \<open>The table is a map from ids to tasks\<close>

definition tasks_invar :: "task_mgr \<Rightarrow> bool" where
  "tasks_invar m \<longleftrightarrow> length (tasks m) \<le> task_capacity m \<and> distinct (map task_id (tasks m)) \<and>
     (\<forall>t \<in> set (tasks m). length (task_id t) < 64 \<and> length (status_message t) < 256)"

definition tasks_abs :: "task_mgr \<Rightarrow> string \<Rightarrow> task_entry option" where
  "tasks_abs m = table_of task_id (tasks m)"

definition new_task :: "string \<Rightarrow> nat \<Rightarrow> nat \<Rightarrow> task_entry" where
  "new_task i ttl poll = \<lparr>task_id = i, task_status = MCP_TASK_STATUS_WORKING, ttl_ms = ttl,
     poll_interval_ms = poll, status_message = [], task_result = None, task_error = None, input_requests = None\<rparr>"

type_synonym task_arg = "string \<times> nat \<times> nat"

fun tasks_add :: "task_arg \<Rightarrow> task_mgr \<Rightarrow> ('z heap_scheme, mcp_status \<times> task_mgr) state" where
  "tasks_add (i, ttl, poll) m = do {
     r \<leftarrow> mcp_task_mgr_create (Some m) (Some i) ttl poll;
     ret (fst r, case snd r of None \<Rightarrow> m | Some m' \<Rightarrow> m')
   }"

lemma find_task_abs: "map_option (\<lambda>k. tasks m ! k) (find_task (Some m) (Some i)) = tasks_abs m i"
  by (simp add: find_task_def tasks_abs_def table_of_first_index)

lemma find_task_None: "find_task (Some m) (Some i) = None \<longleftrightarrow> tasks_abs m i = None"
  by (simp flip: find_task_abs)

lemma safe_copy_short: "length s < n \<Longrightarrow> safe_copy_str n (Some s) = s"
  by (simp add: safe_copy_str_def)

lemma safe_copy_length: "0 < n \<Longrightarrow> length (safe_copy_str n s) < n"
  by (auto simp: safe_copy_str_def split: option.splits)

lemma wp_task_create:
  assumes "tasks_invar m" and "i \<noteq> []" and "length i < 64" and "tasks_abs m i = None"
    and "\<And>m' h'. tasks_invar m' \<Longrightarrow> tasks_abs m' = (tasks_abs m)(i \<mapsto> new_task i ttl poll) \<Longrightarrow>
      steps (array_blocks (task_capacity m') - array_blocks (task_capacity m)) h h' \<Longrightarrow> Q (MCP_OK, Some m') h'"
    and "\<And>h'. script h \<noteq> [] \<Longrightarrow> steps 0 h h' \<Longrightarrow> Q (MCP_ERR_NOMEM, Some m) h'"
  shows "wp (mcp_task_mgr_create (Some m) (Some i) ttl poll) Q h"
proof -
  have find: "find_task (Some m) (Some i) = None" using assms(4) by (simp add: find_task_None)
  have fresh: "i \<notin> task_id ` set (tasks m)" using assms(4) by (simp add: tasks_abs_def table_of_None)
  show ?thesis
    unfolding mcp_task_mgr_create_def option.case prod.case if_not_P [OF assms(2)] find simp_thms if_False wp_bind
  proof (rule wp_grow_array, goal_cases)
    case (3 cap h')
    let ?m = "m\<lparr>tasks := tasks m @ [new_task i ttl poll], task_capacity := cap\<rparr>"
    have "tasks_invar ?m" using assms(1-3) fresh 3 by (auto simp: tasks_invar_def new_task_def)
    moreover have "tasks_abs ?m = (tasks_abs m)(i \<mapsto> new_task i ttl poll)"
      using table_of_append [of task_id "new_task i ttl poll" "tasks m"] fresh
      by (simp add: tasks_abs_def new_task_def)
    ultimately show ?case
      using assms(5) [of ?m h'] 3 assms(3) by (simp add: new_task_def safe_copy_short)
  qed (use assms in \<open>auto simp: tasks_invar_def\<close>)
qed

interpretation task_store: keyed_store tasks_invar tasks_abs tasks_add fst "\<lambda>(i, ttl, poll). new_task i ttl poll"
    "\<lambda>a. fst a \<noteq> [] \<and> length (fst a) < 64"
proof unfold_locales
  fix m :: task_mgr and a :: task_arg and h :: "'z heap_scheme"
  assume inv: "tasks_invar m" and a: "fst a \<noteq> [] \<and> length (fst a) < 64"
  obtain i ttl poll where [simp]: "a = (i, ttl, poll)" by (cases a)
  show "tasks_add a m = ret (MCP_ERR_ALREADY_EXISTS, m)" if "tasks_abs m (fst a) \<noteq> None"
    using that a find_task_None [of m i] by (auto simp: mcp_task_mgr_create_def)
  show "wp (tasks_add a m) (\<lambda>r h'. tasks_invar (snd r) \<and> (script h = [] \<longrightarrow> script h' = []) \<and>
     (if fst r = MCP_OK then tasks_abs (snd r) = (tasks_abs m)(fst a \<mapsto> (case a of (i, ttl, poll) \<Rightarrow> new_task i ttl poll))
      else fst r = MCP_ERR_NOMEM \<and> script h \<noteq> [] \<and> tasks_abs (snd r) = tasks_abs m)) h"
    if "tasks_abs m (fst a) = None"
    unfolding \<open>a = (i, ttl, poll)\<close> tasks_add.simps wp_bind wp_return fst_conv prod.case
    by (rule wp_task_create [OF inv]) (use a that inv in \<open>auto simp: steps_def\<close>)
qed

lemma update_task_abs:
  fixes f :: "task_entry \<Rightarrow> ('z heap_scheme, task_entry) state"
  assumes inv: "tasks_invar m" and f: "\<And>t h. run_state (f t) h = (g t, k t h)"
    and g: "\<And>t. task_id (g t) = task_id t" "\<And>t. length (status_message t) < 256 \<Longrightarrow> length (status_message (g t)) < 256"
  shows "case tasks_abs m i of
     None \<Rightarrow> run_state (update_task (Some m) (Some i) f) h = ((MCP_ERR_NOT_FOUND, Some m), h)
   | Some t \<Rightarrow> \<exists>m'. run_state (update_task (Some m) (Some i) f) h = ((MCP_OK, Some m'), k t h) \<and>
       tasks_invar m' \<and> tasks_abs m' = (tasks_abs m)(i \<mapsto> g t)"
proof (cases "find_task (Some m) (Some i)")
  case None
  then have "tasks_abs m i = None" by (simp add: find_task_None)
  with None show ?thesis by (simp add: update_task_def)
next
  case (Some j)
  define t where "t = tasks m ! j"
  have j: "j < length (tasks m)" "task_id t = i"
    using Some first_index_SomeD [of "\<lambda>t. task_id t = i" "tasks m" j] by (simp_all add: find_task_def t_def)
  have abs: "tasks_abs m i = Some t" using Some find_task_abs [of m i] by (simp add: t_def)
  let ?m = "m\<lparr>tasks := (tasks m)[j := g t]\<rparr>"
  have ids: "map task_id ((tasks m)[j := g t]) = map task_id (tasks m)"
    by (rule keys_update) (use j g in \<open>simp_all add: t_def\<close>)
  have len: "\<forall>t \<in> set (tasks m). length (task_id t) < 64 \<and> length (status_message t) < 256"
    using inv by (simp add: tasks_invar_def)
  have t: "t \<in> set (tasks m)" using j by (simp add: t_def)
  have "\<forall>x \<in> set ((tasks m)[j := g t]). length (task_id x) < 64 \<and> length (status_message x) < 256"
    using len t g set_update_subset_insert [of "tasks m" j "g t"] by auto
  then have "tasks_invar ?m" using inv ids by (simp add: tasks_invar_def)
  moreover have "tasks_abs ?m = (tasks_abs m)(i \<mapsto> g t)"
    using table_of_update [of task_id "tasks m" j "g t"] inv j g by (simp add: tasks_abs_def tasks_invar_def t_def)
  ultimately show ?thesis using Some abs f [of t h] by (simp add: update_task_def t_def)
qed


lemma run_destroy_opt: "run_state (destroy_opt v) h = ((), h\<lparr>live := live h - blocks_opt v\<rparr>)"
  using wp_destroy_opt [of v "\<lambda>u h1. (u, h1) = ((), h\<lparr>live := live h - blocks_opt v\<rparr>)" h]
  by (cases "run_state (destroy_opt v) h") (simp add: wp_run_state)

text \<open>\<open>op\<close> replaces the task \<open>t\<close> with id \<open>i\<close>, if there is one, by \<open>g t\<close> and frees \<open>freed t\<close> blocks.\<close>

definition task_updated ::
  "task_mgr \<Rightarrow> string \<Rightarrow> 'z heap_scheme \<Rightarrow> ('z heap_scheme, mcp_status \<times> task_mgr option) state \<Rightarrow>
   (task_entry \<Rightarrow> task_entry) \<Rightarrow> (task_entry \<Rightarrow> int) \<Rightarrow> bool" where
  "task_updated m i h op g freed \<longleftrightarrow>
     (case tasks_abs m i of
        None \<Rightarrow> run_state op h = ((MCP_ERR_NOT_FOUND, Some m), h)
      | Some t \<Rightarrow> \<exists>m'. run_state op h = ((MCP_OK, Some m'), h\<lparr>live := live h - freed t\<rparr>) \<and>
          tasks_invar m' \<and> tasks_abs m' = (tasks_abs m)(i \<mapsto> g t))"




text \<open>
  C38: a task whose id does not fit the field is lost. \<open>mcp_task_mgr_create\<close> reports success for an
  id of 64 bytes or more, but stores its first 63 bytes, so that the task cannot be found under
  the id it was created with, and the same id can be created again.
\<close>

theorem long_task_id_is_lost:
  assumes "64 \<le> length i" and "\<forall>t \<in> set (tasks m). length (task_id t) < 64"
  shows "\<exists>m' h'. run_state (mcp_task_mgr_create (Some m) (Some i) ttl poll) \<lparr>live = n, script = []\<rparr> = ((MCP_OK, Some m'), h') \<and>
     mcp_task_mgr_get (Some m') (Some i) = (MCP_ERR_NOT_FOUND, None) \<and>
     (\<exists>m'' h''. run_state (mcp_task_mgr_create (Some m') (Some i) ttl poll) h' = ((MCP_OK, Some m''), h''))"
proof -
  have none: "find_task (Some x) (Some i) = None" if "\<forall>t \<in> set (tasks x). length (task_id t) < 64" for x
    using that assms(1) by (force simp: find_task_def first_index_None)
  have create: "\<exists>m' h'. run_state (mcp_task_mgr_create (Some x) (Some i) ttl poll) h = ((MCP_OK, Some m'), h') \<and>
      script h' = [] \<and> (\<forall>t \<in> set (tasks m'). length (task_id t) < 64)"
    if x: "\<forall>t \<in> set (tasks x). length (task_id t) < 64" and h: "script h = []" for x and h :: heap
  proof -
    have "i \<noteq> []" using assms(1) by auto
    moreover have "length (safe_copy_str 64 (Some i)) < 64" by (rule safe_copy_length) simp
    ultimately have "wp (mcp_task_mgr_create (Some x) (Some i) ttl poll) (\<lambda>r h'. \<exists>m'. r = (MCP_OK, Some m') \<and>
        script h' = [] \<and> (\<forall>t \<in> set (tasks m'). length (task_id t) < 64)) h"
      using none [OF x] x h by (auto simp: mcp_task_mgr_create_def grow_array_def Let_def)
    then show ?thesis
      by (cases "run_state (mcp_task_mgr_create (Some x) (Some i) ttl poll) h") (auto simp: wp_run_state)
  qed
  obtain m' h' where m': "run_state (mcp_task_mgr_create (Some m) (Some i) ttl poll) \<lparr>live = n, script = []\<rparr> =
      ((MCP_OK, Some m'), h')" "script h' = []" "\<forall>t \<in> set (tasks m'). length (task_id t) < 64"
    using create [OF assms(2), of "\<lparr>live = n, script = []\<rparr>"] by auto
  moreover have "mcp_task_mgr_get (Some m') (Some i) = (MCP_ERR_NOT_FOUND, None)"
    using none [OF m'(3)] by (simp add: mcp_task_mgr_get_def)
  ultimately show ?thesis using create [OF m'(3,2)] by auto
qed

theorem long_task_id_is_lost_witness:
  "\<exists>m' h'. run_state (mcp_task_mgr_create (Some \<lparr>tasks = [], task_capacity = 0\<rparr>) (Some (replicate 64 (CHR ''x''))) 0 0)
      \<lparr>live = 1, script = []\<rparr> = ((MCP_OK, Some m'), h') \<and>
     mcp_task_mgr_get (Some m') (Some (replicate 64 (CHR ''x''))) = (MCP_ERR_NOT_FOUND, None)"
  using long_task_id_is_lost [of "replicate 64 (CHR ''x'')" "\<lparr>tasks = [], task_capacity = 0\<rparr>" 0 0 1] by auto

section \<open>Descriptions\<close>

definition task_json :: "task_entry \<Rightarrow> json" where
  "task_json d =
     put_if (input_requests d \<noteq> None) ''inputRequests'' (recap (the (input_requests d)))
     (put_if (task_error d \<noteq> None) ''error'' (recap (the (task_error d)))
     (put_if (task_result d \<noteq> None) ''result'' (recap (the (task_result d)))
     (put_if (status_message d \<noteq> []) ''statusMessage'' (JString (cstr (status_message d)))
     (put_if (0 < poll_interval_ms d) ''pollIntervalMs'' (JNumber (double_of_int (int (poll_interval_ms d))))
     (put_if (0 < ttl_ms d) ''ttlMs'' (JNumber (double_of_int (int (ttl_ms d))))
     (object_put (object_put (JObject [] 0) ''taskId'' (JString (cstr (task_id d)))) ''status''
        (JString (cstr (mcp_task_status_name (task_status d))))))))))"

definition task_good :: "task_entry \<Rightarrow> bool" where
  "task_good d \<longleftrightarrow> wf_text (cstr (task_id d)) \<and> wf_text (cstr (status_message d)) \<and>
     isfinite (double_of_int (int (ttl_ms d))) \<and> isfinite (double_of_int (int (poll_interval_ms d)))"

lemma status_name_text [simp]:
  "wf_text (mcp_task_status_name st)" "cstr (mcp_task_status_name st) = mcp_task_status_name st"
  by (cases st; simp add: wf_text_def utf8_valid_ascii cstr_def)+

lemma makes_task_desc:
  assumes "\<forall>v \<in> {task_result d, task_error d, input_requests d}. \<forall>w. v = Some w \<longrightarrow> wf_json w"
  shows "\<exists>good. makes good (task_json d) (mcp_task_desc_to_json (Some d)) \<and> (task_good d \<longrightarrow> good)"
proof -
  have clone: "makes True (recap (the v)) (mcp_json_clone v)" if "v \<noteq> None"
    "v \<in> {task_result d, task_error d, input_requests d}" for v
    using that assms makes_clone [of "the v"] by (cases v) auto
  show ?thesis
    unfolding mcp_task_desc_to_json_def option.case task_json_def
    apply (intro exI conjI)
     apply (rule makes_from_object)
     apply (rule fills_bind, rule fills_put [OF makes_string], simp, simp add: utf8_valid_ascii)+
     apply (rule fills_bind, rule fills_when [OF makes_number], simp, simp add: utf8_valid_ascii)+
     apply (rule fills_bind, rule fills_when [OF makes_string], simp, simp add: utf8_valid_ascii)
     apply (rule fills_bind, rule fills_when [OF clone], assumption, simp, simp, simp add: utf8_valid_ascii)+
     apply (rule fills_when [OF clone], assumption, simp, simp, simp add: utf8_valid_ascii)
    by (simp add: task_good_def)
qed


text \<open>The members of a description.\<close>

lemma get_task_json:
  assumes "utf8_valid k" and "wf_text (task_id d)" and "wf_text (status_message d)"
  shows "builtin_object_get (Some (task_json d)) k =
     (if input_requests d \<noteq> None \<and> k = ''inputRequests'' then Some (recap (the (input_requests d)))
      else if task_error d \<noteq> None \<and> k = ''error'' then Some (recap (the (task_error d)))
      else if task_result d \<noteq> None \<and> k = ''result'' then Some (recap (the (task_result d)))
      else if status_message d \<noteq> [] \<and> k = ''statusMessage'' then Some (JString (status_message d))
      else if 0 < poll_interval_ms d \<and> k = ''pollIntervalMs'' then Some (JNumber (double_of_int (int (poll_interval_ms d))))
      else if 0 < ttl_ms d \<and> k = ''ttlMs'' then Some (JNumber (double_of_int (int (ttl_ms d))))
      else if k = ''status'' then Some (JString (mcp_task_status_name (task_status d)))
      else if k = ''taskId'' then Some (JString (task_id d)) else None)"
proof -
  have "builtin_object_get (Some (JObject [] 0)) k = None" by (simp add: builtin_object_get_def)
  with assms show ?thesis
    unfolding task_json_def
    by (simp only: get_put_if object_get_put is_object_put_if is_object_put is_object_JObject cstr_wf status_name_text)
qed




end
