(* ===== verification/Timer.thy ===== *)
theory Timer
  imports Mcp_Prelude "HOL-Library.Word" "HOL-Library.Multiset"
begin

text \<open>
  The timer list of the runtime (\<open>src/src/runtime/timer.c\<close>): pending callbacks in the order of their
  deadlines. Reading the monotonic clock and running a callback are parameters; a callback
  may change the heap and, through the operations below, the list.
\<close>

section \<open>Deadlines\<close>

definition saturating_add :: "64 word \<Rightarrow> 64 word \<Rightarrow> 64 word" where
  "saturating_add a b = (let r = a + b in if r < a then - 1 else r)"

definition delay_to_ns :: "64 word \<Rightarrow> 64 word" where
  "delay_to_ns delay_ms = (if - 1 div 1000000 < delay_ms then - 1 else delay_ms * 1000000)"

section \<open>The list\<close>

record ('f, 'a) entry =
  due_ns :: "64 word"
  fn :: 'f
  arg :: 'a

type_synonym ('f, 'a) timer = "('f, 'a) entry list"

definition mcp_timer_create :: "('z heap_scheme, ('f, 'a) timer option) state" where
  "mcp_timer_create = do { ok \<leftarrow> xmalloc; ret (if ok then Some [] else None) }"

fun free_timer_entries :: "('f, 'a) timer \<Rightarrow> ('z heap_scheme, unit) state" where
  "free_timer_entries [] = ret ()"
| "free_timer_entries (e # es) = do { xfree True; free_timer_entries es }"

definition mcp_timer_destroy :: "('f, 'a) timer option \<Rightarrow> ('z heap_scheme, unit) state" where
  "mcp_timer_destroy t =
     (case t of None \<Rightarrow> ret () | Some es \<Rightarrow> do { free_timer_entries es; xfree True })"

text \<open>The walk along the links to the place of a new entry: behind every entry due no later.\<close>

fun link_entry :: "('f, 'a) entry \<Rightarrow> ('f, 'a) timer \<Rightarrow> ('f, 'a) timer" where
  "link_entry e [] = [e]"
| "link_entry e (x # xs) = (if due_ns x \<le> due_ns e then x # link_entry e xs else e # x # xs)"

definition mcp_timer_schedule ::
  "('z heap_scheme, 64 word) state \<Rightarrow> ('f, 'a) timer option \<Rightarrow> 64 word \<Rightarrow> 'f option \<Rightarrow> 'a \<Rightarrow>
   ('z heap_scheme, mcp_status \<times> ('f, 'a) timer option) state" where
  "mcp_timer_schedule now_ns t delay_ms f a =
     (case (t, f) of
        (Some es, Some f) \<Rightarrow> do {
          ok \<leftarrow> xmalloc;
          (if \<not> ok then ret (MCP_ERR_NOMEM, t)
           else do {
             now \<leftarrow> now_ns;
             ret (MCP_OK, Some (link_entry \<lparr>due_ns = saturating_add now (delay_to_ns delay_ms), fn = f, arg = a\<rparr> es))
           })
        }
      | _ \<Rightarrow> ret (MCP_ERR_INVALID_ARGUMENT, t))"

fun unlink_entries :: "'f \<Rightarrow> 'a \<Rightarrow> ('f, 'a) timer \<Rightarrow> ('z heap_scheme, nat \<times> ('f, 'a) timer) state" where
  "unlink_entries f a [] = ret (0, [])"
| "unlink_entries f a (x # xs) =
     (if fn x = f \<and> arg x = a then do {
        xfree True;
        r \<leftarrow> unlink_entries f a xs;
        ret (fst r + 1, snd r)
      }
      else do {
        r \<leftarrow> unlink_entries f a xs;
        ret (fst r, x # snd r)
      })"

definition mcp_timer_cancel ::
  "('f, 'a) timer option \<Rightarrow> 'f option \<Rightarrow> 'a \<Rightarrow> ('z heap_scheme, nat \<times> ('f, 'a) timer option) state" where
  "mcp_timer_cancel t f a =
     (case (t, f) of
        (Some es, Some f) \<Rightarrow> do { r \<leftarrow> unlink_entries f a es; ret (fst r, Some (snd r)) }
      | _ \<Rightarrow> ret (0, t))"

text \<open>
  The loop of \<open>mcp_timer_poll\<close>. The clock is read again for every entry; the entry is unlinked, then
  its callback runs on what is left of the list, then the entry is freed. The loop need
  not end, so its value is \<open>None\<close> if it does not.
\<close>

partial_function (option) poll_loop ::
  "('z heap_scheme, 64 word) state \<Rightarrow> ('f \<Rightarrow> 'a \<Rightarrow> ('f, 'a) timer \<Rightarrow> ('z heap_scheme, ('f, 'a) timer) state) \<Rightarrow>
   ('f, 'a) timer \<Rightarrow> nat \<Rightarrow> 'z heap_scheme \<Rightarrow> ((nat \<times> ('f, 'a) timer) \<times> 'z heap_scheme) option" where
  "poll_loop now_ns call t fired h =
     (case t of
        [] \<Rightarrow> Some ((fired, t), h)
      | e # es \<Rightarrow>
          (case run_state now_ns h of
             (now, h1) \<Rightarrow>
               if now < due_ns e then Some ((fired, t), h1)
               else (case run_state (do { t' \<leftarrow> call (fn e) (arg e) es; xfree True; ret t' }) h1 of
                       (t', h2) \<Rightarrow> poll_loop now_ns call t' (fired + 1) h2)))"

definition mcp_timer_poll ::
  "('z heap_scheme, 64 word) state \<Rightarrow> ('f \<Rightarrow> 'a \<Rightarrow> ('f, 'a) timer \<Rightarrow> ('z heap_scheme, ('f, 'a) timer) state) \<Rightarrow>
   ('f, 'a) timer option \<Rightarrow> 'z heap_scheme \<Rightarrow> ((mcp_status \<times> nat \<times> ('f, 'a) timer option) \<times> 'z heap_scheme) option" where
  "mcp_timer_poll now_ns call t h =
     (case t of
        None \<Rightarrow> Some ((MCP_ERR_INVALID_ARGUMENT, 0, t), h)
      | Some es \<Rightarrow>
          map_option (\<lambda>((fired, es), h). ((MCP_OK, fired, Some es), h)) (poll_loop now_ns call es 0 h))"

section \<open>Saturation\<close>

lemma saturating_add_min: "unat (saturating_add a b) = min (unat a + unat b) (2 ^ 64 - 1)"
proof -
  have "unat a < 2 ^ 64" "unat b < 2 ^ 64" "unat (- 1 :: 64 word) = 2 ^ 64 - 1"
    using unsigned_less [of a] unsigned_less [of b] by (simp_all add: unsigned_minus_1_eq_mask mask_eq_exp_minus_1)
  then show ?thesis
    by (auto simp: saturating_add_def Let_def word_less_nat_alt unat_plus_if' split: if_splits)
qed

lemma delay_to_ns_min: "unat (delay_to_ns d) = min (unat d * 1000000) (2 ^ 64 - 1)"
proof (cases "unat d \<le> 18446744073709")
  case True
  then have "unat (d * 1000000) = unat d * 1000000"
    by (subst unat_mult_lem [THEN iffD1]) simp_all
  then show ?thesis using True by (auto simp: delay_to_ns_def word_less_nat_alt unat_div)
qed (simp add: delay_to_ns_def word_less_nat_alt unat_div unsigned_minus_1_eq_mask mask_eq_exp_minus_1)

definition deadline :: "64 word \<Rightarrow> 64 word \<Rightarrow> 64 word" where
  "deadline now delay_ms = saturating_add now (delay_to_ns delay_ms)"

lemma deadline_min: "unat (deadline now delay_ms) = min (unat now + unat delay_ms * 1000000) (2 ^ 64 - 1)"
  by (simp add: deadline_def saturating_add_min delay_to_ns_min)

section \<open>Order\<close>

definition by_deadline :: "('f, 'a) timer \<Rightarrow> bool" where
  "by_deadline t \<longleftrightarrow> sorted (map due_ns t)"

lemma by_deadline_Cons: "by_deadline (e # es) \<longleftrightarrow> (\<forall>x \<in> set es. due_ns e \<le> due_ns x) \<and> by_deadline es"
  by (auto simp: by_deadline_def)

lemma set_link_entry: "set (link_entry e t) = insert e (set t)"
  by (induction t) auto

lemma by_deadline_link: "by_deadline t \<Longrightarrow> by_deadline (link_entry e t)"
  by (induction t) (auto simp: by_deadline_Cons set_link_entry by_deadline_def)

lemma mset_link_entry: "mset (link_entry e t) = mset (t @ [e])"
  by (induction t) auto

lemma link_entry_same_deadline:
  "by_deadline t \<Longrightarrow> filter (\<lambda>x. due_ns k = due_ns x) (link_entry e t) = filter (\<lambda>x. due_ns k = due_ns x) (t @ [e])"
proof (induction t)
  case (Cons x t)
  then have "filter (\<lambda>y. due_ns e = due_ns y) t = []" if "\<not> due_ns x \<le> due_ns e"
    using that by (auto simp: by_deadline_Cons filter_empty_conv)
  with Cons show ?case by (auto simp: by_deadline_Cons)
qed simp

lemma link_entry_sort_key: "link_entry e (sort_key due_ns log) = sort_key due_ns (log @ [e])"
proof (rule properties_for_sort_key [symmetric])
  have "by_deadline (sort_key due_ns log)" by (simp add: by_deadline_def)
  from by_deadline_link [OF this] show "sorted (map due_ns (link_entry e (sort_key due_ns log)))"
    by (simp only: by_deadline_def)
  show "filter (\<lambda>x. due_ns k = due_ns x) (link_entry e (sort_key due_ns log)) =
      filter (\<lambda>x. due_ns k = due_ns x) (log @ [e])" for k
    using link_entry_same_deadline [OF \<open>by_deadline (sort_key due_ns log)\<close>, of k e]
      sort_key_stable [of due_ns "due_ns k" log] by (simp add: eq_commute)
qed (simp add: mset_link_entry)

lemma run_unlink: "run_state (unlink_entries f a es) h =
   ((length (filter (\<lambda>e. fn e = f \<and> arg e = a) es), filter (\<lambda>e. \<not> (fn e = f \<and> arg e = a)) es),
    h\<lparr>live := live h - int (length (filter (\<lambda>e. fn e = f \<and> arg e = a) es))\<rparr>)"
proof (rule run_state_wpI)
  show "wp (unlink_entries f a es) Q h =
     Q (length (filter (\<lambda>e. fn e = f \<and> arg e = a) es), filter (\<lambda>e. \<not> (fn e = f \<and> arg e = a)) es)
       (h\<lparr>live := live h - int (length (filter (\<lambda>e. fn e = f \<and> arg e = a) es))\<rparr>)" for Q
    by (induction es arbitrary: Q h) (auto simp: algebra_simps)
qed

text \<open>
  C13: the pending callbacks are always the stable sort, by deadline, of what was scheduled in
  the order it was scheduled: equal deadlines fire first in, first out. Scheduling at the time
  \<open>now\<close> adds an entry whose deadline is \<open>now + delay\<close>, saturated at the largest 64-bit value, or fails
  for lack of memory and changes nothing. Cancelling removes exactly the entries with the
  callback and argument, frees them, and keeps the order of the others.
\<close>

theorem mcp_timer_schedule_stable:
  assumes clock: "\<forall>h. run_state now_ns h = (now, h)"
  shows "wp (mcp_timer_schedule now_ns (Some (sort_key due_ns log)) delay_ms (Some f) a) (\<lambda>(st, t) h'.
      (if st = MCP_OK
       then \<exists>due. unat due = min (unat now + unat delay_ms * 1000000) (2 ^ 64 - 1) \<and> steps 1 h h' \<and>
              t = Some (sort_key due_ns (log @ [\<lparr>due_ns = due, fn = f, arg = a\<rparr>]))
       else st = MCP_ERR_NOMEM \<and> script h \<noteq> [] \<and> steps 0 h h' \<and> t = Some (sort_key due_ns log))) h \<and>
    run_state (mcp_timer_cancel (Some (sort_key due_ns log)) (Some f) a) h =
      (let hit = (\<lambda>e. fn e = f \<and> arg e = a); n = length (filter hit log)
       in ((n, Some (sort_key due_ns (filter (\<lambda>e. \<not> hit e) log))), h\<lparr>live := live h - int n\<rparr>))"
proof (intro conjI)
  have now: "wp now_ns Q h = Q now h" for Q h using clock by (simp add: wp_def)
  show "wp (mcp_timer_schedule now_ns (Some (sort_key due_ns log)) delay_ms (Some f) a) (\<lambda>(st, t) h'.
      (if st = MCP_OK
       then \<exists>due. unat due = min (unat now + unat delay_ms * 1000000) (2 ^ 64 - 1) \<and> steps 1 h h' \<and>
              t = Some (sort_key due_ns (log @ [\<lparr>due_ns = due, fn = f, arg = a\<rparr>]))
       else st = MCP_ERR_NOMEM \<and> script h \<noteq> [] \<and> steps 0 h h' \<and> t = Some (sort_key due_ns log))) h"
    unfolding mcp_timer_schedule_def option.case prod.case wp_bind
    by (rule wp_xmalloc)
       (auto simp: now link_entry_sort_key deadline_def [symmetric] deadline_min intro!: exI [of _ "deadline now delay_ms"])
  let ?hit = "\<lambda>e. fn e = f \<and> arg e = a"
  have "length (filter ?hit (sort_key due_ns log)) = length (filter ?hit log)"
    by (rule mset_eq_length) simp
  then show "run_state (mcp_timer_cancel (Some (sort_key due_ns log)) (Some f) a) h =
      (let hit = ?hit; n = length (filter hit log)
       in ((n, Some (sort_key due_ns (filter (\<lambda>e. \<not> hit e) log))), h\<lparr>live := live h - int n\<rparr>))"
    using run_unlink [of f a "sort_key due_ns log" h]
    by (simp add: mcp_timer_cancel_def Let_def filter_sort)
qed

theorem mcp_timer_schedule_stable_witness:
  "wp (mcp_timer_schedule (ret 5) (Some (sort_key due_ns [])) 3 (Some True) False) (\<lambda>(st, t) h'.
      st = MCP_OK \<and> t = Some [\<lparr>due_ns = 3000005, fn = True, arg = False\<rparr>]) \<lparr>live = 0, script = []\<rparr>"
proof -
  have "\<forall>h :: heap. run_state (ret 5) h = (5 :: 64 word, h)" by simp
  from mcp_timer_schedule_stable [OF this, of "[]" 3 True False "\<lparr>live = 0, script = []\<rparr>"]
  have post: "wp (mcp_timer_schedule (ret 5) (Some (sort_key due_ns [])) 3 (Some True) False) (\<lambda>(st, t) h'.
      (if st = MCP_OK
       then \<exists>due. unat due = min (unat (5 :: 64 word) + unat (3 :: 64 word) * 1000000) (2 ^ 64 - 1) \<and>
              steps 1 \<lparr>live = 0, script = []\<rparr> h' \<and> t = Some (sort_key due_ns ([] @ [\<lparr>due_ns = due, fn = True, arg = False\<rparr>]))
       else st = MCP_ERR_NOMEM \<and> script \<lparr>live = 0, script = []\<rparr> \<noteq> [] \<and> steps 0 \<lparr>live = 0, script = []\<rparr> h' \<and>
              t = Some (sort_key due_ns []))) \<lparr>live = 0, script = []\<rparr>" by (rule conjunct1)
  have "due = 3000005" if "unat due = 3000005" for due :: "64 word"
    using that by (simp add: word_unat_eq_iff)
  with post show ?thesis by (intro wp_mono [OF post]) (auto split: if_splits)
qed

section \<open>Polling\<close>

text \<open>The entries due at \<open>T\<close>.\<close>

definition due_by :: "64 word \<Rightarrow> ('f, 'a) timer \<Rightarrow> nat" where
  "due_by T t = length (filter (\<lambda>e. due_ns e \<le> T) t)"

lemma poll_loop_Nil: "poll_loop now_ns call [] fired h = Some ((fired, []), h)"
  by (subst poll_loop.simps) simp

lemma poll_loop_wait:
  "run_state now_ns h = (now, h1) \<Longrightarrow> now < due_ns e \<Longrightarrow>
   poll_loop now_ns call (e # es) fired h = Some ((fired, e # es), h1)"
  by (subst poll_loop.simps) simp

lemma poll_loop_fire:
  assumes "run_state now_ns h = (now, h1)" and "\<not> now < due_ns e"
    and "run_state (do { t' \<leftarrow> call (fn e) (arg e) es; xfree True; ret t' }) h1 = (t', h2)"
  shows "poll_loop now_ns call (e # es) fired h = poll_loop now_ns call t' (fired + 1) h2"
  unfolding poll_loop.simps [of now_ns call "e # es"] list.case assms(1,3) prod.case if_not_P [OF assms(2)] ..

lemma poll_loop_returns:
  assumes clock: "\<forall>h. wp now_ns (\<lambda>now _. T0 \<le> now \<and> now \<le> T) h"
    and call: "\<forall>f a es h. by_deadline es \<longrightarrow> wp (call f a es) (\<lambda>es' _. by_deadline es' \<and> due_by T es' \<le> due_by T es) h"
    and "by_deadline t"
  shows "\<exists>n t' h'. poll_loop now_ns call t fired h = Some ((n, t'), h') \<and> by_deadline t' \<and> (\<forall>e \<in> set t'. T0 < due_ns e)"
  using \<open>by_deadline t\<close>
proof (induction "due_by T t" arbitrary: t fired h rule: less_induct)
  case less
  show ?case
  proof (cases t)
    case (Cons e es)
    obtain now h1 where now: "run_state now_ns h = (now, h1)" by fastforce
    have range: "T0 \<le> now" "now \<le> T" using clock [THEN spec, of h] now by (simp_all add: wp_def)
    show ?thesis
    proof (cases "now < due_ns e")
      case True
      then show ?thesis using less.prems range now
        by (auto simp: poll_loop_wait [OF now True] Cons by_deadline_Cons)
    next
      case False
      obtain t' h2 where t': "run_state (do { t' \<leftarrow> call (fn e) (arg e) es; xfree True; ret t' }) h1 = (t', h2)"
        by fastforce
      have es: "by_deadline es" using less.prems by (simp add: Cons by_deadline_Cons)
      have "by_deadline t' \<and> due_by T t' \<le> due_by T es"
      proof -
        have "wp (do { t' \<leftarrow> call (fn e) (arg e) es; xfree True; ret t' })
            (\<lambda>es' _. by_deadline es' \<and> due_by T es' \<le> due_by T es) h1"
          unfolding wp_bind by (rule wp_mono [OF call [rule_format, OF es]]) simp
        then show ?thesis unfolding wp_def t' by simp
      qed
      moreover have "due_by T t = Suc (due_by T es)" using False range by (simp add: Cons due_by_def)
      ultimately show ?thesis
        using less.hyps [of t' "fired + 1" h2] poll_loop_fire [where call = call, OF now False t', of fired] by (simp add: Cons)
    qed
  qed (simp add: poll_loop_Nil by_deadline_def)
qed

text \<open>
  C29: a poll always returns, and when it does every callback that was due is gone from the
  list, provided that the callbacks keep the list in order and do not schedule anything that
  is due while the poll runs. The clock may advance during the poll: \<open>T0\<close> and \<open>T\<close> bound its readings.
\<close>

theorem mcp_timer_poll_live:
  assumes "\<forall>h. wp now_ns (\<lambda>now _. T0 \<le> now \<and> now \<le> T) h"
    and "\<forall>f a es h. by_deadline es \<longrightarrow> wp (call f a es) (\<lambda>es' _. by_deadline es' \<and> due_by T es' \<le> due_by T es) h"
    and "by_deadline t"
  shows "\<exists>fired t' h'. mcp_timer_poll now_ns call (Some t) h = Some ((MCP_OK, fired, Some t'), h') \<and>
    by_deadline t' \<and> (\<forall>e \<in> set t'. T0 < due_ns e)"
  using poll_loop_returns [where fired = 0 and h = h, OF assms] by (auto simp: mcp_timer_poll_def)

text \<open>A callback that schedules itself again with the given delay.\<close>

definition again :: "64 word \<Rightarrow> 64 word \<Rightarrow> bool \<Rightarrow> nat \<Rightarrow> (bool, nat) timer \<Rightarrow> (heap, (bool, nat) timer) state" where
  "again now delay f a es = do {
     r \<leftarrow> mcp_timer_schedule (ret now) (Some es) delay (Some f) a;
     ret (case snd r of None \<Rightarrow> es | Some es' \<Rightarrow> es')
   }"

lemma wp_again:
  "Q es (h\<lparr>script := tl (script h)\<rparr>) \<Longrightarrow>
   (\<And>h'. Q (link_entry \<lparr>due_ns = deadline now delay, fn = f, arg = a\<rparr> es) h') \<Longrightarrow> wp (again now delay f a es) Q h"
  unfolding again_def mcp_timer_schedule_def option.case prod.case wp_bind
  by (auto simp: xmalloc_def wp_next_outcome wp_add_live deadline_def split: list.splits)

theorem mcp_timer_poll_live_witness:
  "\<exists>fired t' h'. mcp_timer_poll (ret 7) (again 7 10) (Some [\<lparr>due_ns = 6, fn = True, arg = 1\<rparr>]) \<lparr>live = 1, script = []\<rparr> =
     Some ((MCP_OK, fired, Some t'), h') \<and> by_deadline t' \<and> (\<forall>e \<in> set t'. 7 < due_ns e)"
proof -
  have late: "\<not> deadline 7 10 \<le> 7" by (simp add: word_le_nat_alt deadline_min)
  have "due_by 7 (link_entry e es) = due_by 7 es" if "\<not> due_ns e \<le> 7" for e :: "(bool, nat) entry" and es
    using that by (induction es) (auto simp: due_by_def)
  then have call: "\<forall>f a es h. by_deadline es \<longrightarrow>
      wp (again 7 10 f a es) (\<lambda>es' _. by_deadline es' \<and> due_by 7 es' \<le> due_by 7 es) h"
    using late by (intro allI impI wp_again) (auto simp: by_deadline_link)
  have clock: "\<forall>h :: heap. wp (ret 7) (\<lambda>now _. 7 \<le> now \<and> now \<le> (7 :: 64 word)) h" by simp
  have t: "by_deadline [\<lparr>due_ns = 6, fn = True, arg = 1 :: nat\<rparr>]" by (simp add: by_deadline_def)
  show ?thesis by (rule mcp_timer_poll_live [OF clock call t])
qed

lemma run_again_zero:
  assumes "script h = []"
  shows "run_state (do { t \<leftarrow> again now 0 f a []; xfree True; ret t }) h = ([\<lparr>due_ns = now, fn = f, arg = a\<rparr>], h)"
proof (rule run_state_wpI)
  have "deadline now 0 = now"
    using unsigned_less [of now, where ?'a = nat] by (simp add: word_unat_eq_iff deadline_min)
  then show "wp (do { t \<leftarrow> again now 0 f a []; xfree True; ret t }) Q h = Q [\<lparr>due_ns = now, fn = f, arg = a\<rparr>] h" for Q
    using assms by (simp add: again_def mcp_timer_schedule_def deadline_def)
qed

lemma poll_loop_zero_delay:
  assumes "poll_loop (ret now) (again now 0) [e] fired h = Some r" and "due_ns e \<le> now" and "script h = []"
  shows False
proof -
  have "\<forall>e. now_ns = ret now \<longrightarrow> call = again now 0 \<longrightarrow> t = [e] \<longrightarrow> due_ns e \<le> now \<longrightarrow> script h = [] \<longrightarrow> False"
    if "poll_loop now_ns call t fired h = Some r" for now_ns call t fired h r
    using that
  proof (rule poll_loop.raw_induct [rotated, where P = "\<lambda>now_ns call t fired h r. \<forall>e. now_ns = ret now \<longrightarrow>
      call = again now 0 \<longrightarrow> t = [e] \<longrightarrow> due_ns e \<le> now \<longrightarrow> script h = [] \<longrightarrow> False"], goal_cases)
    case (1 loop now_ns call t fired h r)
    show ?case
    proof (intro allI impI)
      fix e
      assume *: "now_ns = ret now" "call = again now 0" "t = [e]" "due_ns e \<le> now" "script h = []"
      have early: "\<not> now < due_ns e" and clock: "run_state (ret now) h = (now, h)" using * by simp_all
      have "loop now_ns call [\<lparr>due_ns = now, fn = fn e, arg = arg e\<rparr>] (fired + 1) h = Some r"
        using 1(2) unfolding *(1-3) list.case clock prod.case if_not_P [OF early] run_again_zero [OF *(5)] .
      from 1(1) [OF this] * show False by auto
    qed
  qed
  with assms show False by blast
qed

text \<open>
  C39: a callback that schedules itself again with delay 0 keeps a poll from ever returning.
  Such an entry is due at once, and the loop takes it up in the same poll, although
  a delay of 0 is documented to fire on the next poll.
\<close>

theorem zero_delay_poll_diverges:
  assumes "due_ns e \<le> now"
  shows "mcp_timer_poll (ret now) (again now 0) (Some [e]) \<lparr>live = n, script = []\<rparr> = None"
  using poll_loop_zero_delay [of now e 0 "\<lparr>live = n, script = []\<rparr>"] assms
  by (cases "poll_loop (ret now) (again now 0) [e] 0 \<lparr>live = n, script = []\<rparr>") (auto simp: mcp_timer_poll_def)

theorem zero_delay_poll_diverges_witness:
  "mcp_timer_poll (ret 7) (again 7 0) (Some [\<lparr>due_ns = 6, fn = True, arg = 1\<rparr>]) \<lparr>live = 2, script = []\<rparr> = None"
  using zero_delay_poll_diverges [of "\<lparr>due_ns = 6, fn = True, arg = 1\<rparr>" 7 2] by simp

end
