(* ===== verification/Uri_Template.thy ===== *)
theory Uri_Template
  imports Json_Build
begin

text \<open>
  URI templates (\<open>src/src/protocol/uri_template.c\<close>): parsing of an expression, the backtracking matcher,
  percent coding, and expansion. Pointers into the pattern and the URI are the rest of the
  text from there on; the end of the list is the terminating NUL.
\<close>

section \<open>Characters\<close>

definition MAX_RAW_CAPTURES :: nat where
  "MAX_RAW_CAPTURES = 64"

definition is_unreserved :: "char \<Rightarrow> bool" where
  "is_unreserved c \<longleftrightarrow> (97 \<le> code c \<and> code c \<le> 122) \<or> (65 \<le> code c \<and> code c \<le> 90) \<or>
     (48 \<le> code c \<and> code c \<le> 57) \<or> c \<in> set ''-._~''"

definition is_reserved_char :: "char \<Rightarrow> bool" where
  "is_reserved_char c \<longleftrightarrow> c \<in> set '':/?#[]@!$&'' \<or> c = CHR 0x27 \<or> c \<in> set ''()*+,;=''"

definition hex_digit :: "char \<Rightarrow> nat option" where
  "hex_digit c =
     (if 48 \<le> code c \<and> code c \<le> 57 then Some (code c - 48)
      else if 97 \<le> code c \<and> code c \<le> 102 then Some (code c - 97 + 10)
      else if 65 \<le> code c \<and> code c \<le> 70 then Some (code c - 65 + 10)
      else None)"

fun decoded :: "string \<Rightarrow> string" where
  "decoded [] = []"
| "decoded (c # cs) =
     (case cs of
        x # y # rest \<Rightarrow>
          (case (hex_digit x, hex_digit y) of
             (Some h1, Some h2) \<Rightarrow> if c = CHR ''%'' then char_of (16 * h1 + h2) # decoded rest else c # decoded cs
           | _ \<Rightarrow> c # decoded cs)
      | _ \<Rightarrow> c # decoded cs)"

definition url_decode :: "string \<Rightarrow> ('z heap_scheme, string option) state" where
  "url_decode src = do { ok \<leftarrow> xmalloc; ret (if ok then Some (decoded src) else None) }"

section \<open>Expressions\<close>

datatype uri_modifier = MCP_URI_MOD_NONE | MCP_URI_MOD_PREFIX | MCP_URI_MOD_EXPLODE

record raw_capture =
  cap_name :: string
  cap_val :: string
  cap_reserved :: bool
  cap_op :: "char option"
  cap_mod :: uri_modifier

record var_expr =
  ve_op :: "char option"
  ve_name :: string
  ve_reserved :: bool
  ve_prefix :: string
  ve_query :: bool
  ve_mod :: uri_modifier
  ve_prefix_len :: nat

definition operators :: string where
  "operators = ''+#/.?''"

fun parse_length :: "nat \<Rightarrow> string \<Rightarrow> nat option" where
  "parse_length n [] = Some n"
| "parse_length n (c # cs) =
     (if code c < 48 \<or> 57 < code c then None
      else let n = n * 10 + (code c - 48) in if 999999 < n then None else parse_length n cs)"

text \<open>The modifier of the part after the operator, with the name and the prefix length.\<close>

definition parse_modifier :: "string \<Rightarrow> (uri_modifier \<times> string \<times> nat) option" where
  "parse_modifier body =
     (if last body = CHR ''*'' then
        if CHR '':'' \<in> set body then None
        else if butlast body = [] then None
        else Some (MCP_URI_MOD_EXPLODE, butlast body, 0)
      else if CHR '':'' \<in> set body then
        let name = takeWhile (\<lambda>c. c \<noteq> CHR '':'') body; num = tl (dropWhile (\<lambda>c. c \<noteq> CHR '':'') body) in
        if name = [] then None
        else if num = [] then None
        else (case parse_length 0 num of
          None \<Rightarrow> None
        | Some n \<Rightarrow> if n = 0 then None else Some (MCP_URI_MOD_PREFIX, name, n))
      else Some (MCP_URI_MOD_NONE, body, 0))"

definition parse_var_expr :: "string \<Rightarrow> var_expr option" where
  "parse_var_expr e =
     (case e of
        [] \<Rightarrow> None
      | first # rest \<Rightarrow>
          let is_op = first \<in> set operators; body = (if is_op then rest else e) in
          if body = [] then None
          else (case parse_modifier body of
            None \<Rightarrow> None
          | Some (md, name, n) \<Rightarrow>
              Some \<lparr>ve_op = (if is_op then Some first else None), ve_name = name,
                ve_reserved = (is_op \<and> (first = CHR ''+'' \<or> first = CHR ''#'')),
                ve_prefix = (if is_op \<and> first \<noteq> CHR ''+'' then [first] else []),
                ve_query = (is_op \<and> first = CHR ''?''), ve_mod = md, ve_prefix_len = n\<rparr>))"

text \<open>\<open>strchr(p, '}')\<close>: the text before the brace and after it.\<close>

fun split_brace :: "string \<Rightarrow> (string \<times> string) option" where
  "split_brace [] = None"
| "split_brace (c # cs) = (if c = CHR ''}'' then Some ([], cs) else map_option (apfst (Cons c)) (split_brace cs))"

lemma split_brace_SomeD: "split_brace p = Some (e, r) \<Longrightarrow> p = e @ CHR ''}'' # r \<and> CHR ''}'' \<notin> set e"
  by (induction p arbitrary: e) (auto split: if_splits)

section \<open>Matching\<close>

text \<open>The part of the URI that an operator asks for is skipped.\<close>

definition skip_operator :: "var_expr \<Rightarrow> string \<Rightarrow> string option" where
  "skip_operator expr u =
     (case ve_op expr of
        None \<Rightarrow> Some u
      | Some c \<Rightarrow>
          if c = CHR ''+'' then Some u
          else (case u of
            [] \<Rightarrow> None
          | d # u_val \<Rightarrow>
              if d \<noteq> c then None
              else if c = CHR ''?'' then
                let n = length (ve_name expr) in
                if take n u_val = ve_name expr \<and> take 1 (drop n u_val) = ''='' then Some (drop (n + 1) u_val) else None
              else Some u_val))"

definition capture :: "var_expr \<Rightarrow> string \<Rightarrow> raw_capture" where
  "capture expr v = \<lparr>cap_name = ve_name expr, cap_val = v, cap_reserved = ve_reserved expr, cap_op = ve_op expr, cap_mod = ve_mod expr\<rparr>"

definition match_last :: "var_expr \<Rightarrow> string \<Rightarrow> raw_capture list \<Rightarrow> raw_capture list option" where
  "match_last expr u_val caps =
     (if \<not> ve_reserved expr \<and> ve_mod expr \<noteq> MCP_URI_MOD_EXPLODE \<and> CHR ''/'' \<in> set u_val then None
      else if ve_op expr = Some (CHR ''?'') \<and> ve_mod expr \<noteq> MCP_URI_MOD_EXPLODE \<and> CHR ''&'' \<in> set u_val then None
      else if ve_mod expr = MCP_URI_MOD_PREFIX \<and> ve_prefix_len expr < length u_val then None
      else if length caps < MAX_RAW_CAPTURES then Some (caps @ [capture expr u_val])
      else None)"

text \<open>The tests that end the loop over the lengths, at the length \<open>len\<close>.\<close>

definition stops_at :: "var_expr \<Rightarrow> string \<Rightarrow> nat \<Rightarrow> bool" where
  "stops_at expr u_val len \<longleftrightarrow>
     (\<not> ve_reserved expr \<and> ve_mod expr \<noteq> MCP_URI_MOD_EXPLODE \<and> 0 < len \<and> u_val ! (len - 1) = CHR ''/'') \<or>
     (ve_op expr = Some (CHR ''?'') \<and> ve_mod expr \<noteq> MCP_URI_MOD_EXPLODE \<and> 0 < len \<and>
        (u_val ! (len - 1) = CHR ''&'' \<or> u_val ! (len - 1) = CHR ''#''))"

definition max_length :: "var_expr \<Rightarrow> string \<Rightarrow> nat" where
  "max_length expr u_val =
     (if ve_mod expr = MCP_URI_MOD_PREFIX \<and> ve_prefix_len expr < length u_val then ve_prefix_len expr else length u_val)"

function match_step :: "string \<Rightarrow> string \<Rightarrow> raw_capture list \<Rightarrow> raw_capture list option"
and match_lengths :: "var_expr \<Rightarrow> string \<Rightarrow> string \<Rightarrow> nat \<Rightarrow> raw_capture list \<Rightarrow> raw_capture list option" where
  "match_step p u caps =
     (case p of
        [] \<Rightarrow> if u = [] then Some caps else None
      | c # p' \<Rightarrow>
          if c \<noteq> CHR ''{'' then
            (case u of [] \<Rightarrow> None | d # u' \<Rightarrow> if c \<noteq> d then None else match_step p' u' caps)
          else (case split_brace p' of
            None \<Rightarrow> None
          | Some (e, next_p) \<Rightarrow>
              (case parse_var_expr e of
                 None \<Rightarrow> None
               | Some expr \<Rightarrow>
                   (case skip_operator expr u of
                      None \<Rightarrow> None
                    | Some u_val \<Rightarrow>
                        if next_p = [] then match_last expr u_val caps
                        else match_lengths expr next_p u_val 0 caps))))"
| "match_lengths expr next_p u_val len caps =
     (if max_length expr u_val < len then None
      else if stops_at expr u_val len then None
      else if length caps < MAX_RAW_CAPTURES then
        (case match_step next_p (drop len u_val) (caps @ [capture expr (take len u_val)]) of
           Some r \<Rightarrow> Some r
         | None \<Rightarrow> match_lengths expr next_p u_val (len + 1) caps)
      else match_lengths expr next_p u_val (len + 1) caps)"
  by pat_completeness auto
termination
  by (relation "measures [\<lambda>x. case x of Inl (p, u, caps) \<Rightarrow> length p | Inr (expr, p, u, len, caps) \<Rightarrow> length p,
      \<lambda>x. case x of Inl (p, u, caps) \<Rightarrow> 0 | Inr (expr, p, u, len, caps) \<Rightarrow> max_length expr u + 2 - len]")
     (auto dest: split_brace_SomeD)

declare match_step.simps [simp del] match_lengths.simps [simp del]

text \<open>The check of the whole pattern that comes first.\<close>

function template_valid :: "string \<Rightarrow> bool" where
  "template_valid p =
     (case p of
        [] \<Rightarrow> True
      | c # p' \<Rightarrow>
          if c = CHR ''{'' then
            (case split_brace p' of
               None \<Rightarrow> False
             | Some (e, rest) \<Rightarrow> if e = [] then False else if parse_var_expr e = None then False else template_valid rest)
          else if c = CHR ''}'' then False
          else template_valid p')"
  by pat_completeness auto
termination
  by (relation "measure length") (auto dest: split_brace_SomeD)

declare template_valid.simps [simp del]

fun split_on :: "char \<Rightarrow> string \<Rightarrow> string list" where
  "split_on d [] = [[]]"
| "split_on d (c # cs) = (if c = d then [] # split_on d cs else (c # hd (split_on d cs)) # tl (split_on d cs))"

definition explode_delim :: "char option \<Rightarrow> char" where
  "explode_delim op =
     (if op = Some (CHR ''/'') then CHR ''/'' else if op = Some (CHR ''?'') then CHR ''&''
      else if op = Some (CHR ''.'') then CHR ''.'' else CHR '','')"

text \<open>In a query, the items after the first repeat the name.\<close>

definition token_value :: "char option \<Rightarrow> string \<Rightarrow> bool \<Rightarrow> string \<Rightarrow> string" where
  "token_value op name first tok =
     (if op = Some (CHR ''?'') \<and> \<not> first \<and> length name + 1 \<le> length tok \<and> take (length name) tok = name \<and>
         tok ! length name = CHR ''=''
      then drop (length name + 1) tok else tok)"

text \<open>A decoded piece of the URI as a JSON string.\<close>

definition decoded_string :: "string \<Rightarrow> ('z heap_scheme, json option) state" where
  "decoded_string src = do {
     d \<leftarrow> url_decode src;
     (case d of
        None \<Rightarrow> ret None
      | Some t \<Rightarrow> do { v \<leftarrow> mcp_json_string_new (Some t); xfree True; ret v })
   }"

fun append_tokens ::
  "char option \<Rightarrow> string \<Rightarrow> bool \<Rightarrow> string list \<Rightarrow> json \<Rightarrow> json \<Rightarrow> ('z heap_scheme, json option) state" where
  "append_tokens op name first [] obj arr = ret (Some arr)"
| "append_tokens op name first (tok # toks) obj arr = do {
     item_v \<leftarrow> decoded_string (token_value op name first tok);
     (case item_v of
        None \<Rightarrow> do { mcp_json_destroy (Some arr); mcp_json_destroy (Some obj); ret None }
      | Some _ \<Rightarrow> do {
          r \<leftarrow> mcp_json_array_append (Some arr) item_v;
          (if fst r \<noteq> MCP_OK
           then do { mcp_json_destroy item_v; mcp_json_destroy (snd r); mcp_json_destroy (Some obj); ret None }
           else append_tokens op name False toks obj (the (snd r)))
        })
   }"

definition set_variable :: "json \<Rightarrow> string \<Rightarrow> json \<Rightarrow> ('z heap_scheme, json option) state" where
  "set_variable obj name v = do {
     r \<leftarrow> mcp_json_object_set_take (Some obj) (Some name) (Some v);
     (if fst r \<noteq> MCP_OK then do { mcp_json_destroy (Some v); mcp_json_destroy (snd r); ret None } else ret (snd r))
   }"

definition add_capture :: "json \<Rightarrow> raw_capture \<Rightarrow> ('z heap_scheme, json option) state" where
  "add_capture obj c =
     (let name = take 127 (cap_name c) in
      if cap_mod c = MCP_URI_MOD_EXPLODE then do {
        arr \<leftarrow> mcp_json_array_new;
        (case arr of
           None \<Rightarrow> do { mcp_json_destroy (Some obj); ret None }
         | Some a \<Rightarrow> do {
             filled \<leftarrow> append_tokens (cap_op c) name True (split_on (explode_delim (cap_op c)) (cap_val c)) obj a;
             (case filled of None \<Rightarrow> ret None | Some a' \<Rightarrow> set_variable obj name a')
           })
      }
      else do {
        v \<leftarrow> decoded_string (cap_val c);
        (case v of
           None \<Rightarrow> do { mcp_json_destroy (Some obj); ret None }
         | Some v' \<Rightarrow> set_variable obj name v')
      })"

fun add_captures :: "json \<Rightarrow> raw_capture list \<Rightarrow> ('z heap_scheme, json option) state" where
  "add_captures obj [] = ret (Some obj)"
| "add_captures obj (c # cs) = do {
     r \<leftarrow> add_capture obj c;
     (case r of None \<Rightarrow> ret None | Some obj' \<Rightarrow> add_captures obj' cs)
   }"

text \<open>\<open>want\<close>: the caller passed a place for the variables.\<close>

definition mcp_uri_template_match ::
  "string option \<Rightarrow> string option \<Rightarrow> bool \<Rightarrow> ('z heap_scheme, mcp_status \<times> json option) state" where
  "mcp_uri_template_match pattern uri want =
     (case (pattern, uri) of
        (Some p, Some u) \<Rightarrow>
          if \<not> template_valid p then ret (MCP_ERR_INVALID_ARGUMENT, None)
          else (case match_step p u [] of
            None \<Rightarrow> ret (MCP_ERR_NOT_FOUND, None)
          | Some caps \<Rightarrow>
              if \<not> want then ret (MCP_OK, None)
              else do {
                obj \<leftarrow> mcp_json_object_new;
                (case obj of
                   None \<Rightarrow> ret (MCP_ERR_NOMEM, None)
                 | Some ob \<Rightarrow> do {
                     r \<leftarrow> add_captures ob caps;
                     ret (if r = None then (MCP_ERR_NOMEM, None) else (MCP_OK, r))
                   })
              })
      | _ \<Rightarrow> ret (MCP_ERR_INVALID_ARGUMENT, None))"

section \<open>Expansion\<close>

record uri_buf =
  ub_text :: string
  ub_cap :: nat

text \<open>The loop that doubles the capacity until \<open>need\<close> is below it. The fuel \<open>need + 1\<close> that
  \<open>append_raw_str\<close> gives is enough for any capacity but 0, and the buffer starts with 256.\<close>

fun grow_until :: "nat \<Rightarrow> nat \<Rightarrow> nat \<Rightarrow> ('z heap_scheme, nat option) state" where
  "grow_until fuel need cap =
     (if need < cap then ret (Some cap)
      else (case fuel of
        0 \<Rightarrow> ret None
      | Suc f \<Rightarrow> do { ok \<leftarrow> xrealloc True; (if \<not> ok then ret None else grow_until f need (cap * 2)) }))"

definition append_raw_str :: "uri_buf \<Rightarrow> string \<Rightarrow> ('z heap_scheme, mcp_status \<times> uri_buf) state" where
  "append_raw_str b raw =
     (let need = length (ub_text b) + length raw in do {
        g \<leftarrow> grow_until (need + 1) need (ub_cap b);
        (case g of
           None \<Rightarrow> ret (MCP_ERR_NOMEM, b)
         | Some cap \<Rightarrow> ret (MCP_OK, \<lparr>ub_text = ub_text b @ raw, ub_cap = cap\<rparr>))
      })"

definition hex_char :: "nat \<Rightarrow> char" where
  "hex_char n = ''0123456789ABCDEF'' ! n"

definition coded_char :: "bool \<Rightarrow> char \<Rightarrow> string" where
  "coded_char is_reserved c =
     (if is_unreserved c \<or> (is_reserved \<and> is_reserved_char c) then [c]
      else [CHR ''%'', hex_char (code c div 16), hex_char (code c mod 16)])"

text \<open>Room for the \<open>k\<close> bytes of the next character and the terminator.\<close>

definition grow_for :: "nat \<Rightarrow> uri_buf \<Rightarrow> ('z heap_scheme, nat option) state" where
  "grow_for k b =
     (if ub_cap b \<le> length (ub_text b) + k then do {
        ok \<leftarrow> xrealloc True;
        ret (if ok then Some (if k = 1 then ub_cap b * 2 else ub_cap b * 2 + 16) else None)
      }
      else ret (Some (ub_cap b)))"

text \<open>The loop of \<open>append_encoded_str\<close>: \<open>n\<close> characters were taken so far; a byte whose two top bits are
  10 continues a character.\<close>

fun encode_loop ::
  "bool \<Rightarrow> uri_modifier \<Rightarrow> nat \<Rightarrow> nat \<Rightarrow> string \<Rightarrow> uri_buf \<Rightarrow> ('z heap_scheme, uri_buf option) state" where
  "encode_loop is_reserved md prefix_len n [] b = ret (Some b)"
| "encode_loop is_reserved md prefix_len n (c # cs) b =
     (let starts = (code c div 64 \<noteq> 2) in
      if starts \<and> md = MCP_URI_MOD_PREFIX \<and> prefix_len \<le> n then ret (Some b)
      else let t = coded_char is_reserved c in do {
        g \<leftarrow> grow_for (length t) b;
        (case g of
           None \<Rightarrow> ret None
         | Some cap \<Rightarrow>
             encode_loop is_reserved md prefix_len (if starts then n + 1 else n) cs \<lparr>ub_text = ub_text b @ t, ub_cap = cap\<rparr>)
      })"

definition append_encoded_str ::
  "uri_buf \<Rightarrow> string \<Rightarrow> bool \<Rightarrow> uri_modifier \<Rightarrow> nat \<Rightarrow> ('z heap_scheme, mcp_status \<times> uri_buf) state" where
  "append_encoded_str b str is_reserved md prefix_len = do {
     r \<leftarrow> encode_loop is_reserved md prefix_len 0 str b;
     ret (case r of None \<Rightarrow> (MCP_ERR_NOMEM, b) | Some b' \<Rightarrow> (MCP_OK, b'))
   }"

text \<open>The text of a string or of a number, as \<open>%g\<close> prints it.\<close>

definition scalar_text :: "json option \<Rightarrow> string option" where
  "scalar_text v =
     (case mcp_json_string_value v of
        Some s \<Rightarrow> Some (cstr s)
      | None \<Rightarrow> if mcp_json_type v = MCP_JSON_NUMBER then map_option (fmt_g 6) (mcp_json_number_value v) else None)"

definition item_text :: "json \<Rightarrow> string" where
  "item_text v = (case scalar_text (Some v) of None \<Rightarrow> [] | Some s \<Rightarrow> s)"

text \<open>What is appended for an expression, in order: text as it is, and text to be percent-coded.\<close>

datatype piece = Raw string | Enc string

definition exploded_item :: "var_expr \<Rightarrow> string \<Rightarrow> nat \<Rightarrow> json \<Rightarrow> piece list" where
  "exploded_item expr name i item =
     (if ve_op expr = Some (CHR ''?'') then [Raw (if i = 0 then ''?'' else ''&''), Raw name, Raw ''='', Enc (item_text item)]
      else if ve_op expr = Some (CHR ''/'') then [Raw ''/'', Enc (item_text item)]
      else if ve_op expr = Some (CHR ''.'') then [Raw ''.'', Enc (item_text item)]
      else (if i = 0 \<and> ve_op expr = Some (CHR ''#'') then [Raw ''#''] else []) @ (if 0 < i then [Raw '','' ] else []) @
        [Enc (item_text item)])"

definition lead_pieces :: "var_expr \<Rightarrow> string \<Rightarrow> piece list" where
  "lead_pieces expr name =
     (if ve_prefix expr \<noteq> [] then [Raw (ve_prefix expr)] else []) @ (if ve_query expr then [Raw name, Raw ''=''] else [])"

definition value_pieces :: "var_expr \<Rightarrow> string \<Rightarrow> json \<Rightarrow> piece list" where
  "value_pieces expr name v =
     (case v of
        JArray items cap \<Rightarrow>
          if items = [] then []
          else if ve_mod expr = MCP_URI_MOD_EXPLODE
          then concat (map (\<lambda>(i, item). exploded_item expr name i item) (enumerate 0 items))
          else lead_pieces expr name @
            concat (map (\<lambda>(i, item). (if 0 < i then [Raw '',''] else []) @ [Enc (item_text item)]) (enumerate 0 items))
      | _ \<Rightarrow> (case scalar_text (Some v) of None \<Rightarrow> [] | Some s \<Rightarrow> lead_pieces expr name @ [Enc s]))"

fun append_pieces :: "var_expr \<Rightarrow> piece list \<Rightarrow> uri_buf \<Rightarrow> ('z heap_scheme, mcp_status \<times> uri_buf) state" where
  "append_pieces expr [] b = ret (MCP_OK, b)"
| "append_pieces expr (x # xs) b = do {
     r \<leftarrow> (case x of
            Raw t \<Rightarrow> append_raw_str b t
          | Enc t \<Rightarrow> append_encoded_str b t (ve_reserved expr) (ve_mod expr) (ve_prefix_len expr));
     (if fst r \<noteq> MCP_OK then ret r else append_pieces expr xs (snd r))
   }"

function expand_loop ::
  "string \<Rightarrow> json option \<Rightarrow> uri_buf \<Rightarrow> ('z heap_scheme, mcp_status \<times> string option) state" where
  "expand_loop p variables b =
     (case p of
        [] \<Rightarrow> ret (MCP_OK, Some (ub_text b))
      | c # p' \<Rightarrow>
          if c \<noteq> CHR ''{'' then do {
            r \<leftarrow> append_raw_str b [c];
            (if fst r \<noteq> MCP_OK then do { xfree True; ret (MCP_ERR_NOMEM, None) }
             else expand_loop p' variables (snd r))
          }
          else (case split_brace p' of
            None \<Rightarrow> do { xfree True; ret (MCP_ERR_INVALID_ARGUMENT, None) }
          | Some (e, rest) \<Rightarrow>
              (case parse_var_expr e of
                 None \<Rightarrow> do { xfree True; ret (MCP_ERR_INVALID_ARGUMENT, None) }
               | Some expr \<Rightarrow>
                   let name = take 127 (ve_name expr) in
                   (case (if variables = None then None else mcp_json_object_get variables name) of
                      None \<Rightarrow> expand_loop rest variables b
                    | Some v \<Rightarrow> do {
                        r \<leftarrow> append_pieces expr (value_pieces expr name v) b;
                        (if fst r \<noteq> MCP_OK then do { xfree True; ret (MCP_ERR_NOMEM, None) }
                         else expand_loop rest variables (snd r))
                      }))))"
  by pat_completeness auto
termination
  by (relation "measure (\<lambda>(p, vs, b). length p)") (auto dest: split_brace_SomeD)

declare expand_loop.simps [simp del]

definition mcp_uri_template_expand ::
  "string option \<Rightarrow> json option \<Rightarrow> ('z heap_scheme, mcp_status \<times> string option) state" where
  "mcp_uri_template_expand pattern variables =
     (case pattern of
        None \<Rightarrow> ret (MCP_ERR_INVALID_ARGUMENT, None)
      | Some p \<Rightarrow> do {
          ok \<leftarrow> xmalloc;
          (if \<not> ok then ret (MCP_ERR_NOMEM, None) else expand_loop p variables \<lparr>ub_text = [], ub_cap = 256\<rparr>)
        })"

definition mcp_uri_template_free_string :: "string option \<Rightarrow> ('z heap_scheme, unit) state" where
  "mcp_uri_template_free_string uri = (if uri = None then ret () else xfree True)"

section \<open>What the matcher accepts\<close>

text \<open>The URIs of a pattern: the literal text, and for each expression the text of its operator
  and a value. \<open>value_ok\<close> says which values an expression takes; \<open>final\<close> that nothing follows it.\<close>

definition operator_text :: "var_expr \<Rightarrow> string" where
  "operator_text expr =
     (case ve_op expr of
        None \<Rightarrow> []
      | Some c \<Rightarrow> if c = CHR ''+'' then [] else if c = CHR ''?'' then ''?'' @ ve_name expr @ ''='' else [c])"

definition value_ok :: "var_expr \<Rightarrow> bool \<Rightarrow> string \<Rightarrow> bool" where
  "value_ok expr final v \<longleftrightarrow>
     (\<not> ve_reserved expr \<and> ve_mod expr \<noteq> MCP_URI_MOD_EXPLODE \<longrightarrow> CHR ''/'' \<notin> set v) \<and>
     (ve_op expr = Some (CHR ''?'') \<and> ve_mod expr \<noteq> MCP_URI_MOD_EXPLODE \<longrightarrow>
        CHR ''&'' \<notin> set v \<and> (final \<or> CHR ''#'' \<notin> set v)) \<and>
     (ve_mod expr = MCP_URI_MOD_PREFIX \<longrightarrow> length v \<le> ve_prefix_len expr)"

inductive instance_of :: "string \<Rightarrow> raw_capture list \<Rightarrow> string \<Rightarrow> bool" where
  nil: "instance_of [] [] []"
| lit: "c \<noteq> CHR ''{'' \<Longrightarrow> instance_of p cs u \<Longrightarrow> instance_of (c # p) cs (c # u)"
| var: "split_brace p = Some (e, q) \<Longrightarrow> parse_var_expr e = Some expr \<Longrightarrow> value_ok expr (q = []) v \<Longrightarrow>
    instance_of q cs u \<Longrightarrow> instance_of (CHR ''{'' # p) (capture expr v # cs) (operator_text expr @ v @ u)"

inductive_cases instance_of_NilE: "instance_of [] cs u"

lemma skip_operator_iff: "skip_operator expr u = Some w \<longleftrightarrow> u = operator_text expr @ w"
proof -
  have "take n x = name \<and> take 1 (drop n x) = ''='' \<and> w = drop (n + 1) x \<longleftrightarrow> x = name @ CHR ''='' # w"
    if "n = length name" for n name x and w :: string
  proof
    assume l: "take n x = name \<and> take 1 (drop n x) = ''='' \<and> w = drop (n + 1) x"
    have "drop (n + 1) x = tl (drop n x)" by (simp add: drop_Suc tl_drop)
    with l have "drop n x = CHR ''='' # w" by (cases "drop n x") auto
    with l show "x = name @ CHR ''='' # w" by (metis append_take_drop_id)
  qed (simp add: that)
  then show ?thesis
    by (auto simp: skip_operator_def operator_text_def Let_def split: option.splits list.splits)
qed

lemma match_last_iff:
  "match_last expr v caps = Some r \<longleftrightarrow>
     value_ok expr True v \<and> length caps < MAX_RAW_CAPTURES \<and> r = caps @ [capture expr v]"
  by (auto simp: match_last_def value_ok_def)

lemma value_ok_stops:
  assumes "len \<le> length u"
  shows "value_ok expr False (take len u) \<longleftrightarrow> len \<le> max_length expr u \<and> (\<forall>k \<le> len. \<not> stops_at expr u k)"
proof -
  have mem: "c \<in> set (take len u) \<longleftrightarrow> (\<exists>k \<le> len. 0 < k \<and> u ! (k - 1) = c)" for c
  proof
    assume "c \<in> set (take len u)"
    then obtain i where "i < len" "u ! i = c" by (auto simp: in_set_conv_nth)
    then show "\<exists>k \<le> len. 0 < k \<and> u ! (k - 1) = c" by (intro exI [of _ "Suc i"]) auto
  next
    assume "\<exists>k \<le> len. 0 < k \<and> u ! (k - 1) = c"
    then obtain k where "k \<le> len" "0 < k" "u ! (k - 1) = c" by blast
    then show "c \<in> set (take len u)" using assms by (auto simp: in_set_conv_nth intro!: exI [of _ "k - 1"])
  qed
  show ?thesis
    using assms unfolding value_ok_def mem stops_at_def max_length_def by (auto simp: min_def)
qed

lemma match_step_eqs:
  "match_step [] u caps = (if u = [] then Some caps else None)"
  "c \<noteq> CHR ''{'' \<Longrightarrow> match_step (c # p) u caps = (case u of [] \<Rightarrow> None | d # u' \<Rightarrow> if c \<noteq> d then None else match_step p u' caps)"
  "match_step (CHR ''{'' # p) u caps = (case split_brace p of None \<Rightarrow> None
     | Some (e, q) \<Rightarrow> (case parse_var_expr e of None \<Rightarrow> None
     | Some expr \<Rightarrow> (case skip_operator expr u of None \<Rightarrow> None
     | Some w \<Rightarrow> if q = [] then match_last expr w caps else match_lengths expr q w 0 caps)))"
  by (simp_all add: match_step.simps)

lemma match_sound:
  "match_step p u caps = Some r \<Longrightarrow> \<exists>cs. r = caps @ cs \<and> instance_of p cs u"
  "match_lengths expr q w len caps = Some r \<Longrightarrow> (\<forall>k < len. \<not> stops_at expr w k) \<Longrightarrow>
     \<exists>l cs. l \<le> length w \<and> r = caps @ capture expr (take l w) # cs \<and> value_ok expr False (take l w) \<and>
       instance_of q cs (drop l w)"
proof (induction p u caps and expr q w len caps arbitrary: r and r rule: match_step_match_lengths.induct)
  case (1 p u caps)
  show ?case
  proof (cases p)
    case Nil
    with 1(3) show ?thesis by (auto simp: match_step_eqs split: if_splits intro: instance_of.nil)
  next
    case (Cons c p')
    show ?thesis
    proof (cases "c = CHR ''{''")
      case False
      with 1(3) Cons obtain u' where u: "u = c # u'" and rec: "match_step p' u' caps = Some r"
        by (auto simp: match_step_eqs split: list.splits if_splits)
      from 1(1) [OF Cons False u _ rec] False Cons u show ?thesis by (auto intro: instance_of.lit)
    next
      case True
      with 1(3) Cons obtain e q expr w where br: "split_brace p' = Some (e, q)" "parse_var_expr e = Some expr"
          "skip_operator expr u = Some w"
        and rec: "(if q = [] then match_last expr w caps else match_lengths expr q w 0 caps) = Some r"
        by (auto simp: match_step_eqs split: option.splits)
      have u: "u = operator_text expr @ w" using br(3) by (simp add: skip_operator_iff)
      show ?thesis
      proof (cases "q = []")
        case True
        with rec have "value_ok expr True w" "r = caps @ [capture expr w]" by (simp_all add: match_last_iff)
        with instance_of.var [OF br(1,2) _ instance_of.nil [folded True]] True u Cons \<open>c = _\<close> show ?thesis
          by (metis append_Nil2)
      next
        case False
        with rec have "match_lengths expr q w 0 caps = Some r" by simp
        from 1(2) [OF Cons _ br(1) _ br(2,3) False this] \<open>c = _\<close> obtain l cs where
          "l \<le> length w" "r = caps @ capture expr (take l w) # cs" "value_ok expr False (take l w)" "instance_of q cs (drop l w)"
          by auto
        with instance_of.var [OF br(1,2), of "take l w" cs "drop l w"] False Cons \<open>c = _\<close> show ?thesis
          by (auto simp: u)
      qed
    qed
  qed
next
  case (2 expr q w len caps)
  then have len: "len \<le> max_length expr w" "\<not> stops_at expr w len"
    by (auto simp: match_lengths.simps [of expr q w len] split: if_splits)
  then have ok: "len \<le> length w" "value_ok expr False (take len w)" "\<forall>k < len + 1. \<not> stops_at expr w k"
    using 2(5) value_ok_stops [of len w expr] by (auto simp: max_length_def less_Suc_eq_le le_less split: if_splits)
  show ?case
  proof (cases "length caps < MAX_RAW_CAPTURES \<and> match_step q (drop len w) (caps @ [capture expr (take len w)]) \<noteq> None")
    case True
    with 2(4) len have "match_step q (drop len w) (caps @ [capture expr (take len w)]) = Some r"
      by (auto simp: match_lengths.simps [of expr q w len] split: if_splits)
    with 2(1) [of r] True len ok show ?thesis by fastforce
  next
    case False
    with 2(4) len have "match_lengths expr q w (len + 1) caps = Some r"
      by (auto simp: match_lengths.simps [of expr q w len] split: if_splits)
    with 2(2,3) [of r] len ok(3) False show ?thesis
      by (cases "length caps < MAX_RAW_CAPTURES") auto
  qed
qed

lemma match_bound:
  "match_step p u caps = Some r \<Longrightarrow> length caps \<le> MAX_RAW_CAPTURES \<Longrightarrow> length r \<le> MAX_RAW_CAPTURES"
  "match_lengths expr q w len caps = Some r \<Longrightarrow> length caps \<le> MAX_RAW_CAPTURES \<Longrightarrow> length r \<le> MAX_RAW_CAPTURES"
proof (induction p u caps and expr q w len caps arbitrary: r and r rule: match_step_match_lengths.induct)
  case (1 p u caps)
  from 1(3) [unfolded match_step.simps [of p]] 1(1,2,4) show ?case
    by (auto simp: match_last_iff split: list.splits if_splits option.splits)
next
  case (2 expr q w len caps)
  from 2(4) [unfolded match_lengths.simps [of expr q w len]] 2(1-3,5) show ?case
    by (auto split: if_splits option.splits)
qed

lemma match_lengths_finds:
  assumes "l \<le> length w" and "value_ok expr False (take l w)" and "length caps < MAX_RAW_CAPTURES"
    and "match_step q (drop l w) (caps @ [capture expr (take l w)]) \<noteq> None" and "len \<le> l"
  shows "match_lengths expr q w len caps \<noteq> None"
  using \<open>len \<le> l\<close>
proof (induction "l - len" arbitrary: len)
  case 0
  then have "len = l" by simp
  with assms value_ok_stops [OF assms(1), of expr] show ?case
    by (auto simp: match_lengths.simps [of expr q w])
next
  case (Suc n)
  then have "match_lengths expr q w (len + 1) caps \<noteq> None" by (intro Suc.hyps(1)) auto
  moreover have "len \<le> max_length expr w" "\<not> stops_at expr w len"
    using value_ok_stops [OF assms(1), of expr] assms(2) Suc.prems by auto
  ultimately show ?case by (auto simp: match_lengths.simps [of expr q w len] split: option.splits)
qed

lemma match_complete:
  "instance_of p cs u \<Longrightarrow> length caps + length cs \<le> MAX_RAW_CAPTURES \<Longrightarrow> match_step p u caps \<noteq> None"
proof (induction arbitrary: caps rule: instance_of.induct)
  case (var p e q expr v cs u)
  have skip: "skip_operator expr (operator_text expr @ v @ u) = Some (v @ u)" by (simp add: skip_operator_iff)
  show ?case
  proof (cases "q = []")
    case True
    with var.hyps(4) have "u = []" by (auto elim: instance_of_NilE)
    with var True skip show ?thesis
      by (auto simp: match_step_eqs match_last_iff [of expr v caps "caps @ [capture expr v]", THEN iffD2])
  next
    case False
    have "match_step q u (caps @ [capture expr v]) \<noteq> None" using var.prems by (intro var.IH) simp
    then have "match_lengths expr q (v @ u) 0 caps \<noteq> None"
      using var.hyps(3) var.prems False by (intro match_lengths_finds [where l = "length v"]) simp_all
    with var.hyps False skip show ?thesis by (simp add: match_step_eqs)
  qed
qed (simp_all add: match_step_eqs)

text \<open>
  C6: the matcher accepts exactly the URIs of the pattern. When no variables are asked for, its
  verdict is INVALID_ARGUMENT for a malformed pattern, OK if the URI is the pattern with its
  expressions replaced by values they allow (at most \<open>MAX_RAW_CAPTURES\<close> of them), and NOT_FOUND
  otherwise: the backtracking search misses none. The captures of a match put back into the
  pattern give the URI.
\<close>
theorem uri_match_iff:
  "fst (run_state (mcp_uri_template_match (Some p) (Some u) False) h) =
     ((if \<not> template_valid p then MCP_ERR_INVALID_ARGUMENT
       else if \<exists>cs. instance_of p cs u \<and> length cs \<le> MAX_RAW_CAPTURES then MCP_OK
       else MCP_ERR_NOT_FOUND), None) \<and>
   (case match_step p u [] of None \<Rightarrow> True | Some cs \<Rightarrow> instance_of p cs u)"
proof -
  have iff: "match_step p u [] \<noteq> None \<longleftrightarrow> (\<exists>cs. instance_of p cs u \<and> length cs \<le> MAX_RAW_CAPTURES)"
  proof
    assume "match_step p u [] \<noteq> None"
    then obtain cs where "match_step p u [] = Some cs" by blast
    with match_sound(1) [of p u "[]" cs] match_bound(1) [of p u "[]" cs]
    show "\<exists>cs. instance_of p cs u \<and> length cs \<le> MAX_RAW_CAPTURES" by auto
  next
    assume "\<exists>cs. instance_of p cs u \<and> length cs \<le> MAX_RAW_CAPTURES"
    then obtain cs where "instance_of p cs u" "length cs \<le> MAX_RAW_CAPTURES" by blast
    then show "match_step p u [] \<noteq> None" by (intro match_complete) simp_all
  qed
  show ?thesis
  proof (cases "match_step p u []")
    case None
    with iff show ?thesis by (auto simp: mcp_uri_template_match_def)
  next
    case (Some cs)
    with iff match_sound(1) [OF Some] show ?thesis by (auto simp: mcp_uri_template_match_def)
  qed
qed

section \<open>What expansion produces\<close>

fun enc_text :: "bool \<Rightarrow> uri_modifier \<Rightarrow> nat \<Rightarrow> nat \<Rightarrow> string \<Rightarrow> string" where
  "enc_text is_reserved md prefix_len n [] = []"
| "enc_text is_reserved md prefix_len n (c # cs) =
     (let starts = (code c div 64 \<noteq> 2) in
      if starts \<and> md = MCP_URI_MOD_PREFIX \<and> prefix_len \<le> n then []
      else coded_char is_reserved c @ enc_text is_reserved md prefix_len (if starts then n + 1 else n) cs)"

definition piece_text :: "var_expr \<Rightarrow> piece \<Rightarrow> string" where
  "piece_text expr x = (case x of Raw t \<Rightarrow> t | Enc t \<Rightarrow> enc_text (ve_reserved expr) (ve_mod expr) (ve_prefix_len expr) 0 t)"

function expand_text :: "string \<Rightarrow> json option \<Rightarrow> string option" where
  "expand_text p variables =
     (case p of
        [] \<Rightarrow> Some []
      | c # p' \<Rightarrow>
          if c \<noteq> CHR ''{'' then map_option (Cons c) (expand_text p' variables)
          else (case split_brace p' of
            None \<Rightarrow> None
          | Some (e, rest) \<Rightarrow>
              (case parse_var_expr e of
                 None \<Rightarrow> None
               | Some expr \<Rightarrow>
                   let name = take 127 (ve_name expr); v = (if variables = None then None else mcp_json_object_get variables name) in
                   map_option (append (case v of None \<Rightarrow> [] | Some v \<Rightarrow> concat (map (piece_text expr) (value_pieces expr name v))))
                     (expand_text rest variables))))"
  by pat_completeness auto
termination
  by (relation "measure (\<lambda>(p, vs). length p)") (auto dest: split_brace_SomeD)

declare expand_text.simps [simp del]

definition buf_ok :: "uri_buf \<Rightarrow> bool" where
  "buf_ok b \<longleftrightarrow> 256 \<le> ub_cap b \<and> length (ub_text b) < ub_cap b"

definition buf_appends :: "string \<Rightarrow> uri_buf \<Rightarrow> 'z heap_scheme \<Rightarrow> mcp_status \<times> uri_buf \<Rightarrow> 'z heap_scheme \<Rightarrow> bool" where
  "buf_appends t b h r h' \<longleftrightarrow> steps 0 h h' \<and> buf_ok (snd r) \<and>
     (if fst r = MCP_OK then ub_text (snd r) = ub_text b @ t else fst r = MCP_ERR_NOMEM \<and> script h \<noteq> [])"

lemma wp_grow_until:
  assumes "0 < cap" and "need < fuel + cap"
    and "\<And>cap' h'. need < cap' \<Longrightarrow> cap \<le> cap' \<Longrightarrow> steps 0 h h' \<Longrightarrow> Q (Some cap') h'"
    and "\<And>h'. script h \<noteq> [] \<Longrightarrow> steps 0 h h' \<Longrightarrow> Q None h'"
  shows "wp (grow_until fuel need cap) Q h"
  using assms
proof (induction fuel arbitrary: cap h)
  case (Suc f)
  show ?case
  proof (cases "need < cap")
    case False
    then have eq: "grow_until (Suc f) need cap = do { ok \<leftarrow> xrealloc True; (if \<not> ok then ret None else grow_until f need (cap * 2)) }"
      by simp
    show ?thesis unfolding eq wp_bind
    proof (rule wp_xrealloc, goal_cases)
      case (1 ok h1)
      show ?case
      proof (cases ok)
        case True
        have "wp (grow_until f need (cap * 2)) Q h1"
          by (rule Suc.IH) (use Suc.prems 1 True in \<open>auto simp: steps_def\<close>)
        with True show ?thesis by simp
      qed (use 1 Suc.prems(4) [of h1] in simp)
    qed
  qed (use Suc.prems(3) [of cap h] in simp)
qed simp

lemma wp_append_raw: "buf_ok b \<Longrightarrow> wp (append_raw_str b raw) (buf_appends raw b h) h"
  unfolding append_raw_str_def Let_def wp_bind
  by (rule wp_grow_until) (auto simp: buf_ok_def buf_appends_def)

lemma length_coded_char: "length (coded_char rsv c) \<in> {1, 3}"
  by (simp add: coded_char_def)

lemma wp_grow_for:
  assumes "buf_ok b" and "k \<in> {1, 3}"
    and "\<And>cap h'. length (ub_text b) + k < cap \<Longrightarrow> 256 \<le> cap \<Longrightarrow> steps 0 h h' \<Longrightarrow> Q (Some cap) h'"
    and "\<And>h'. script h \<noteq> [] \<Longrightarrow> steps 0 h h' \<Longrightarrow> Q None h'"
  shows "wp (grow_for k b) Q h"
proof (cases "ub_cap b \<le> length (ub_text b) + k")
  case True
  show ?thesis unfolding grow_for_def if_P [OF True] wp_bind
  proof (rule wp_xrealloc, goal_cases)
    case (1 ok h1)
    then show ?case
      using assms(1,2) assms(3) [of "if k = 1 then ub_cap b * 2 else ub_cap b * 2 + 16" h1] assms(4) [of h1]
      by (cases ok) (auto simp: buf_ok_def)
  qed
next
  case False
  then show ?thesis using assms(1) assms(3) [of "ub_cap b" h] by (simp add: grow_for_def buf_ok_def)
qed

lemma wp_encode_loop:
  assumes "buf_ok b"
    and "\<And>b' h'. buf_ok b' \<Longrightarrow> ub_text b' = ub_text b @ enc_text rsv md plen n t \<Longrightarrow> steps 0 h h' \<Longrightarrow> Q (Some b') h'"
    and "\<And>h'. script h \<noteq> [] \<Longrightarrow> steps 0 h h' \<Longrightarrow> Q None h'"
  shows "wp (encode_loop rsv md plen n t b) Q h"
  using assms
proof (induction t arbitrary: n b h)
  case (Cons c cs)
  let ?starts = "code c div 64 \<noteq> 2"
  show ?case
  proof (cases "?starts \<and> md = MCP_URI_MOD_PREFIX \<and> plen \<le> n")
    case True
    with Cons.prems(1) Cons.prems(2) [of b h] show ?thesis by simp
  next
    case False
    show ?thesis unfolding encode_loop.simps Let_def if_not_P [OF False] wp_bind
    proof (rule wp_grow_for [OF Cons.prems(1) length_coded_char], goal_cases)
      case (1 cap h1)
      show ?case unfolding option.case
        by (rule Cons.IH)
           (use 1 False Cons.prems(2,3) in \<open>auto simp: buf_ok_def steps_def Let_def if_not_P [OF False]\<close>)
    next
      case (2 h1)
      then show ?case using Cons.prems(3) by simp
    qed
  qed
qed simp

lemma wp_append_encoded:
  "buf_ok b \<Longrightarrow> wp (append_encoded_str b t rsv md plen) (buf_appends (enc_text rsv md plen 0 t) b h) h"
  unfolding append_encoded_str_def wp_bind by (rule wp_encode_loop) (simp_all add: buf_appends_def)

lemma wp_append_pieces:
  "buf_ok b \<Longrightarrow> wp (append_pieces expr xs b) (buf_appends (concat (map (piece_text expr) xs)) b h) h"
proof (induction xs arbitrary: b h)
  case (Cons x xs)
  have "wp (case x of Raw t \<Rightarrow> append_raw_str b t
          | Enc t \<Rightarrow> append_encoded_str b t (ve_reserved expr) (ve_mod expr) (ve_prefix_len expr))
      (buf_appends (piece_text expr x) b h) h"
    using Cons.prems by (cases x) (simp_all add: piece_text_def wp_append_raw wp_append_encoded)
  then show ?case unfolding append_pieces.simps wp_bind
  proof (rule wp_mono, goal_cases)
    case (1 r h1)
    show ?case
    proof (cases "fst r = MCP_OK")
      case True
      have "wp (append_pieces expr xs (snd r)) (buf_appends (concat (map (piece_text expr) xs)) (snd r) h1) h1"
        using 1 by (intro Cons.IH) (simp add: buf_appends_def)
      then have "wp (append_pieces expr xs (snd r)) (buf_appends (concat (map (piece_text expr) (x # xs))) b h) h1"
        by (rule wp_mono) (use 1 True in \<open>auto simp: buf_appends_def steps_def split: if_splits\<close>)
      with True show ?thesis by simp
    qed (use 1 in \<open>simp add: buf_appends_def\<close>)
  qed
qed (simp add: buf_appends_def steps_def)

definition expanded ::
  "string \<Rightarrow> json option \<Rightarrow> uri_buf \<Rightarrow> 'z heap_scheme \<Rightarrow> mcp_status \<times> string option \<Rightarrow> 'z heap_scheme \<Rightarrow> bool" where
  "expanded p variables b h r h' \<longleftrightarrow>
     fst r = MCP_OK \<and> snd r \<noteq> None \<and> snd r = map_option (append (ub_text b)) (expand_text p variables) \<and> steps 0 h h' \<or>
     r = (MCP_ERR_INVALID_ARGUMENT, None) \<and> expand_text p variables = None \<and> steps (-1) h h' \<or>
     r = (MCP_ERR_NOMEM, None) \<and> script h \<noteq> [] \<and> steps (-1) h h'"

lemma expanded_after:
  assumes "steps 0 h h1" and "expanded q variables b1 h1 r h2" and "ub_text b1 = ub_text b @ t"
    and "expand_text p variables = map_option (append t) (expand_text q variables)"
  shows "expanded p variables b h r h2"
  using assms by (cases "expand_text q variables") (auto simp: expanded_def steps_def)

lemma wp_append_then:
  fixes h :: "'z heap_scheme"
  assumes "wp m (buf_appends t b h) h"
    and "\<And>b1 (h1 :: 'z heap_scheme). buf_ok b1 \<Longrightarrow> wp (expand_loop q variables b1) (expanded q variables b1 h1) h1"
    and "expand_text p variables = map_option (append t) (expand_text q variables)"
  shows "wp (do { r \<leftarrow> m; (if fst r \<noteq> MCP_OK then do { xfree True; ret (MCP_ERR_NOMEM, None) }
             else expand_loop q variables (snd r)) }) (expanded p variables b h) h"
  unfolding wp_bind
proof (rule wp_mono [OF assms(1)], goal_cases)
  case (1 r h1)
  show ?case
  proof (cases "fst r = MCP_OK")
    case True
    with 1 have r: "steps 0 h h1" "buf_ok (snd r)" "ub_text (snd r) = ub_text b @ t" by (simp_all add: buf_appends_def)
    have "wp (expand_loop q variables (snd r)) (expanded p variables b h) h1"
      by (rule wp_mono [OF assms(2) [OF r(2)]]) (rule expanded_after [OF r(1) _ r(3) assms(3)])
    with True show ?thesis by simp
  next
    case False
    with 1 show ?thesis by (auto simp: buf_appends_def wp_xfree expanded_def steps_def split: if_splits)
  qed
qed

lemma wp_expand_loop: "buf_ok b \<Longrightarrow> wp (expand_loop p variables b) (expanded p variables b h) h"
proof (induction "length p" arbitrary: p b h rule: less_induct)
  case less
  have invalid: "wp (do { xfree True; ret (MCP_ERR_INVALID_ARGUMENT, None) }) (expanded p variables b h) h"
    if "expand_text p variables = None"
    using that by (simp add: wp_xfree expanded_def steps_def)
  show ?case
  proof (cases p)
    case Nil
    then show ?thesis by (simp add: expand_loop.simps [of "[]"] expanded_def expand_text.simps [of "[]"])
  next
    case (Cons c p')
    show ?thesis
    proof (cases "c = CHR ''{''")
      case False
      have "wp (do { r \<leftarrow> append_raw_str b [c]; (if fst r \<noteq> MCP_OK then do { xfree True; ret (MCP_ERR_NOMEM, None) }
             else expand_loop p' variables (snd r)) }) (expanded p variables b h) h"
      proof (rule wp_append_then [OF wp_append_raw [OF less.prems]])
        show "expand_text p variables = map_option (append [c]) (expand_text p' variables)"
          using False by (cases "expand_text p' variables") (simp_all add: Cons expand_text.simps [of "c # p'"])
      qed (use less.hyps Cons in simp)
      with False show ?thesis by (simp add: Cons expand_loop.simps [of "c # p'"])
    next
      case True
      show ?thesis
      proof (cases "split_brace p'")
        case None
        with True Cons invalid show ?thesis by (simp add: expand_loop.simps [of "CHR ''{'' # p'"] expand_text.simps [of "CHR ''{'' # p'"])
      next
        case (Some eq)
        obtain e q where eq: "eq = (e, q)" by (cases eq)
        have len: "length q < length p" using split_brace_SomeD [of p' e q] Some eq Cons by simp
        show ?thesis
        proof (cases "parse_var_expr e")
          case None
          with True Cons \<open>split_brace p' = Some eq\<close> eq invalid show ?thesis
            by (simp add: expand_loop.simps [of "CHR ''{'' # p'"] expand_text.simps [of "CHR ''{'' # p'"])
        next
          case (Some expr)
          define name where "name = take 127 (ve_name expr)"
          define v where "v = (if variables = None then None else mcp_json_object_get variables name)"
          have loop: "expand_loop p variables b = (case v of None \<Rightarrow> expand_loop q variables b
              | Some v \<Rightarrow> do { r \<leftarrow> append_pieces expr (value_pieces expr name v) b;
                  (if fst r \<noteq> MCP_OK then do { xfree True; ret (MCP_ERR_NOMEM, None) } else expand_loop q variables (snd r)) })"
            unfolding name_def v_def using \<open>split_brace p' = Some eq\<close> Some eq
            by (simp add: expand_loop.simps [of "CHR ''{'' # p'"] Cons True Let_def)
          have spec: "expand_text p variables = map_option (append (case v of None \<Rightarrow> []
              | Some v \<Rightarrow> concat (map (piece_text expr) (value_pieces expr name v)))) (expand_text q variables)"
            unfolding name_def v_def using \<open>split_brace p' = Some eq\<close> Some eq
            by (simp add: expand_text.simps [of "CHR ''{'' # p'"] Cons True Let_def)
          show ?thesis
          proof (cases v)
            case None
            have "wp (expand_loop q variables b) (expanded p variables b h) h"
              by (rule wp_mono [OF less.hyps [OF len less.prems]])
                 (rule expanded_after [where t = "[]"], use spec None in auto)
            then show ?thesis unfolding loop None option.case .
          next
            case (Some w)
            show ?thesis unfolding loop Some option.case
              by (rule wp_append_then [OF wp_append_pieces [OF less.prems] less.hyps [OF len]]) (simp_all add: spec Some)
          qed
        qed
      qed
    qed
  qed
qed

lemma map_option_append_Nil [simp]: "map_option ((@) []) x = x"
  by (cases x) simp_all

lemma uri_expand_spec:
  "wp (mcp_uri_template_expand (Some p) variables) (\<lambda>r h'.
     fst r = MCP_OK \<and> snd r \<noteq> None \<and> snd r = expand_text p variables \<and> steps 1 h h' \<or>
     r = (MCP_ERR_INVALID_ARGUMENT, None) \<and> expand_text p variables = None \<and> steps 0 h h' \<or>
     r = (MCP_ERR_NOMEM, None) \<and> script h \<noteq> [] \<and> steps 0 h h') h"
  unfolding mcp_uri_template_expand_def option.case wp_bind
proof (rule wp_xmalloc, goal_cases)
  case (1 ok h1)
  show ?case
  proof (cases ok)
    case True
    have "wp (expand_loop p variables \<lparr>ub_text = [], ub_cap = 256\<rparr>) (expanded p variables \<lparr>ub_text = [], ub_cap = 256\<rparr> h1) h1"
      by (rule wp_expand_loop) (simp add: buf_ok_def)
    then have "wp (expand_loop p variables \<lparr>ub_text = [], ub_cap = 256\<rparr>) (\<lambda>r h'.
        fst r = MCP_OK \<and> snd r \<noteq> None \<and> snd r = expand_text p variables \<and> steps 1 h h' \<or>
        r = (MCP_ERR_INVALID_ARGUMENT, None) \<and> expand_text p variables = None \<and> steps 0 h h' \<or>
        r = (MCP_ERR_NOMEM, None) \<and> script h \<noteq> [] \<and> steps 0 h h') h1"
      by (rule wp_mono) (use 1 True in \<open>auto simp: expanded_def steps_def\<close>)
    with True show ?thesis by simp
  qed (use 1 in simp)
qed

section \<open>Expansion and matching are inverse\<close>

lemma hex_digit_char: "n < 16 \<Longrightarrow> hex_digit (hex_char n) = Some n"
proof -
  have "\<forall>n \<in> set [0..<16]. hex_digit (hex_char n) = Some n" by code_simp
  then show "n < 16 \<Longrightarrow> hex_digit (hex_char n) = Some n" by simp
qed

lemma decoded_plain: "c \<noteq> CHR ''%'' \<Longrightarrow> decoded (c # cs) = c # decoded cs"
  by (simp split: list.splits option.splits)

lemma decoded_coded: "decoded (coded_char rsv c @ cs) = c # decoded cs"
proof (cases "is_unreserved c \<or> rsv \<and> is_reserved_char c")
  case True
  have "\<not> is_unreserved (CHR ''%'')" "\<not> is_reserved_char (CHR ''%'')" by code_simp+
  with True have "c \<noteq> CHR ''%''" by auto
  with True show ?thesis by (simp add: coded_char_def decoded_plain del: decoded.simps)
next
  case False
  have c: "code c < 256" by simp
  then have "16 * (code c div 16) + code c mod 16 = code c" "code c div 16 < 16"
    using less_mult_imp_div_less [of "code c" 16 16] by simp_all
  moreover have "coded_char rsv c = [CHR ''%'', hex_char (code c div 16), hex_char (code c mod 16)]"
    using False by (simp add: coded_char_def)
  ultimately show ?thesis by (simp add: hex_digit_char del: mult_div_mod_eq)
qed

lemma decoded_enc: "md \<noteq> MCP_URI_MOD_PREFIX \<Longrightarrow> decoded (enc_text rsv md k n t) = t"
  by (induction t arbitrary: n) (simp_all add: decoded_coded)

lemma coded_char_chars: "c \<in> set (coded_char False d) \<Longrightarrow> is_unreserved c \<or> c = CHR ''%''"
proof -
  have "\<forall>n \<in> set [0..<16]. is_unreserved (hex_char n)" by code_simp
  then have "is_unreserved (hex_char (code d div 16))" "is_unreserved (hex_char (code d mod 16))"
    using less_mult_imp_div_less [of "code d" 16 16] by simp_all
  then show "c \<in> set (coded_char False d) \<Longrightarrow> is_unreserved c \<or> c = CHR ''%''"
    by (auto simp: coded_char_def split: if_splits)
qed

lemma enc_text_chars: "c \<in> set (enc_text False md k n t) \<Longrightarrow> is_unreserved c \<or> c = CHR ''%''"
proof (induction t arbitrary: n)
  case (Cons d t)
  then have "c \<in> set (coded_char False d) \<or> (\<exists>m. c \<in> set (enc_text False md k m t))"
    unfolding enc_text.simps Let_def by (simp only: set_append Un_iff split: if_splits) (auto split: if_splits)
  then show ?case using coded_char_chars Cons.IH by blast
qed simp

text \<open>A pattern with one expression at its end.\<close>

definition op_text :: "char option \<Rightarrow> string" where
  "op_text op = (case op of None \<Rightarrow> [] | Some c \<Rightarrow> [c])"

definition tail_pattern :: "string \<Rightarrow> char option \<Rightarrow> string \<Rightarrow> string" where
  "tail_pattern lit op name = lit @ CHR ''{'' # op_text op @ name @ ''}''"

definition plain_name :: "string \<Rightarrow> bool" where
  "plain_name name \<longleftrightarrow> name \<noteq> [] \<and> length name \<le> 127 \<and> utf8_valid name \<and> hd name \<notin> set operators \<and>
     set name \<inter> set '':*}'' = {}"

definition plain_expr :: "char option \<Rightarrow> string \<Rightarrow> var_expr" where
  "plain_expr op name = \<lparr>ve_op = op, ve_name = name, ve_reserved = (op = Some (CHR ''+'') \<or> op = Some (CHR ''#'')),
     ve_prefix = (if op = Some (CHR ''+'') then [] else op_text op), ve_query = (op = Some (CHR ''?'')),
     ve_mod = MCP_URI_MOD_NONE, ve_prefix_len = 0\<rparr>"

lemma parse_plain:
  assumes "plain_name name" and "\<forall>c. op = Some c \<longrightarrow> c \<in> set operators"
  shows "parse_var_expr (op_text op @ name) = Some (plain_expr op name)"
proof -
  have "last name \<noteq> CHR ''*''" using assms(1) last_in_set [of name] by (auto simp: plain_name_def simp del: last_in_set)
  with assms(1) have "parse_modifier name = Some (MCP_URI_MOD_NONE, name, 0)"
    by (auto simp: parse_modifier_def plain_name_def)
  with assms show ?thesis
    by (cases op; cases name) (auto simp: parse_var_expr_def op_text_def plain_expr_def plain_name_def)
qed

lemma split_brace_append: "CHR ''}'' \<notin> set e \<Longrightarrow> split_brace (e @ CHR ''}'' # r) = Some (e, r)"
  by (induction e) auto

lemma split_plain:
  assumes "plain_name name" and "\<forall>c. op = Some c \<longrightarrow> c \<in> set operators"
  shows "split_brace (op_text op @ name @ ''}'') = Some (op_text op @ name, [])"
proof -
  have "CHR ''}'' \<notin> set operators" by (simp add: operators_def)
  then have "CHR ''}'' \<notin> set (op_text op)" using assms(2) by (cases op) (auto simp: op_text_def)
  moreover have "CHR ''}'' \<notin> set name" using assms(1) by (simp add: plain_name_def)
  ultimately show ?thesis using split_brace_append [of "op_text op @ name" "[]"] by simp
qed

lemma tail_pattern_valid:
  assumes "plain_name name" and "\<forall>c. op = Some c \<longrightarrow> c \<in> set operators" and "set lit \<inter> set ''{}'' = {}"
  shows "template_valid (tail_pattern lit op name)"
  using assms(3)
proof (induction lit)
  case Nil
  then show ?case
    using assms split_plain [OF assms(1,2)] parse_plain [OF assms(1,2)]
    by (simp add: tail_pattern_def template_valid.simps [of "CHR ''{'' # _"] template_valid.simps [of "[]"] plain_name_def)
next
  case (Cons c lit)
  then have "c \<noteq> CHR ''{''" "c \<noteq> CHR ''}''" by auto
  with Cons show ?case by (simp add: tail_pattern_def template_valid.simps [of "c # _"])
qed

lemma tail_pattern_match:
  assumes "plain_name name" and "\<forall>c. op = Some c \<longrightarrow> c \<in> set operators" and "set lit \<inter> set ''{}'' = {}"
    and "value_ok (plain_expr op name) True w"
  shows "match_step (tail_pattern lit op name) (lit @ operator_text (plain_expr op name) @ w) [] =
     Some [capture (plain_expr op name) w]"
  using assms(3)
proof (induction lit)
  case Nil
  have "skip_operator (plain_expr op name) (operator_text (plain_expr op name) @ w) = Some w"
    by (simp add: skip_operator_iff)
  then show ?case
    using split_plain [OF assms(1,2)] parse_plain [OF assms(1,2)] match_last_iff [of "plain_expr op name" w "[]"] assms(4)
    by (simp add: tail_pattern_def match_step_eqs MAX_RAW_CAPTURES_def)
next
  case (Cons c lit)
  then have "c \<noteq> CHR ''{''" by auto
  with Cons show ?case by (simp add: tail_pattern_def match_step_eqs)
qed

lemma lead_pieces_plain:
  "concat (map (piece_text (plain_expr op name)) (lead_pieces (plain_expr op name) name)) = operator_text (plain_expr op name)"
proof (cases op)
  case None
  then show ?thesis by (simp add: lead_pieces_def plain_expr_def operator_text_def op_text_def)
next
  case (Some c)
  then show ?thesis
    by (cases "c = CHR ''+''"; cases "c = CHR ''?''")
       (simp_all add: lead_pieces_def plain_expr_def operator_text_def op_text_def piece_text_def)
qed

lemma tail_pattern_expand:
  assumes "plain_name name" and "\<forall>c. op = Some c \<longrightarrow> c \<in> set operators" and "set lit \<inter> set ''{}'' = {}"
    and "mcp_json_object_get (Some vars) name = Some (JString s)" and "wf_text s"
  shows "expand_text (tail_pattern lit op name) (Some vars) =
     Some (lit @ operator_text (plain_expr op name) @ enc_text (ve_reserved (plain_expr op name)) MCP_URI_MOD_NONE 0 0 s)"
  using assms(3)
proof (induction lit)
  case Nil
  have name: "take 127 name = name" using assms(1) by (simp add: plain_name_def)
  have v: "value_pieces (plain_expr op name) name (JString s) = lead_pieces (plain_expr op name) name @ [Enc s]"
    using assms(5) by (simp add: value_pieces_def scalar_text_def builtin_get_string_def)
  have fields: "ve_name (plain_expr op name) = name" "ve_mod (plain_expr op name) = MCP_URI_MOD_NONE"
    "ve_prefix_len (plain_expr op name) = 0" by (simp_all add: plain_expr_def)
  have "expand_text (CHR ''{'' # op_text op @ name @ ''}'') (Some vars) =
      Some (concat (map (piece_text (plain_expr op name)) (value_pieces (plain_expr op name) name (JString s))))"
    by (simp add: expand_text.simps [of "CHR ''{'' # _"] expand_text.simps [of "[]"] split_plain [OF assms(1,2)]
        parse_plain [OF assms(1,2)] fields name assms(4) Let_def)
  then show ?case
    by (simp add: tail_pattern_def v lead_pieces_plain) (simp add: piece_text_def fields)
next
  case (Cons c lit)
  then have "c \<noteq> CHR ''{''" by auto
  with Cons show ?case by (simp add: tail_pattern_def expand_text.simps [of "c # _"])
qed

lemma not_unreserved: "\<not> is_unreserved (CHR ''/'')" "\<not> is_unreserved (CHR ''&'')"
  by (simp_all add: is_unreserved_def)

lemma delimiters_coded: "CHR ''/'' \<notin> set (enc_text False md k n s)" "CHR ''&'' \<notin> set (enc_text False md k n s)"
  using enc_text_chars [of "CHR ''/''" md k n s] enc_text_chars [of "CHR ''&''" md k n s] not_unreserved by auto

lemma coded_value_ok: "value_ok (plain_expr op name) True (enc_text (ve_reserved (plain_expr op name)) MCP_URI_MOD_NONE 0 0 s)"
proof (cases "ve_reserved (plain_expr op name)")
  case True
  moreover from True have "ve_op (plain_expr op name) \<noteq> Some (CHR ''?'')" by (auto simp: plain_expr_def)
  moreover have "ve_mod (plain_expr op name) = MCP_URI_MOD_NONE" by (simp add: plain_expr_def)
  ultimately show ?thesis by (simp add: value_ok_def)
next
  case False
  moreover have "ve_mod (plain_expr op name) = MCP_URI_MOD_NONE" by (simp add: plain_expr_def)
  ultimately show ?thesis by (simp add: value_ok_def delimiters_coded)
qed

lemma yields_decoded_string:
  assumes "wf_text (decoded w)"
  shows "yields (decoded_string w) (Some (JString (decoded w)))"
proof -
  have d: "yields (url_decode w) (Some (decoded w))"
    unfolding url_decode_def by (rule yields_bind [OF yields_xmalloc]) (simp add: yields_ret)
  have n: "yields (mcp_json_string_new (Some (decoded w))) (Some (JString (decoded w)))"
    using makes_yields [OF makes_string, of "decoded w"] assms by simp
  show ?thesis
    unfolding decoded_string_def
    by (rule yields_bind [OF d], unfold option.case, rule yields_bind [OF n], rule yields_bind [OF yields_xfree], rule yields_ret)
qed

text \<open>
  C15: expanding a template and matching the result gives the variable back, for every operator
  (simple, reserved, fragment, path, label, query) at the end of a literal, and every string
  value: whatever characters it has, percent-coding keeps them and the value never runs into
  what delimits it.
\<close>
theorem uri_expand_match_roundtrip:
  assumes "plain_name name" and "\<forall>c. op = Some c \<longrightarrow> c \<in> set operators" and "set lit \<inter> set ''{}'' = {}"
    and "mcp_json_object_get (Some vars) name = Some (JString s)" and "wf_text s" and "script h = []"
  shows "fst (run_state (do {
      r \<leftarrow> mcp_uri_template_expand (Some (tail_pattern lit op name)) (Some vars);
      mcp_uri_template_match (Some (tail_pattern lit op name)) (snd r) True
    }) h) = (MCP_OK, Some (JObject [(name, JString s)] (next_cap 0)))"
proof -
  let ?e = "plain_expr op name"
  define w where "w = enc_text (ve_reserved ?e) MCP_URI_MOD_NONE 0 0 s"
  define u where "u = lit @ operator_text ?e @ w"
  have out: "yields (mcp_uri_template_expand (Some (tail_pattern lit op name)) (Some vars)) (MCP_OK, Some u)"
    by (rule yieldsI, rule wp_mono [OF uri_expand_spec])
       (use tail_pattern_expand [OF assms(1-5)] in \<open>auto simp: u_def w_def steps_def prod_eq_iff\<close>)
  have matched: "yields (mcp_uri_template_match (Some (tail_pattern lit op name)) (Some u) True)
      (MCP_OK, Some (JObject [(name, JString s)] (next_cap 0)))"
  proof -
    have dec: "decoded w = s" by (simp add: w_def decoded_enc)
    have name: "take 127 name = name" "utf8_valid name" using assms(1) by (simp_all add: plain_name_def)
    have setv: "yields (set_variable (JObject [] 0) name (JString s)) (Some (JObject [(name, JString s)] (next_cap 0)))"
      unfolding set_variable_def by (rule yields_bind [OF yields_set_take]) (simp_all add: name yields_ret)
    have cap: "yields (add_capture (JObject [] 0) (capture ?e w)) (Some (JObject [(name, JString s)] (next_cap 0)))"
      unfolding add_capture_def Let_def
      by (simp add: capture_def plain_expr_def name, rule yields_bind [OF yields_decoded_string])
         (simp_all add: dec assms(5) setv)
    have caps: "yields (add_captures (JObject [] 0) [capture ?e w]) (Some (JObject [(name, JString s)] (next_cap 0)))"
      unfolding add_captures.simps by (rule yields_bind [OF cap]) (simp add: yields_ret)
    have found: "match_step (tail_pattern lit op name) u [] = Some [capture ?e w]"
      using tail_pattern_match [OF assms(1-3) coded_value_ok, of s] by (simp add: u_def w_def)
    show ?thesis
      unfolding mcp_uri_template_match_def prod.case option.case found
      by (simp add: tail_pattern_valid [OF assms(1-3)] del: add_captures.simps, rule yields_bind [OF makes_yields [OF makes_leaf(4) TrueI]], unfold option.case)
         (rule yields_bind [OF caps], simp add: yields_ret)
  qed
  have "yields (do {
      r \<leftarrow> mcp_uri_template_expand (Some (tail_pattern lit op name)) (Some vars);
      mcp_uri_template_match (Some (tail_pattern lit op name)) (snd r) True
    }) (MCP_OK, Some (JObject [(name, JString s)] (next_cap 0)))"
    by (rule yields_bind [OF out]) (simp add: matched)
  then show ?thesis by (rule yields_unique) (rule assms(6))
qed

theorem uri_expand_match_roundtrip_witness:
  "fst (run_state (do {
      r \<leftarrow> mcp_uri_template_expand (Some (tail_pattern ''db://users'' (Some (CHR ''/'')) ''id'')) (Some (JObject [(''id'', JString ''a/b c'')] 4));
      mcp_uri_template_match (Some (tail_pattern ''db://users'' (Some (CHR ''/'')) ''id'')) (snd r) True
    }) \<lparr>live = 9, script = []\<rparr>) = (MCP_OK, Some (JObject [(''id'', JString ''a/b c'')] (next_cap 0)))"
proof (rule uri_expand_match_roundtrip)
  show "plain_name ''id''" by (simp add: plain_name_def operators_def utf8_valid_ascii)
  show "mcp_json_object_get (Some (JObject [(''id'', JString ''a/b c'')] 4)) ''id'' = Some (JString ''a/b c'')"
    by (simp add: builtin_object_get_def utf8_valid_ascii)
qed (simp_all add: operators_def wf_text_def utf8_valid_ascii)

text \<open>
  A prefix is counted in characters when it is expanded and in bytes of the coded text when it
  is matched: the first character of a text in another script does not match its own
  template.
\<close>

lemma prefix_counts_differ:
  "enc_text False MCP_URI_MOD_PREFIX 1 0 [CHR 0xC3, CHR 0xA9, CHR ''x''] = ''%C3%A9''" "match_step ''{v:1}'' ''%C3%A9'' [] = None"
  by (simp_all add: coded_char_def is_unreserved_def hex_char_def Let_def match_step_eqs parse_var_expr_def parse_modifier_def
      operators_def skip_operator_def match_last_def)

end
