(* ===== verification/Spec2Isabelle.thy ===== *)
theory Spec2Isabelle
  imports Dispatcher Mrtr_State Schema Tasks Timer Uri_Template
begin

text \<open>
  Verification of mcpkit-c, a C library for servers and clients of the Model Context Protocol.

  \<^bold>\<open>The program.\<close> A message arrives as text. The JSON backend parses it into a tree, the protocol layer
  wraps the tree as a JSON-RPC message, the validator checks envelope, name and parameters, and the
  dispatcher refuses it, or records its id in the session and hands it to a router, whose reply is
  serialized again. Messages of several sessions wait in a queue. Beside this path stand the tables of
  tasks and sessions, the timers, the signed request-state tokens of multi round-trip requests, URI
  templates and JSON schemas.

  \<^bold>\<open>The model.\<close> Functions that allocate are programs in a state monad over a record with the number of live
  blocks and the outcomes of the allocator calls to come, so that a theorem for every heap is a theorem for
  every allocator behaviour. A pointer that may be NULL is an option, a C string is the list of its bytes, a
  status code is a value of a data type, counters of fixed width are words. A structure that the code changes
  in place is returned changed. Clocks, sinks, tracers, callbacks and the router are parameters.

  \<^item> \<open>Mcp_Prelude\<close>: status codes (\<open>include/mcpkit/core/error.h\<close>), the allocator, weakest preconditions.
  \<^item> \<open>Utf8\<close>, \<open>Double\<close>: UTF-8 of \<open>src/json/builtin.c\<close>, and binary64 with the decimal conversions of the C library.
  \<^item> \<open>Json_Dom\<close>, \<open>Json_Grammar\<close>, \<open>Json_Parser\<close>, \<open>Json_Serializer\<close>: the rest of \<open>src/json/builtin.c\<close>;
    \<open>Json_Api\<close>: \<open>src/json/api.c\<close>; \<open>Json_Build\<close>: the steps by which the protocol layer assembles objects;
    \<open>Schema\<close>: \<open>src/json/schema.c\<close>.
  \<^item> \<open>Message\<close>, \<open>Initialize\<close>, \<open>Validate\<close>, \<open>Tasks\<close>, \<open>Uri_Template\<close>: the files of these names in \<open>src/protocol\<close>;
    \<open>Store\<close>: the growable array that the tables share.
  \<^item> \<open>Block_Hash\<close>, \<open>Sha1\<close>: \<open>src/core/sha1.c\<close>; \<open>Sha256\<close>, \<open>Base64url\<close>, \<open>Mrtr_State\<close>: \<open>src/protocol/mrtr_state.c\<close>.
  \<^item> \<open>Queue\<close>, \<open>Session\<close>, \<open>Dispatcher\<close>: the files of these names in \<open>src/server\<close>; \<open>Timer\<close>: \<open>src/runtime/timer.c\<close>;
    \<open>Logger\<close>: \<open>src/logging/logger.c\<close>.

  \<^bold>\<open>What is shown.\<close>

  \<^item> JSON: the parser returns a value exactly for the documents of the grammar in valid UTF-8, always has enough
    fuel, and neither leaks nor keeps a block of a failed parse; parsing inverts serializing; the automaton
    accepts exactly the UTF-8 encodings; updates of objects change one key; clones own their blocks.
  \<^item> Schemas: the recursive validator accepts exactly the instances that conform to the schema read
    declaratively (\<open>conforms\<close>), and the builders narrow a schema as they say.
  \<^item> Messages: what a builder makes is read back by the parser and the accessors; every builder accounts for
    the caller's values on every path; the validator gives what later code relies on.
  \<^item> Tables: the id set, the tasks and the sessions are finite sets and maps; the interface
    \<open>keyed_store\<close> is interpreted for ids and tasks, \<open>fifo\<close> for the ring of the queue.
  \<^item> Server: no id reaches the router twice in a session; invalid, early and repeated requests do not reach it
    at all; queued messages are served in order; permissions and notifications follow the session's state.
  \<^item> Timers: the list is the stable sort by deadline, and a poll returns when callbacks schedule nothing due.
  \<^item> Tokens: both hashes and HMAC agree with reference definitions on blocks and pieces (\<open>streaming_hash\<close>), Base64
    decoding inverts encoding, tokens round-trip in time and are accepted only with the right signature.
  \<^item> URI templates: the matcher is exact for the declarative reading of a pattern, and matching inverts
    expansion of a final expression.
  \<^item> Defects: the theorems of kind error state where the code departs from its documentation.

  \<^bold>\<open>Fuel and bounds.\<close> The parser runs with \<open>2 * length text + 1\<close> steps of fuel, and \<open>parse_value_terminates\<close> shows
  that this is never used up. Polling a timer may run forever and is a \<open>partial_function\<close> into options: that it
  returns, and when it does not, are theorems. Every other recursion is total. Sizes are natural numbers
  where the code bounds them before use; capacities double without a model of \<open>size_t\<close> overflow.

  \<^bold>\<open>Not modelled.\<close> The route handlers and the tables of tools, resources, prompts and skills behind the router; a
  custom JSON backend bound to a context; the client, the OAuth helpers, content, sampling, manifest, trace
  and application helpers, which assemble and read objects by the steps modelled in \<open>Json_Build\<close>; the
  plugin table; the command line tool and the examples. Transports, reactor, serve loop and threads are
  operating-system I/O and interleavings of the sequential code. Freed memory is modelled by the count of
  live blocks: a second release of a block shows as a count that is too low and not as a crash.
\<close>

end
